(* ===== verification/Prelude.thy ===== *)
theory Prelude
  imports Main "HOL-Library.Word" "HOL-Library.Sublist"
begin

text \<open>
  Shared vocabulary of the development: the simplification collections, C byte buffers and
  the part of \<^verbatim>\<open><string.h>\<close> and \<^verbatim>\<open><stdio.h>\<close> that the programs use, results of
  system calls, and the generic list lemmas the component theories rely on.
  A C object of \<open>n\<close> bytes is a \<open>char list\<close> of length \<open>n\<close>; a C string is the part of such
  a buffer before the first NUL byte.
\<close>

named_theorems cstring_simps \<open>evaluation of string.h functions on framed literals\<close>
named_theorems frame_simps \<open>length and content of 20-byte message frames\<close>

section \<open>Machine integers\<close>

type_synonym s32 = "32 word"
type_synonym s64 = "64 word"

text \<open>Conversions between the widths, on words given as \<open>of_int k\<close> with \<open>k\<close> in range.\<close>

lemma signed_take_bit_small: "- (2 ^ n) \<le> v \<Longrightarrow> v < 2 ^ n \<Longrightarrow> signed_take_bit n v = (v::int)"
  by (rule signed_take_bit_int_eq_self) auto

lemma ucast_s32_of_int: "(ucast (of_int k :: s64) :: s32) = of_int k"
  by (simp add: unsigned_of_int word_of_int_eq_iff)

lemma scast_s64_of_int: "- (2 ^ 31) \<le> k \<Longrightarrow> k < 2 ^ 31 \<Longrightarrow> (scast (of_int k :: s32) :: s64) = of_int k"
  by (simp add: scast_eq signed_of_int signed_take_bit_small)

lemma sint_s32_of_int: "- (2 ^ 31) \<le> k \<Longrightarrow> k < 2 ^ 31 \<Longrightarrow> sint (of_int k :: s32) = k"
  by (simp add: signed_of_int signed_take_bit_small)

lemma sint_s32_add: "0 \<le> k \<Longrightarrow> sint n + k < 2 ^ 31 \<Longrightarrow> sint (n + of_int k :: s32) = sint n + k"
  using sint_s32_of_int [of "sint n + k"] sint_greater_eq [of n] by simp

lemma sint_s64_of_int: "- (2 ^ 63) \<le> k \<Longrightarrow> k < 2 ^ 63 \<Longrightarrow> sint (of_int k :: s64) = k"
  by (simp add: signed_of_int signed_take_bit_small)

lemma uint_s64_of_int: "0 \<le> k \<Longrightarrow> k < 2 ^ 64 \<Longrightarrow> uint (of_int k :: s64) = k"
  by (simp add: unsigned_of_int take_bit_int_eq_self)

lemma uint_s64_of_neg: "- (2 ^ 64) \<le> k \<Longrightarrow> k < 0 \<Longrightarrow> uint (of_int k :: s64) = k + 2 ^ 64"
  by (simp add: unsigned_of_int take_bit_eq_mod) (smt (verit) mod_add_self2 mod_pos_pos_trivial)

lemma unat_s64_of_nat: "n < 2 ^ 64 \<Longrightarrow> unat (of_nat n :: s64) = n"
  by (simp add: unsigned_of_nat take_bit_nat_eq_self)

section \<open>Lists\<close>

lemma take_append_replicate [simp]:
  "length xs \<le> n \<Longrightarrow> take n (xs @ replicate (n - length xs) x) = xs @ replicate (n - length xs) x"
  by simp

lemma takeWhile_append_stop:
  "\<forall>x \<in> set xs. P x \<Longrightarrow> \<not> P y \<Longrightarrow> takeWhile P (xs @ y # ys) = xs"
  by (induction xs) auto

lemma takeWhile_all [simp]: "\<forall>x \<in> set xs. P x \<Longrightarrow> takeWhile P xs = xs"
  by (induction xs) auto

lemma length_overwrite: "length d \<le> length b \<Longrightarrow> length (d @ drop (length d) b) = length b"
  by simp

lemma sublist_length: "sublist xs ys \<Longrightarrow> length xs \<le> length ys"
  by (auto simp: sublist_def)

lemma sum_list_update:
  fixes f :: "'a \<Rightarrow> 'b::comm_monoid_add"
  shows "t < length cs \<Longrightarrow> sum_list (map f (cs[t := c])) + f (cs ! t) = sum_list (map f cs) + f c"
proof (induction cs arbitrary: t)
  case Nil
  then show ?case by simp
next
  case (Cons a cs)
  then show ?case by (cases t) (simp_all add: ac_simps)
qed

section \<open>C strings and buffers\<close>

abbreviation NUL :: char where
  "NUL \<equiv> CHR 0x00"

definition cstr :: "char list \<Rightarrow> string" where
  "cstr b = takeWhile (\<lambda>c. c \<noteq> NUL) b"

definition terminated :: "char list \<Rightarrow> bool" where
  "terminated b \<longleftrightarrow> NUL \<in> set b"

definition strncpy :: "char list \<Rightarrow> string \<Rightarrow> nat \<Rightarrow> char list" where
  "strncpy dst src n = take n src @ replicate (n - length src) NUL @ drop n dst"

definition strcpy :: "char list \<Rightarrow> string \<Rightarrow> char list option" where
  \<comment> \<open>\<open>None\<close>: the copy with its NUL byte does not fit the destination object.\<close>
  "strcpy dst src =
     (if length src < length dst then Some (src @ NUL # drop (Suc (length src)) dst) else None)"

definition strcmp_eq :: "char list \<Rightarrow> string \<Rightarrow> bool" where
  \<comment> \<open>\<^verbatim>\<open>0 == strcmp(a, b)\<close>\<close>
  "strcmp_eq a b \<longleftrightarrow> cstr a = b"

definition strstr_found :: "string \<Rightarrow> string \<Rightarrow> bool" where
  \<comment> \<open>\<^verbatim>\<open>0 != strstr(haystack, needle)\<close>\<close>
  "strstr_found haystack needle \<longleftrightarrow> sublist needle haystack"

definition memset :: "char list \<Rightarrow> char \<Rightarrow> nat \<Rightarrow> char list" where
  "memset b c n = replicate n c @ drop n b"

definition overwrite :: "char list \<Rightarrow> char list \<Rightarrow> char list" where
  \<comment> \<open>a \<^verbatim>\<open>read(2)\<close> that delivered the bytes \<open>d\<close> into the buffer \<open>b\<close>\<close>
  "overwrite d b = d @ drop (length d) b"

lemma cstr_append_NUL: "NUL \<notin> set s \<Longrightarrow> cstr (s @ NUL # r) = s"
  unfolding cstr_def by (rule takeWhile_append_stop) auto

lemma cstr_no_NUL: "NUL \<notin> set s \<Longrightarrow> cstr s = s"
  unfolding cstr_def by (rule takeWhile_all) auto

lemma NUL_notin_cstr [simp]: "NUL \<notin> set (cstr b)"
  by (induction b) (auto simp: cstr_def)

lemma length_cstr_le: "length (cstr b) \<le> length b"
  by (simp add: cstr_def length_takeWhile_le)

lemma length_cstr_terminated: "terminated b \<Longrightarrow> length (cstr b) < length b"
  by (induction b) (auto simp: cstr_def terminated_def)

lemma length_strncpy: "n \<le> length dst \<Longrightarrow> length (strncpy dst src n) = length dst"
  by (simp add: strncpy_def)

lemma strncpy_whole: "length dst = n \<Longrightarrow> strncpy dst src n = take n src @ replicate (n - length src) NUL"
  by (simp add: strncpy_def)

lemma cstr_replicate_NUL [simp]: "cstr (s @ replicate n NUL) = cstr s"
  by (induction s) (auto simp: cstr_def takeWhile_eq_Nil_iff)

lemma cstr_strncpy:
  "length src \<le> n \<Longrightarrow> length dst = n \<Longrightarrow> NUL \<notin> set src \<Longrightarrow> cstr (strncpy dst src n) = src"
  by (simp add: strncpy_whole cstr_no_NUL)

lemma strcpy_Some_iff: "(\<exists>b. strcpy dst src = Some b) \<longleftrightarrow> length src < length dst"
  by (simp add: strcpy_def)

lemma strcpy_SomeD: "strcpy dst src = Some b \<Longrightarrow> NUL \<notin> set src \<Longrightarrow> cstr b = src \<and> length b = length dst"
  by (auto simp: strcpy_def cstr_append_NUL split: if_splits)

lemma overwrite_whole: "length d = length b \<Longrightarrow> overwrite d b = d"
  by (simp add: overwrite_def)

lemma length_overwrite' [simp]: "length d \<le> length b \<Longrightarrow> length (overwrite d b) = length b"
  by (simp add: overwrite_def)

definition typed :: "string \<Rightarrow> bool" where
  \<comment> \<open>a text that fits a 20-byte array with its NUL byte\<close>
  "typed w \<longleftrightarrow> length w < 20 \<and> NUL \<notin> set w"

section \<open>Decimal output\<close>

fun dec :: "nat \<Rightarrow> string" where
  \<comment> \<open>the conversion of \<^verbatim>\<open>%u\<close> / \<^verbatim>\<open>%d\<close> for a non-negative value\<close>
  "dec n = (if n < 10 then [char_of (48 + n)] else dec (n div 10) @ [char_of (48 + n mod 10)])"

declare dec.simps [simp del]

lemma dec_nonempty: "dec n \<noteq> []"
  by (subst dec.simps) simp

lemma NUL_notin_dec: "NUL \<notin> set (dec n)"
proof (induction n rule: dec.induct)
  case (1 n)
  have digit: "char_of (48 + d) \<noteq> NUL" if "d < 10" for d :: nat
    using that by (auto dest: arg_cong [where f = "of_char :: char \<Rightarrow> nat"])
  show ?case
  proof (cases "n < 10")
    case True
    with digit [of n] show ?thesis by (subst dec.simps) simp
  next
    case False
    with 1 digit [of "n mod 10"] show ?thesis by (subst dec.simps) simp
  qed
qed

lemma length_dec_pos: "0 < length (dec n)"
  using dec_nonempty by simp

lemma length_dec_bound: "n < 10 ^ Suc k \<Longrightarrow> length (dec n) \<le> Suc k"
proof (induction k arbitrary: n)
  case 0
  then show ?case by (subst dec.simps) simp
next
  case (Suc k)
  show ?case
  proof (cases "n < 10")
    case True
    then show ?thesis by (subst dec.simps) simp
  next
    case False
    from Suc.prems have "n div 10 < 10 ^ Suc k" by simp
    then have "length (dec (n div 10)) \<le> Suc k" by (rule Suc.IH)
    with False show ?thesis by (subst dec.simps) simp
  qed
qed

section \<open>Bytes of an int\<close>

definition le32 :: "s32 \<Rightarrow> char list" where
  \<comment> \<open>the four bytes of an \<^verbatim>\<open>int\<close>, the lowest first\<close>
  "le32 n = (let k = unat n in map char_of [k, k div 256, k div 65536, k div 16777216])"

definition of_le32 :: "char list \<Rightarrow> s32" where
  "of_le32 b = of_nat (of_char (b ! 0) + 256 * of_char (b ! 1) + 65536 * of_char (b ! 2) + 16777216 * of_char (b ! 3))"

lemma base256:
  assumes "k < 2 ^ 32"
  shows "k mod 256 + 256 * (k div 256 mod 256) + 65536 * (k div 65536 mod 256)
    + 16777216 * (k div 16777216 mod 256) = (k::nat)"
proof -
  define a where "a = k div 256"
  define b where "b = a div 256"
  define c where "c = b div 256"
  have e: "k div 65536 = b" "k div 16777216 = c"
    by (simp_all add: a_def b_def c_def div_mult2_eq [symmetric])
  have "c < 256" using assms unfolding e(2) [symmetric] by (simp add: div_less_iff_less_mult)
  moreover have "k = 256 * a + k mod 256" "a = 256 * b + a mod 256" "b = 256 * c + b mod 256"
    by (simp_all add: a_def b_def c_def)
  ultimately show ?thesis unfolding e a_def [symmetric] by simp
qed

lemma of_le32_le32: "of_le32 (le32 n @ r) = n"
proof -
  define k where "k = unat n"
  have k: "k < 2 ^ 32" using unsigned_less [of n] by (simp add: k_def)
  have "of_le32 (le32 n @ r) = of_nat (k mod 256 + 256 * (k div 256 mod 256)
      + 65536 * (k div 65536 mod 256) + 16777216 * (k div 16777216 mod 256))"
    unfolding of_le32_def le32_def Let_def k_def [symmetric] by (simp add: numeral_3_eq_3)
  then show ?thesis unfolding base256 [OF k] by (simp add: k_def)
qed

lemma length_le32 [simp]: "length (le32 n) = 4"
  by (simp add: le32_def Let_def)

end
