(* ===== verification/Door_Types.thy ===== *)
theory Door_Types
  imports Prelude
begin

text \<open>
  The data model of the door bell (\<^verbatim>\<open>linux_task/door_bell_system_sw_design/door_bell.h\<close>) and
  the conversion \<^verbatim>\<open>str_enum\<close> of \<^verbatim>\<open>door_bell_func.c\<close>: enumerations as datatypes with their C
  values, structs as records.  A value of an enumeration that is stored in memory (a
  message on the queue, a field filled in by \<^verbatim>\<open>fread\<close>) is kept as the integer the code
  stores, since the code can put integers there that name no enumerator.
\<close>

section \<open>Enumerations\<close>

datatype status_t = SUCCESS | FAIL

primrec status_code :: "status_t \<Rightarrow> int" where
  "status_code SUCCESS = 0"
| "status_code FAIL = 1"

datatype ecu_status = ECU_DEFAULT | ECU_WORKING | ECU_NOTWORKING

primrec ecu_code :: "ecu_status \<Rightarrow> int" where
  "ecu_code ECU_DEFAULT = -1"
| "ecu_code ECU_WORKING = 0"
| "ecu_code ECU_NOTWORKING = 1"

datatype doorStatus = DOOR_DEFAULT | DOOR_OPEN | DOOR_CLOSED

primrec door_code :: "doorStatus \<Rightarrow> int" where
  "door_code DOOR_DEFAULT = -1"
| "door_code DOOR_OPEN = 0"
| "door_code DOOR_CLOSED = 1"

datatype event =
    INVALID | MOTION_DETECTED | CALC_DISTANCE | MOTION_SCAN_ON | INVALID_DISTANCE
  | VALID_DISTANCE | RING_BELL | RING_BELL_EXPIRY | ECU_NOT_WORKING | DOOR_WAIT_EXPIRY
  | DOOR_WAIT_RETRY_END

primrec event_code :: "event \<Rightarrow> int" where
  "event_code INVALID = -1"
| "event_code MOTION_DETECTED = 0"
| "event_code CALC_DISTANCE = 1"
| "event_code MOTION_SCAN_ON = 2"
| "event_code INVALID_DISTANCE = 3"
| "event_code VALID_DISTANCE = 4"
| "event_code RING_BELL = 5"
| "event_code RING_BELL_EXPIRY = 6"
| "event_code ECU_NOT_WORKING = 7"
| "event_code DOOR_WAIT_EXPIRY = 8"
| "event_code DOOR_WAIT_RETRY_END = 10"

lemma event_code_inject [simp]: "event_code a = event_code b \<longleftrightarrow> a = b"
  by (cases a; cases b) simp_all

text \<open>Enumerators compare as their integer values do in C.\<close>

instantiation event :: linorder
begin

definition less_eq_event :: "event \<Rightarrow> event \<Rightarrow> bool" where
  "less_eq_event a b \<longleftrightarrow> event_code a \<le> event_code b"

definition less_event :: "event \<Rightarrow> event \<Rightarrow> bool" where
  "less_event a b \<longleftrightarrow> event_code a < event_code b"

instance
  by standard (auto simp: less_eq_event_def less_event_def)

end

section \<open>Structs\<close>

record event_data =
  mtype :: int
  msg_event :: int  \<comment> \<open>\<^verbatim>\<open>msg_data.event\<close>\<close>

definition event_data_zero :: event_data where
  \<comment> \<open>\<^verbatim>\<open>event_data e = {0}\<close>\<close>
  "event_data_zero = \<lparr>mtype = 0, msg_event = 0\<rparr>"

record read_data =
  rd_value :: int
  rd_status :: int

definition MAX_MESSAGE_SIZE :: nat where
  "MAX_MESSAGE_SIZE = 20"

definition MIN_DISTANCE :: int where
  "MIN_DISTANCE = 4"

definition MAX_DISTANCE :: int where
  "MAX_DISTANCE = 8"

section \<open>Commands on the pipes\<close>

text \<open>
  \<^verbatim>\<open>str_enum\<close> compares its argument with the six command names; \<open>None\<close> is the null pointer.
\<close>

definition str_enum :: "char list option \<Rightarrow> event" where
  "str_enum arg =
     (case arg of
        None \<Rightarrow> INVALID
      | Some a \<Rightarrow>
          if strcmp_eq a ''CALC_DISTANCE'' then CALC_DISTANCE
          else if strcmp_eq a ''MOTION_SCAN_ON'' then MOTION_SCAN_ON
          else if strcmp_eq a ''RING_BELL'' then RING_BELL
          else if strcmp_eq a ''RING_BELL_EXPIRY'' then RING_BELL_EXPIRY
          else if strcmp_eq a ''DOOR_WAIT_EXPIRY'' then DOOR_WAIT_EXPIRY
          else if strcmp_eq a ''DOOR_WAIT_RETRY_END'' then DOOR_WAIT_RETRY_END
          else INVALID)"

text \<open>
  The command names the monitor writes into its 20-byte buffer before it posts them, and
  the 20-byte frame that \<^verbatim>\<open>strncpy\<close> makes of such a name.
\<close>

primrec event_name :: "event \<Rightarrow> string" where
  "event_name INVALID = ''INVALID''"
| "event_name MOTION_DETECTED = ''MOTION_DETECTED''"
| "event_name CALC_DISTANCE = ''CALC_DISTANCE''"
| "event_name MOTION_SCAN_ON = ''MOTION_SCAN_ON''"
| "event_name INVALID_DISTANCE = ''INVALID_DISTANCE''"
| "event_name VALID_DISTANCE = ''VALID_DISTANCE''"
| "event_name RING_BELL = ''RING_BELL''"
| "event_name RING_BELL_EXPIRY = ''RING_BELL_EXPIRY''"
| "event_name ECU_NOT_WORKING = ''ECU_NOT_WORKING''"
| "event_name DOOR_WAIT_EXPIRY = ''DOOR_WAIT_EXPIRY''"
| "event_name DOOR_WAIT_RETRY_END = ''DOOR_WAIT_RETRY_END''"

definition empty_buff :: "char list" where
  "empty_buff = replicate MAX_MESSAGE_SIZE NUL"

definition frame_of :: "event \<Rightarrow> char list" where
  "frame_of e = strncpy empty_buff (event_name e) MAX_MESSAGE_SIZE"

definition commands :: "event list" where
  "commands = [CALC_DISTANCE, MOTION_SCAN_ON, RING_BELL, RING_BELL_EXPIRY, DOOR_WAIT_EXPIRY,
     DOOR_WAIT_RETRY_END]"

lemma length_empty_buff [frame_simps]: "length empty_buff = MAX_MESSAGE_SIZE"
  by (simp add: empty_buff_def)

lemma length_event_name: "length (event_name e) < MAX_MESSAGE_SIZE"
  by (cases e) (simp_all add: MAX_MESSAGE_SIZE_def)

lemma NUL_notin_event_name: "NUL \<notin> set (event_name e)"
  by (cases e) simp_all

lemma length_frame_of [frame_simps]: "length (frame_of e) = MAX_MESSAGE_SIZE"
  by (simp add: frame_of_def length_strncpy frame_simps)

lemma cstr_frame_of [frame_simps]: "cstr (frame_of e) = event_name e"
  unfolding frame_of_def
  by (rule cstr_strncpy) (simp_all add: frame_simps NUL_notin_event_name less_imp_le length_event_name)

lemma strncpy_frame:
  "length buf = MAX_MESSAGE_SIZE \<Longrightarrow> strncpy buf (event_name e) MAX_MESSAGE_SIZE = frame_of e"
  by (simp add: frame_of_def strncpy_whole frame_simps)

lemma str_enum_frame [frame_simps]:
  "str_enum (Some (frame_of e)) = (if e \<in> set commands then e else INVALID)"
  by (cases e) (simp_all add: str_enum_def strcmp_eq_def frame_simps commands_def)

lemma frame_of_inject: "frame_of a = frame_of b \<longleftrightarrow> a = b"
proof
  assume "frame_of a = frame_of b"
  then have "event_name a = event_name b" by (metis cstr_frame_of)
  then show "a = b" by (cases a; cases b) simp_all
qed simp

text \<open>
  Every command survives the trip through a 20-byte pipe message: copying its name into
  any 20-byte buffer with \<^verbatim>\<open>strncpy\<close> and reading it back with \<^verbatim>\<open>str_enum\<close> gives the command.
\<close>

lemma str_enum_strncpy_roundtrip:
  assumes "e \<in> set commands" and "length buf = MAX_MESSAGE_SIZE"
  shows "str_enum (Some (strncpy buf (event_name e) MAX_MESSAGE_SIZE)) = e
    \<and> terminated (strncpy buf (event_name e) MAX_MESSAGE_SIZE)"
proof -
  have "terminated (frame_of e)"
    using length_event_name [of e] by (simp add: frame_of_def terminated_def strncpy_def)
  with assms show ?thesis by (simp add: strncpy_frame frame_simps)
qed

end
