(* ===== verification/Channel_Contract.thy ===== *)
theory Channel_Contract
  imports Prelude
begin

text \<open>
  The contract of a message channel that programs rely on: what is posted comes out first in,
  first out, nothing is lost or invented.  It is interpreted by the pipes and the message queue of
  the door bell (\<open>Door_Channels\<close>) and by the message queue programs (\<open>Ipc_Programs\<close>).
\<close>

section \<open>The interface: a FIFO mailbox\<close>

locale mailbox =
  fixes post :: "'m \<Rightarrow> 'c \<Rightarrow> 'c"
    and fetch :: "'c \<Rightarrow> ('m \<times> 'c) option"
    and contents :: "'c \<Rightarrow> 'm list"
    and wf :: "'c \<Rightarrow> bool"
    and sendable :: "'m \<Rightarrow> bool"
  assumes wf_post: "wf c \<Longrightarrow> sendable m \<Longrightarrow> wf (post m c)"
    and contents_post: "wf c \<Longrightarrow> sendable m \<Longrightarrow> contents (post m c) = contents c @ [m]"
    and fetch_None: "wf c \<Longrightarrow> fetch c = None \<longleftrightarrow> contents c = []"
    and fetch_Some: "wf c \<Longrightarrow> fetch c = Some (m, c') \<Longrightarrow> contents c = m # contents c' \<and> wf c'"
begin

fun post_all :: "'m list \<Rightarrow> 'c \<Rightarrow> 'c" where
  "post_all [] c = c"
| "post_all (m # ms) c = post_all ms (post m c)"

fun fetch_n :: "nat \<Rightarrow> 'c \<Rightarrow> ('m list \<times> 'c) option" where
  "fetch_n 0 c = Some ([], c)"
| "fetch_n (Suc n) c =
     (case fetch c of
        None \<Rightarrow> None
      | Some (m, c') \<Rightarrow> map_option (\<lambda>(ms, d). (m # ms, d)) (fetch_n n c'))"

lemma post_all_contents:
  "wf c \<Longrightarrow> list_all sendable ms \<Longrightarrow> contents (post_all ms c) = contents c @ ms \<and> wf (post_all ms c)"
  by (induction ms arbitrary: c) (auto simp: wf_post contents_post)

lemma fetch_n_contents:
  "wf c \<Longrightarrow> n \<le> length (contents c) \<Longrightarrow>
     \<exists>d. fetch_n n c = Some (take n (contents c), d) \<and> contents d = drop n (contents c) \<and> wf d"
proof (induction n arbitrary: c)
  case 0
  then show ?case by simp
next
  case (Suc n)
  then obtain m c' where f: "fetch c = Some (m, c')"
    using fetch_None [of c] by (cases "fetch c") (auto split: prod.splits)
  with Suc.prems have c: "contents c = m # contents c'" "wf c'"
    using fetch_Some by blast+
  with Suc.prems Suc.IH [of c'] show ?case by (auto simp: f)
qed

lemma fetch_n_blocks: "wf c \<Longrightarrow> length (contents c) < n \<Longrightarrow> fetch_n n c = None"
proof (induction n arbitrary: c)
  case 0
  then show ?case by simp
next
  case (Suc n)
  show ?case
  proof (cases "fetch c")
    case None
    then show ?thesis by simp
  next
    case (Some r)
    with Suc.prems show ?thesis
      using fetch_Some [of c "fst r" "snd r"] Suc.IH [of "snd r"] by (cases r) auto
  qed
qed

lemma fifo:
  assumes "wf c" and "contents c = []" and "list_all sendable ms"
  shows "\<exists>d. fetch_n (length ms) (post_all ms c) = Some (ms, d) \<and> contents d = []"
  using fetch_n_contents [of "post_all ms c" "length ms"] post_all_contents [OF assms(1,3)] assms(2)
  by auto

end

end
