(* ===== verification/Door_Channels.thy ===== *)
theory Door_Channels
  imports Door_Types Channel_Contract
begin

text \<open>
  The two message channels of the door bell and the functions of \<^verbatim>\<open>door_bell_func.c\<close> that use
  them: the pipes (\<^verbatim>\<open>post_event\<close>, \<^verbatim>\<open>read_event\<close>), byte streams on which every message is a
  20-byte frame, and the System V message queue (\<^verbatim>\<open>post_messageToQ\<close>, \<^verbatim>\<open>get_messageFromQ\<close>).
  The outcome of each system call is an argument; a call that would block is \<open>None\<close>.
  Both channels interpret the locale \<open>mailbox\<close>: first in, first out, nothing lost or invented.
\<close>

section \<open>Pipes\<close>

type_synonym pipe = "char list"

definition post_event :: "bool \<Rightarrow> pipe \<Rightarrow> char list \<Rightarrow> nat \<Rightarrow> status_t \<times> pipe" where
  \<comment> \<open>\<open>wr\<close>: \<^verbatim>\<open>write(2)\<close> did not return -1\<close>
  "post_event wr p msg_buff msg_size =
     (if \<not> wr then (FAIL, p) else (SUCCESS, p @ take msg_size msg_buff))"

definition read_event :: "bool \<Rightarrow> pipe \<Rightarrow> char list \<Rightarrow> nat \<Rightarrow> (status_t \<times> pipe \<times> char list) option" where
  \<comment> \<open>\<open>rd\<close>: \<^verbatim>\<open>read(2)\<close> did not return -1; \<open>None\<close>: it blocks on the empty pipe\<close>
  "read_event rd p msg_buff msg_size =
     (if \<not> rd then Some (FAIL, p, msg_buff)
      else if p = [] then None
      else Some (SUCCESS, drop msg_size p, overwrite (take msg_size p) msg_buff))"

function pipe_frames :: "pipe \<Rightarrow> char list list" where
  "pipe_frames p = (if p = [] then [] else take MAX_MESSAGE_SIZE p # pipe_frames (drop MAX_MESSAGE_SIZE p))"
  by pat_completeness auto
termination
  by (relation "measure length") (auto simp: MAX_MESSAGE_SIZE_def)

declare pipe_frames.simps [simp del]

lemma pipe_frames_Nil [simp]: "pipe_frames [] = []"
  by (subst pipe_frames.simps) simp

lemma pipe_frames_cons [simp]:
  "length f = MAX_MESSAGE_SIZE \<Longrightarrow> pipe_frames (f @ p) = f # pipe_frames p"
  by (subst pipe_frames.simps) (auto simp: MAX_MESSAGE_SIZE_def)

lemma pipe_frames_concat:
  "list_all (\<lambda>f. length f = MAX_MESSAGE_SIZE) fs \<Longrightarrow> pipe_frames (concat fs) = fs"
  by (induction fs) auto

text \<open>A pipe on which only commands were posted: the frames of a list of events.\<close>

definition pipe_of :: "event list \<Rightarrow> pipe" where
  "pipe_of es = concat (map frame_of es)"

lemma pipe_of_Nil [simp]: "pipe_of [] = []"
  by (simp add: pipe_of_def)

lemma pipe_of_Cons: "pipe_of (e # es) = frame_of e @ pipe_of es"
  by (simp add: pipe_of_def)

lemma pipe_of_snoc: "pipe_of es @ frame_of e = pipe_of (es @ [e])"
  by (simp add: pipe_of_def)

lemma frame_of_nonempty [simp]: "frame_of e \<noteq> []"
  using length_frame_of [of e] by (auto simp: MAX_MESSAGE_SIZE_def)

lemma pipe_of_eq_Nil [simp]: "pipe_of es = [] \<longleftrightarrow> es = []"
  by (cases es) (simp_all add: pipe_of_Cons)

lemma take_frame [simp]: "take MAX_MESSAGE_SIZE (frame_of e) = frame_of e"
  by (simp add: frame_simps)

lemma pipe_of_frames [simp]: "pipe_frames (pipe_of es) = map frame_of es"
  by (induction es) (simp_all add: pipe_of_Cons frame_simps)

lemma post_event_frame [simp]:
  "post_event True (pipe_of es) (frame_of e) MAX_MESSAGE_SIZE = (SUCCESS, pipe_of (es @ [e]))"
  by (simp add: post_event_def pipe_of_snoc)

lemma read_event_pipe_of:
  "length b = MAX_MESSAGE_SIZE \<Longrightarrow>
   read_event True (pipe_of es) b MAX_MESSAGE_SIZE =
     (case es of [] \<Rightarrow> None | e # es' \<Rightarrow> Some (SUCCESS, pipe_of es', frame_of e))"
  by (cases es) (simp_all add: read_event_def pipe_of_Cons frame_simps overwrite_whole)

section \<open>The message queue\<close>

type_synonym msg_queue = "event_data list"

definition post_messageToQ :: "int \<Rightarrow> msg_queue \<Rightarrow> event_data \<Rightarrow> status_t \<times> msg_queue" where
  \<comment> \<open>\<open>snd_ret\<close> is the value \<^verbatim>\<open>msgsnd\<close> returns (0, or -1 on an error); the code compares it with
     \<^verbatim>\<open>FAIL\<close>, the enumerator 1.\<close>
  "post_messageToQ snd_ret q event_arg =
     (let event_arg = event_arg\<lparr>mtype := 1\<rparr>;
          q' = (if snd_ret = 0 then q @ [event_arg] else q)
      in if status_code FAIL = snd_ret then (FAIL, q') else (SUCCESS, q'))"

definition get_messageFromQ :: "bool \<Rightarrow> msg_queue \<Rightarrow> event_data \<Rightarrow> (status_t \<times> msg_queue \<times> event_data) option" where
  \<comment> \<open>\<open>rcv\<close>: \<^verbatim>\<open>msgrcv\<close> did not return -1; the object is cleared before the call\<close>
  "get_messageFromQ rcv q data_arg =
     (let data_arg = event_data_zero
      in if \<not> rcv then Some (FAIL, q, data_arg)
         else case q of [] \<Rightarrow> None | m # q' \<Rightarrow> Some (SUCCESS, q', m))"

definition event_msg :: "event \<Rightarrow> event_data" where
  "event_msg e = \<lparr>mtype = 1, msg_event = event_code e\<rparr>"

lemma msg_event_event_msg [simp]: "msg_event (event_msg e) = event_code e"
  by (simp add: event_msg_def)

lemma event_msg_inject [simp]: "event_msg a = event_msg b \<longleftrightarrow> a = b"
  by (simp add: event_msg_def)

lemma post_messageToQ_ok:
  "msg_event d = event_code e \<Longrightarrow> post_messageToQ 0 q d = (SUCCESS, q @ [event_msg e])"
  by (simp add: post_messageToQ_def event_msg_def Let_def)

section \<open>Both channels are mailboxes\<close>

definition pipe_post :: "event \<Rightarrow> pipe \<Rightarrow> pipe" where
  "pipe_post e p = snd (post_event True p (strncpy empty_buff (event_name e) MAX_MESSAGE_SIZE) MAX_MESSAGE_SIZE)"

definition pipe_fetch :: "pipe \<Rightarrow> (event \<times> pipe) option" where
  "pipe_fetch p =
     (case read_event True p empty_buff MAX_MESSAGE_SIZE of
        None \<Rightarrow> None | Some (st, p', b) \<Rightarrow> Some (str_enum (Some b), p'))"

definition pipe_contents :: "pipe \<Rightarrow> event list" where
  "pipe_contents p = map (\<lambda>f. str_enum (Some f)) (pipe_frames p)"

definition pipe_wf :: "pipe \<Rightarrow> bool" where
  "pipe_wf p \<longleftrightarrow> MAX_MESSAGE_SIZE dvd length p"

definition queue_post :: "event_data \<Rightarrow> msg_queue \<Rightarrow> msg_queue" where
  "queue_post m q = snd (post_messageToQ 0 q m)"

definition queue_fetch :: "msg_queue \<Rightarrow> (event_data \<times> msg_queue) option" where
  "queue_fetch q =
     (case get_messageFromQ True q event_data_zero of None \<Rightarrow> None | Some (st, q', m) \<Rightarrow> Some (m, q'))"

lemma pipe_frames_append:
  "MAX_MESSAGE_SIZE dvd length p \<Longrightarrow> pipe_frames (p @ q) = pipe_frames p @ pipe_frames q"
proof (induction p rule: pipe_frames.induct)
  case (1 p)
  show ?case
  proof (cases "p = []")
    case False
    with "1.prems" have len: "MAX_MESSAGE_SIZE \<le> length p"
      by (auto intro: dvd_imp_le)
    with "1.prems" have dv: "MAX_MESSAGE_SIZE dvd length (drop MAX_MESSAGE_SIZE p)"
      by (auto intro: dvd_diff_nat)
    from "1.IH" [OF False dv] len False show ?thesis
      by (subst (1 2) pipe_frames.simps) simp
  qed simp
qed

interpretation pipe_box: mailbox pipe_post pipe_fetch pipe_contents pipe_wf "\<lambda>e. e \<in> set commands"
proof
  fix c :: pipe and m :: event
  assume wf: "pipe_wf c" and m: "m \<in> set commands"
  have post: "pipe_post m c = c @ frame_of m"
    by (simp add: pipe_post_def post_event_def strncpy_frame frame_simps)
  from wf show "pipe_wf (pipe_post m c)"
    by (simp add: post pipe_wf_def frame_simps)
  have "pipe_frames (frame_of m) = [frame_of m]"
    using pipe_frames_cons [of "frame_of m" "[]"] by (simp add: frame_simps)
  with wf m show "pipe_contents (pipe_post m c) = pipe_contents c @ [m]"
    by (simp add: post pipe_contents_def pipe_wf_def pipe_frames_append frame_simps)
next
  fix c :: pipe
  assume "pipe_wf c"
  show "pipe_fetch c = None \<longleftrightarrow> pipe_contents c = []"
    by (simp add: pipe_fetch_def read_event_def pipe_contents_def pipe_frames.simps [of c])
next
  fix c c' :: pipe and m :: event
  assume wf: "pipe_wf c" and f: "pipe_fetch c = Some (m, c')"
  then have ne: "c \<noteq> []" by (auto simp: pipe_fetch_def read_event_def)
  with wf have len: "length (take MAX_MESSAGE_SIZE c) = length empty_buff"
    by (auto simp: pipe_wf_def frame_simps min_def dest: dvd_imp_le)
  with f ne have "m = str_enum (Some (take MAX_MESSAGE_SIZE c))" "c' = drop MAX_MESSAGE_SIZE c"
    by (auto simp: pipe_fetch_def read_event_def overwrite_whole)
  with ne wf show "pipe_contents c = m # pipe_contents c' \<and> pipe_wf c'"
    by (auto simp: pipe_contents_def pipe_wf_def pipe_frames.simps [of c] intro: dvd_diff_nat)
qed

interpretation queue_box: mailbox queue_post queue_fetch "\<lambda>q. q" "\<lambda>_. True" "\<lambda>m. mtype m = 1"
  by unfold_locales
    (auto simp: queue_post_def queue_fetch_def post_messageToQ_def get_messageFromQ_def Let_def
      split: list.splits)

text \<open>
  C12. The command pipes are lossless and ordered: commands posted one after another on an
  empty pipe are read back, in the order of posting, by as many 20-byte reads, and the next
  read blocks.
\<close>

theorem pipe_commands_fifo:
  assumes "list_all (\<lambda>e. e \<in> set commands) es"
  shows "pipe_box.fetch_n (length es) (pipe_box.post_all es []) = Some (es, [])
    \<and> pipe_box.fetch_n (Suc (length es)) (pipe_box.post_all es []) = None"
proof -
  have wf: "pipe_wf []" "pipe_contents [] = []" by (simp_all add: pipe_wf_def pipe_contents_def)
  obtain d where d: "pipe_box.fetch_n (length es) (pipe_box.post_all es []) = Some (es, d)"
      "pipe_contents d = []"
    using pipe_box.fifo [OF wf assms] by blast
  moreover have "d = []"
    using d(2) by (simp add: pipe_contents_def pipe_frames.simps [of d] split: if_splits)
  moreover have "pipe_box.fetch_n (Suc (length es)) (pipe_box.post_all es []) = None"
    by (rule pipe_box.fetch_n_blocks) (use pipe_box.post_all_contents [OF wf(1) assms] wf(2) in auto)
  ultimately show ?thesis by simp
qed

theorem pipe_commands_fifo_witness:
  "pipe_box.fetch_n 3 (pipe_box.post_all [RING_BELL, RING_BELL_EXPIRY, RING_BELL] [])
     = Some ([RING_BELL, RING_BELL_EXPIRY, RING_BELL], [])"
  using pipe_commands_fifo [of "[RING_BELL, RING_BELL_EXPIRY, RING_BELL]"]
  by (simp add: commands_def numeral_3_eq_3)

text \<open>
  Errors of the queue calls do not reach the callers: for the values \<^verbatim>\<open>msgsnd\<close> can return,
  \<^verbatim>\<open>post_messageToQ\<close> returns SUCCESS, and after a failed \<^verbatim>\<open>msgrcv\<close> the object handed back holds
  the event code 0, which is \<^verbatim>\<open>MOTION_DETECTED\<close>.
\<close>

lemma post_messageToQ_hides_errors:
  assumes "snd_ret = 0 \<or> snd_ret = -1"
  shows "fst (post_messageToQ snd_ret q d) = SUCCESS
    \<and> (snd (post_messageToQ snd_ret q d) = q \<longleftrightarrow> snd_ret = -1)"
  using assms by (auto simp: post_messageToQ_def Let_def)

lemma get_messageFromQ_error_is_motion:
  "\<exists>d'. get_messageFromQ False q d = Some (FAIL, q, d') \<and> msg_event d' = event_code MOTION_DETECTED"
  by (simp add: get_messageFromQ_def event_data_zero_def)

end
