(* ===== verification/Door_Sensors.thy ===== *)
theory Door_Sensors
  imports Door_Types
begin

text \<open>
  The two places where the door bell reads files: \<^verbatim>\<open>get_value\<close> of \<^verbatim>\<open>door_bell_func.c\<close> (the
  sensor files, first byte the reading, third byte the status of the sensor) and
  \<^verbatim>\<open>check_thread_dead\<close> of \<^verbatim>\<open>door_bell.c\<close> (the listing of \<^verbatim>\<open>ps\<close>).  A file is its bytes, \<open>None\<close> when
  \<^verbatim>\<open>fopen\<close> fails; \<^verbatim>\<open>exit(1)\<close> is the left summand.
\<close>

section \<open>get_value\<close>

definition ascii_digit :: "char \<Rightarrow> int" where
  \<comment> \<open>one byte read into a zeroed \<^verbatim>\<open>int\<close> (little endian), minus 48\<close>
  "ascii_digit c = int (of_char c) - 48"

definition get_value :: "char list option \<Rightarrow> bool \<Rightarrow> int + read_data" where
  "get_value file close_ok =
     (case file of
        None \<Rightarrow> Inl 1
      | Some cs \<Rightarrow>
          (case cs of
             [] \<Rightarrow> Inl 1
           | v # _ \<Rightarrow>
               (case drop 2 cs of
                  [] \<Rightarrow> Inl 1
                | s # _ \<Rightarrow>
                    if \<not> close_ok then Inl 1
                    else Inr \<lparr>rd_value = ascii_digit v, rd_status = ascii_digit s\<rparr>)))"

lemma get_value_cases:
  "get_value file close_ok = Inl 1 \<or> (\<exists>d. get_value file close_ok = Inr d)"
  by (auto simp: get_value_def split: option.splits list.splits)

lemma get_value_short: "length cs < 3 \<Longrightarrow> get_value (Some cs) ok = Inl 1"
  by (auto simp: get_value_def split: list.splits)

lemma ascii_digit_bounds: "-48 \<le> ascii_digit c \<and> ascii_digit c \<le> 207"
  using nat_of_char_less_256 [of c] unfolding ascii_digit_def by linarith

lemma dec_digit: "d < 10 \<Longrightarrow> dec d = [char_of (48 + d)]"
  by (subst dec.simps) simp

lemma ascii_digit_dec: "d < 10 \<Longrightarrow> ascii_digit (char_of (48 + d)) = int d"
  by (simp add: ascii_digit_def)

text \<open>The layout the sensor files have: the reading, a newline, the status.\<close>

definition sensor_text :: "nat \<Rightarrow> nat \<Rightarrow> char list" where
  "sensor_text v s = dec v @ CHR 0x0A # dec s @ [CHR 0x0A]"

lemma get_value_digits:
  assumes "v < 10" and "s < 10"
  shows "get_value (Some (sensor_text v s)) True = Inr \<lparr>rd_value = int v, rd_status = int s\<rparr>"
  using assms by (simp add: get_value_def sensor_text_def dec_digit ascii_digit_dec)

lemma dec_two_digits:
  assumes "10 \<le> v" and "v < 100"
  shows "dec v = [char_of (48 + v div 10), char_of (48 + v mod 10)]"
proof -
  have "v div 10 < 10" using assms(2) by simp
  with assms show ?thesis by (subst dec.simps) (simp add: dec_digit)
qed

text \<open>
  What \<^verbatim>\<open>get_value\<close> reads from a sensor file: one-digit readings and statuses come back
  exactly; a two-digit reading comes back as its first digit with the newline read as the
  status (10 - 48), which is not the working status, so the reading is taken as a sensor failure.
\<close>

lemma get_value_reads_one_digit:
  assumes "v < 100" and "s < 10"
  shows "get_value (Some (sensor_text v s)) True =
    Inr (if v < 10 then \<lparr>rd_value = int v, rd_status = int s\<rparr>
         else \<lparr>rd_value = int (v div 10), rd_status = -38\<rparr>)"
proof (cases "v < 10")
  case True
  with assms show ?thesis by (simp add: get_value_digits)
next
  case False
  then have "v div 10 < 10" using assms(1) by simp
  with False assms show ?thesis
    by (simp add: get_value_def sensor_text_def dec_two_digits ascii_digit_dec)
       (simp add: ascii_digit_def)
qed

section \<open>check_thread_dead\<close>

datatype ctd_result = Ctd_overflow | Ctd_exit int | Ctd_ret status_t

definition check_cmd :: "nat \<Rightarrow> string" where
  \<comment> \<open>what \<^verbatim>\<open>sprintf(cmd, ...)\<close> formats, without its NUL byte\<close>
  "check_cmd pid = ''ps -T -p'' @ '' '' @ dec pid @ '' >ps_cmd.txt''"

fun ps_read_loop :: "char list \<Rightarrow> nat \<Rightarrow> char list \<Rightarrow> char list option" where
  \<comment> \<open>the \<^verbatim>\<open>fread\<close> loop: byte \<open>i\<close> of the file into \<^verbatim>\<open>ps_cmd_output[i]\<close>; \<open>None\<close>: past the array\<close>
  "ps_read_loop [] i buf = Some buf"
| "ps_read_loop (c # cs) i buf = (if i < length buf then ps_read_loop cs (Suc i) (buf[i := c]) else None)"

definition dead_scan :: "char list \<Rightarrow> status_t" where
  "dead_scan out =
     (if strstr_found ''monitor_thread'' (cstr out) then SUCCESS
      else if strstr_found ''motion_detector_thread'' (cstr out) then SUCCESS
      else if strstr_found ''Dist_thread'' (cstr out) then SUCCESS
      else if strstr_found ''door_b_Thread'' (cstr out) then SUCCESS
      else FAIL)"

definition check_thread_rest :: "char list option \<Rightarrow> ctd_result" where
  \<comment> \<open>the function after the \<^verbatim>\<open>sprintf\<close>\<close>
  "check_thread_rest ps_file =
     (case ps_file of
        None \<Rightarrow> Ctd_exit 1
      | Some cs \<Rightarrow>
          (case ps_read_loop cs 0 (replicate 500 NUL) of
             None \<Rightarrow> Ctd_overflow
           | Some out \<Rightarrow> if terminated out then Ctd_ret (dead_scan out) else Ctd_overflow))"

definition check_thread_dead :: "nat \<Rightarrow> char list option \<Rightarrow> ctd_result" where
  "check_thread_dead process_id ps_file =
     (case strcpy (replicate 20 NUL) (check_cmd process_id) of
        None \<Rightarrow> Ctd_overflow
      | Some cmd \<Rightarrow> check_thread_rest ps_file)"

lemma ps_read_loop_Some:
  "i + length cs \<le> length buf \<Longrightarrow>
     ps_read_loop cs i buf = Some (take i buf @ cs @ drop (i + length cs) buf)"
proof (induction cs arbitrary: i buf)
  case Nil
  then show ?case by simp
next
  case (Cons c cs)
  then have "i < length buf" by simp
  then have "take (Suc i) (buf[i := c]) = take i buf @ [c]"
    by (simp add: take_Suc_conv_app_nth)
  with Cons show ?case by simp
qed

lemma cstr_append_replicate:
  "NUL \<notin> set cs \<Longrightarrow> cstr (cs @ replicate n NUL) = cs"
  by (simp add: cstr_no_NUL)

lemma check_thread_rest_small:
  assumes "NUL \<notin> set cs" and "length cs < 500"
  shows "check_thread_rest (Some cs) = Ctd_ret (dead_scan cs)"
proof -
  have "ps_read_loop cs 0 (replicate 500 NUL) = Some (cs @ replicate (500 - length cs) NUL)"
    using assms(2) ps_read_loop_Some [of 0 cs "replicate 500 NUL"] by simp
  moreover have "terminated (cs @ replicate (500 - length cs) NUL)"
    using assms(2) by (simp add: terminated_def)
  ultimately show ?thesis
    using assms(1) by (simp add: check_thread_rest_def dead_scan_def cstr_no_NUL)
qed

lemma strstr_longer: "length h < length n \<Longrightarrow> \<not> strstr_found h n"
  using sublist_length by (fastforce simp: strstr_found_def)

text \<open>
  The command line \<^verbatim>\<open>check_thread_dead\<close> formats never fits its 20-byte array: for every
  process id the call runs over the end of \<^verbatim>\<open>cmd\<close>, whatever the listing holds.
\<close>

lemma check_thread_dead_overflows:
  "check_thread_dead process_id ps_file = Ctd_overflow \<and> 20 < length (check_cmd process_id)"
proof -
  have "20 < length (check_cmd process_id)"
    using length_dec_pos [of process_id] by (simp add: check_cmd_def)
  then show ?thesis by (simp add: check_thread_dead_def strcpy_def)
qed

text \<open>
  The dead-thread test looks the listing up in the thread names instead of the names in
  the listing: every listing longer than the longest name yields FAIL (all threads alive),
  whichever threads it shows, and an empty listing yields SUCCESS (a thread died).
\<close>

lemma dead_scan_inverted:
  assumes "22 < length listing" and "NUL \<notin> set listing" and "length listing < 500"
  shows "check_thread_rest (Some listing) = Ctd_ret FAIL
    \<and> check_thread_rest (Some []) = Ctd_ret SUCCESS"
proof -
  have "check_thread_rest (Some []) = Ctd_ret SUCCESS"
    by (simp add: check_thread_rest_small dead_scan_def strstr_found_def cstr_def)
  with assms show ?thesis
    by (simp add: check_thread_rest_small dead_scan_def strstr_longer cstr_no_NUL)
qed

end
