(* ===== verification/Door_Timers.thy ===== *)
theory Door_Timers
  imports Door_Types
begin

text \<open>
  The one-shot timers of \<^verbatim>\<open>door_timer.h\<close> over the POSIX timers they use.  A timer table maps
  the id of every existing timer to the seconds it was armed with, 0 when it is disarmed;
  \<^verbatim>\<open>timer_settime\<close> and \<^verbatim>\<open>timer_delete\<close> fail exactly on ids that name no timer.
\<close>

datatype timer_state = NOT_RUNNING | RUNNING

type_synonym timer_table = "nat \<rightharpoonup> nat"

section \<open>POSIX timers\<close>

definition timer_settime :: "timer_table \<Rightarrow> nat \<Rightarrow> nat \<Rightarrow> bool \<times> timer_table" where
  "timer_settime tm tid secs = (if tid \<in> dom tm then (True, tm(tid \<mapsto> secs)) else (False, tm))"

definition timer_delete :: "timer_table \<Rightarrow> nat \<Rightarrow> bool \<times> timer_table" where
  "timer_delete tm tid = (if tid \<in> dom tm then (True, tm(tid := None)) else (False, tm))"

section \<open>door_timer.h\<close>

definition tmr_create :: "nat option \<Rightarrow> timer_table \<Rightarrow> nat \<times> timer_table" where
  \<comment> \<open>the argument is the id \<^verbatim>\<open>timer_create\<close> stores, \<open>None\<close> when it fails; the failures of the
     two attribute calls are only printed\<close>
  "tmr_create created tm =
     (case created of None \<Rightarrow> (0, tm) | Some tid \<Rightarrow> (tid, tm(tid \<mapsto> 0)))"

definition timer_start :: "timer_table \<Rightarrow> nat \<Rightarrow> nat \<Rightarrow> status_t \<times> timer_table" where
  "timer_start tm timer_id delay_sec =
     (case timer_settime tm timer_id delay_sec of
        (ok, tm') \<Rightarrow> if \<not> ok then (FAIL, tm') else (SUCCESS, tm'))"

definition timer_stop :: "timer_table \<Rightarrow> nat \<Rightarrow> status_t \<times> timer_table" where
  "timer_stop tm timer_id =
     (case timer_settime tm timer_id 0 of
        (ok, tm') \<Rightarrow> if \<not> ok then (FAIL, tm') else (SUCCESS, tm'))"

definition timer_destroy :: "timer_table \<Rightarrow> nat \<Rightarrow> status_t \<times> timer_table" where
  "timer_destroy tm timer_id =
     (case timer_delete tm timer_id of
        (ok, tm') \<Rightarrow> if \<not> ok then (FAIL, tm') else (SUCCESS, tm'))"

definition armed :: "timer_table \<Rightarrow> nat \<Rightarrow> bool" where
  "armed tm tid \<longleftrightarrow> (case tm tid of None \<Rightarrow> False | Some secs \<Rightarrow> 0 < secs)"

definition timer_fire :: "timer_table \<Rightarrow> nat \<Rightarrow> timer_table option" where
  \<comment> \<open>expiry of a one-shot timer (\<^verbatim>\<open>it_interval\<close> 0): it is disarmed as its handler starts\<close>
  "timer_fire tm tid = (if armed tm tid then Some (tm(tid \<mapsto> 0)) else None)"

lemma timer_start_known: "tid \<in> dom tm \<Longrightarrow> timer_start tm tid d = (SUCCESS, tm(tid \<mapsto> d))"
  by (simp add: timer_start_def timer_settime_def)

lemma timer_start_unknown: "tid \<notin> dom tm \<Longrightarrow> timer_start tm tid d = (FAIL, tm)"
  by (simp add: timer_start_def timer_settime_def)

lemma timer_stop_eq_start: "timer_stop tm tid = timer_start tm tid 0"
  by (simp add: timer_start_def timer_stop_def)

lemma timer_destroy_eq:
  "timer_destroy tm tid = (if tid \<in> dom tm then SUCCESS else FAIL, tm(tid := None))"
  by (auto simp: timer_destroy_def timer_delete_def)

lemma snd_timer_start: "snd (timer_start tm tid d) = (if tid \<in> dom tm then tm(tid \<mapsto> d) else tm)"
  by (simp add: timer_start_def timer_settime_def)

lemma armed_upd [simp]: "armed (tm(a \<mapsto> d)) b = (if a = b then 0 < d else armed tm b)"
  by (simp add: armed_def)

lemma armed_None [simp]: "armed (tm(a := None)) b \<longleftrightarrow> a \<noteq> b \<and> armed tm b"
  by (simp add: armed_def)

lemma armed_dom: "armed tm tid \<Longrightarrow> tid \<in> dom tm"
  by (auto simp: armed_def split: option.splits)

lemma timer_fire_Some: "timer_fire tm tid = Some tm' \<Longrightarrow> armed tm tid \<and> tm' = tm(tid \<mapsto> 0)"
  by (simp add: timer_fire_def split: if_splits)

text \<open>
  A started timer expires once: after \<^verbatim>\<open>timer_start\<close> with a positive delay on an existing
  timer it is armed and fires; after it fired, or after \<^verbatim>\<open>timer_stop\<close>, it does not fire again
  until the next start, and no other timer is affected.
\<close>

lemma timer_one_shot:
  assumes "tid \<in> dom tm" and "0 < d"
  shows "\<exists>tm1 tm2. timer_start tm tid d = (SUCCESS, tm1) \<and> timer_fire tm1 tid = Some tm2
    \<and> timer_fire tm2 tid = None
    \<and> timer_fire (snd (timer_stop tm1 tid)) tid = None
    \<and> (\<forall>other. other \<noteq> tid \<longrightarrow> tm2 other = tm other)"
  using assms
  by (auto simp: timer_start_known timer_fire_def timer_stop_eq_start)

end
