(* ===== verification/Door_Threads.thy ===== *)
theory Door_Threads
  imports Door_Channels Door_Sensors Door_Timers
begin

text \<open>
  The threads of the door bell (\<^verbatim>\<open>door_bell.c\<close>) and its resource management
  (\<^verbatim>\<open>process_reboot\<close> and \<^verbatim>\<open>shutdown\<close> of \<^verbatim>\<open>door_bell_func.c\<close>, \<^verbatim>\<open>main\<close>).  \<open>door_state\<close> holds the global
  variables and the live locals of the threads; each operation is one pass of a thread's
  loop from a blocking call to the next, or one timer handler.  What the operating system
  answers in that pass is the argument \<open>sys_env\<close>; a pass that would block is \<open>None\<close>.
\<close>

section \<open>State\<close>

datatype proc_status = Proc_running | Proc_exited int | Proc_execed

record sys_env =
  env_read :: bool                  \<comment> \<open>\<^verbatim>\<open>read\<close> did not return -1\<close>
  env_write :: bool                 \<comment> \<open>\<^verbatim>\<open>write\<close> did not return -1\<close>
  env_msgsnd :: int                 \<comment> \<open>value returned by \<^verbatim>\<open>msgsnd\<close>\<close>
  env_msgrcv :: bool                \<comment> \<open>\<^verbatim>\<open>msgrcv\<close> did not return -1\<close>
  env_file :: "char list option"    \<comment> \<open>bytes of the sensor file opened in this pass\<close>
  env_fclose :: bool                \<comment> \<open>\<^verbatim>\<open>fclose\<close> succeeded\<close>
  env_exec :: bool                  \<comment> \<open>\<^verbatim>\<open>execl\<close> replaced the process\<close>

record door_state =
  pipe_t1 :: pipe
  pipe_t2 :: pipe
  pipe_t3 :: pipe
  msgQ :: msg_queue
  timers :: timer_table
  door_bell_timer_id :: nat
  door_open_wait_timer_id :: nat
  reset_states_timer_id :: nat
  door_wait_expiry_count :: s32    \<comment> \<open>a C \<^verbatim>\<open>int\<close>, taken to wrap around\<close>
  door_bell_flag :: timer_state
  door_open_flag :: timer_state
  reset_timer_flag :: timer_state
  g_monitorThread_running :: bool
  g_motionThread_running :: bool
  g_distanceThread_running :: bool
  g_doorbellThread_running :: bool
  alive :: "nat \<Rightarrow> bool"           \<comment> \<open>entry \<open>i\<close> of \<^verbatim>\<open>thread_list\<close> not cancelled\<close>
  mot_buf :: "char list"
  mot_scanning :: bool             \<comment> \<open>inside the polling loop of the motion thread\<close>
  dist_buf :: "char list"
  bell_buf :: "char list"
  mon_buf :: "char list"
  mon_polling :: bool              \<comment> \<open>inside the door polling loop of the monitor\<close>
  proc :: proc_status

definition env_ok :: "sys_env \<Rightarrow> bool" where
  "env_ok e \<longleftrightarrow> env_read e \<and> env_write e \<and> env_msgsnd e = 0 \<and> env_msgrcv e \<and> env_fclose e"

definition postQ :: "sys_env \<Rightarrow> event \<Rightarrow> door_state \<Rightarrow> door_state" where
  "postQ e ev s =
     s\<lparr>msgQ := snd (post_messageToQ (env_msgsnd e) (msgQ s) \<lparr>mtype = 0, msg_event = event_code ev\<rparr>)\<rparr>"

definition exit_process :: "int \<Rightarrow> door_state \<Rightarrow> door_state" where
  "exit_process code s = s\<lparr>proc := Proc_exited code\<rparr>"

definition read_sensor :: "sys_env \<Rightarrow> (read_data \<Rightarrow> door_state \<Rightarrow> door_state) \<Rightarrow> door_state \<Rightarrow> door_state" where
  \<comment> \<open>a call of \<^verbatim>\<open>get_value\<close>: its \<^verbatim>\<open>exit(1)\<close> ends the process\<close>
  "read_sensor e k s =
     (case get_value (env_file e) (env_fclose e) of Inl c \<Rightarrow> exit_process c s | Inr d \<Rightarrow> k d s)"

section \<open>Motion detector thread\<close>

definition motion_read :: "sys_env \<Rightarrow> door_state \<Rightarrow> door_state option" where
  "motion_read e s =
     (if \<not> (alive s 1 \<and> g_motionThread_running s \<and> \<not> mot_scanning s) then None
      else case read_event (env_read e) (pipe_t1 s) (mot_buf s) MAX_MESSAGE_SIZE of
        None \<Rightarrow> None
      | Some (st, p, buf) \<Rightarrow>
          (let s = s\<lparr>pipe_t1 := p, mot_buf := buf\<rparr>
           in Some (if str_enum (Some buf) = MOTION_SCAN_ON then s\<lparr>mot_scanning := True\<rparr> else s)))"

definition motion_react :: "sys_env \<Rightarrow> read_data \<Rightarrow> door_state \<Rightarrow> door_state" where
  "motion_react e d s =
     (if rd_status d \<noteq> ecu_code ECU_WORKING then (postQ e ECU_NOT_WORKING s)\<lparr>mot_scanning := False\<rparr>
      else if rd_value d = 1 then (postQ e MOTION_DETECTED s)\<lparr>mot_scanning := False\<rparr>
      else s)"

definition motion_poll :: "sys_env \<Rightarrow> door_state \<Rightarrow> door_state option" where
  "motion_poll e s =
     (if \<not> (alive s 1 \<and> mot_scanning s) then None else Some (read_sensor e (motion_react e) s))"

section \<open>Distance calculator thread\<close>

definition distance_event :: "read_data \<Rightarrow> event" where
  "distance_event d =
     (if rd_status d = ecu_code ECU_WORKING
      then (if rd_value d \<ge> MIN_DISTANCE \<and> rd_value d \<le> MAX_DISTANCE then VALID_DISTANCE
            else INVALID_DISTANCE)
      else ECU_NOT_WORKING)"

definition distance_pass :: "sys_env \<Rightarrow> door_state \<Rightarrow> door_state option" where
  "distance_pass e s =
     (if \<not> (alive s 2 \<and> g_distanceThread_running s) then None
      else case read_event (env_read e) (pipe_t2 s) (memset (dist_buf s) NUL MAX_MESSAGE_SIZE) MAX_MESSAGE_SIZE of
        None \<Rightarrow> None
      | Some (st, p, buf) \<Rightarrow>
          (let s = s\<lparr>pipe_t2 := p, dist_buf := buf\<rparr>
           in Some (case str_enum (Some buf) of
                CALC_DISTANCE \<Rightarrow> read_sensor e (\<lambda>d s. postQ e (distance_event d) s) s
              | MOTION_SCAN_ON \<Rightarrow> s
              | _ \<Rightarrow> s)))"

section \<open>Door bell thread\<close>

definition bell_pass :: "sys_env \<Rightarrow> door_state \<Rightarrow> door_state option" where
  \<comment> \<open>the thread calls \<^verbatim>\<open>read\<close> itself; the buffer is not cleared between passes\<close>
  "bell_pass e s =
     (if \<not> (alive s 3 \<and> g_doorbellThread_running s) then None
      else case read_event (env_read e) (pipe_t3 s) (bell_buf s) MAX_MESSAGE_SIZE of
        None \<Rightarrow> None
      | Some (st, p, buf) \<Rightarrow>
          (let s = s\<lparr>pipe_t3 := p, bell_buf := buf\<rparr>
           in Some (case str_enum (Some buf) of
                RING_BELL \<Rightarrow> s\<lparr>timers := snd (timer_start (timers s) (door_bell_timer_id s) 3)\<rparr>
              | RING_BELL_EXPIRY \<Rightarrow> postQ e RING_BELL_EXPIRY s
              | _ \<Rightarrow> s)))"

section \<open>Release of resources\<close>

definition stop_all_timers :: "door_state \<Rightarrow> timer_table \<Rightarrow> timer_table" where
  "stop_all_timers s tm =
     snd (timer_stop (snd (timer_stop (snd (timer_stop tm
       (reset_states_timer_id s))) (door_open_wait_timer_id s))) (door_bell_timer_id s))"

definition destroy_all_timers :: "door_state \<Rightarrow> timer_table \<Rightarrow> timer_table" where
  "destroy_all_timers s tm =
     snd (timer_destroy (snd (timer_destroy (snd (timer_destroy tm
       (reset_states_timer_id s))) (door_open_wait_timer_id s))) (door_bell_timer_id s))"

fun cancel_threads :: "nat list \<Rightarrow> (nat \<Rightarrow> bool) \<Rightarrow> (nat \<Rightarrow> bool)" where
  "cancel_threads [] a = a"
| "cancel_threads (i # is) a = cancel_threads is (a(i := False))"

definition process_reboot :: "sys_env \<Rightarrow> door_state \<Rightarrow> door_state" where
  \<comment> \<open>\<^verbatim>\<open>execl\<close> returns only to report a failure, and then returns -1, so the branch
     \<^verbatim>\<open>-1 != execl(...)\<close> with its \<^verbatim>\<open>exit(1)\<close> is taken for no outcome\<close>
  "process_reboot e s =
     (let s = s\<lparr>timers := stop_all_timers s (timers s)\<rparr>;
          s = s\<lparr>timers := destroy_all_timers s (timers s)\<rparr>;
          s = s\<lparr>alive := cancel_threads [1, 2, 3] (alive s)\<rparr>
      in if env_exec e then s\<lparr>proc := Proc_execed\<rparr> else s)"

definition shutdown :: "door_state \<Rightarrow> door_state" where
  "shutdown s =
     (let s = s\<lparr>timers := stop_all_timers s (timers s)\<rparr>;
          s = s\<lparr>timers := destroy_all_timers s (timers s)\<rparr>;
          s = s\<lparr>alive := cancel_threads [0, 1, 2, 3] (alive s)\<rparr>;
          s = s\<lparr>timers := stop_all_timers s (timers s)\<rparr>;
          s = s\<lparr>timers := destroy_all_timers s (timers s)\<rparr>
      in exit_process 0 s)"

section \<open>Monitor thread\<close>

definition mon_post1 :: "sys_env \<Rightarrow> event \<Rightarrow> door_state \<Rightarrow> door_state" where
  \<comment> \<open>\<^verbatim>\<open>strncpy(msg_buff, ...); post_event(pipe_t1, ...)\<close>\<close>
  "mon_post1 e ev s =
     (let s = s\<lparr>mon_buf := strncpy (mon_buf s) (event_name ev) MAX_MESSAGE_SIZE\<rparr>
      in s\<lparr>pipe_t1 := snd (post_event (env_write e) (pipe_t1 s) (mon_buf s) MAX_MESSAGE_SIZE)\<rparr>)"

definition mon_post2 :: "sys_env \<Rightarrow> event \<Rightarrow> door_state \<Rightarrow> door_state" where
  "mon_post2 e ev s =
     (let s = s\<lparr>mon_buf := strncpy (mon_buf s) (event_name ev) MAX_MESSAGE_SIZE\<rparr>
      in s\<lparr>pipe_t2 := snd (post_event (env_write e) (pipe_t2 s) (mon_buf s) MAX_MESSAGE_SIZE)\<rparr>)"

definition mon_post3 :: "sys_env \<Rightarrow> event \<Rightarrow> door_state \<Rightarrow> door_state" where
  "mon_post3 e ev s =
     (let s = s\<lparr>mon_buf := strncpy (mon_buf s) (event_name ev) MAX_MESSAGE_SIZE\<rparr>
      in s\<lparr>pipe_t3 := snd (post_event (env_write e) (pipe_t3 s) (mon_buf s) MAX_MESSAGE_SIZE)\<rparr>)"

definition monitor_start :: "sys_env \<Rightarrow> door_state \<Rightarrow> door_state" where
  "monitor_start e s = mon_post1 e MOTION_SCAN_ON s"

definition mon_ring_expiry :: "sys_env \<Rightarrow> door_state \<Rightarrow> door_state" where
  "mon_ring_expiry e s =
     read_sensor e (\<lambda>d s.
       if rd_value d = door_code DOOR_OPEN then s\<lparr>mon_polling := True\<rparr>
       else if rd_value d = door_code DOOR_CLOSED
         then s\<lparr>timers := snd (timer_start (timers s) (door_open_wait_timer_id s) 30)\<rparr>
       else s) s"

definition monitor_dispatch :: "sys_env \<Rightarrow> int \<Rightarrow> door_state \<Rightarrow> door_state" where
  "monitor_dispatch e ev s =
     (if ev = event_code MOTION_DETECTED then mon_post2 e CALC_DISTANCE s
      else if ev = event_code VALID_DISTANCE then mon_post3 e RING_BELL s
      else if ev = event_code INVALID_DISTANCE then mon_post1 e MOTION_SCAN_ON s
      else if ev = event_code RING_BELL_EXPIRY then mon_ring_expiry e s
      else if ev = event_code ECU_NOT_WORKING then process_reboot e s
      else if ev = event_code DOOR_WAIT_EXPIRY then mon_post3 e RING_BELL s
      else if ev = event_code DOOR_WAIT_RETRY_END
        then s\<lparr>timers := snd (timer_start (timers s) (reset_states_timer_id s) (10 * 60))\<rparr>
      else s)"

definition monitor_pass :: "sys_env \<Rightarrow> door_state \<Rightarrow> door_state option" where
  "monitor_pass e s =
     (if \<not> (alive s 0 \<and> g_monitorThread_running s \<and> \<not> mon_polling s) then None
      else case get_messageFromQ (env_msgrcv e) (msgQ s) event_data_zero of
        None \<Rightarrow> None
      | Some (st, q, m) \<Rightarrow> Some (monitor_dispatch e (msg_event m) (s\<lparr>msgQ := q\<rparr>)))"

definition door_poll :: "sys_env \<Rightarrow> door_state \<Rightarrow> door_state option" where
  \<comment> \<open>one round of the \<^verbatim>\<open>do ... while (door_data.value == DOOR_OPEN)\<close> loop\<close>
  "door_poll e s =
     (if \<not> (alive s 0 \<and> mon_polling s) then None
      else Some (read_sensor e (\<lambda>d s.
             if rd_value d = door_code DOOR_OPEN then s
             else mon_post1 e MOTION_SCAN_ON (s\<lparr>mon_polling := False\<rparr>)) s))"

section \<open>Timer handlers\<close>

definition door_bell_expiry :: "sys_env \<Rightarrow> door_state \<Rightarrow> door_state" where
  "door_bell_expiry e s =
     (let s = s\<lparr>door_bell_flag := NOT_RUNNING\<rparr>;
          s = s\<lparr>timers := snd (timer_stop (timers s) (door_bell_timer_id s))\<rparr>;
          msg_buff = strncpy empty_buff (event_name RING_BELL_EXPIRY) MAX_MESSAGE_SIZE
      in s\<lparr>pipe_t3 := snd (post_event (env_write e) (pipe_t3 s) msg_buff MAX_MESSAGE_SIZE)\<rparr>)"

definition door_open_wait_expiry :: "sys_env \<Rightarrow> door_state \<Rightarrow> door_state" where
  "door_open_wait_expiry e s =
     (let s = s\<lparr>door_open_flag := NOT_RUNNING\<rparr>;
          s = s\<lparr>door_wait_expiry_count := door_wait_expiry_count s + 1\<rparr>;
          s = s\<lparr>timers := snd (timer_stop (timers s) (door_open_wait_timer_id s))\<rparr>
      in if sint (door_wait_expiry_count s) \<ge> 3 then postQ e DOOR_WAIT_RETRY_END s
         else postQ e DOOR_WAIT_EXPIRY s)"

definition reset_states_timer_expiry :: "sys_env \<Rightarrow> door_state \<Rightarrow> door_state" where
  "reset_states_timer_expiry e s =
     (let s = s\<lparr>reset_timer_flag := NOT_RUNNING\<rparr>;
          s = s\<lparr>timers := snd (timer_stop (timers s) (reset_states_timer_id s))\<rparr>;
          msg_buff = strncpy empty_buff (event_name MOTION_SCAN_ON) MAX_MESSAGE_SIZE
      in s\<lparr>pipe_t1 := snd (post_event (env_write e) (pipe_t1 s) msg_buff MAX_MESSAGE_SIZE)\<rparr>)"

definition on_expiry :: "nat \<Rightarrow> (door_state \<Rightarrow> door_state) \<Rightarrow> door_state \<Rightarrow> door_state option" where
  \<comment> \<open>the kernel starts a handler when its timer, armed before, runs out\<close>
  "on_expiry tid handler s =
     (case timer_fire (timers s) tid of None \<Rightarrow> None | Some tm \<Rightarrow> Some (handler (s\<lparr>timers := tm\<rparr>)))"

section \<open>main\<close>

record main_env =
  me_pipes :: "bool list"          \<comment> \<open>the three \<^verbatim>\<open>pipe\<close> calls succeeded\<close>
  me_msgget :: bool
  me_leftover :: msg_queue         \<comment> \<open>what the queue holds after \<^verbatim>\<open>ipcrm\<close>\<close>
  me_threads :: "bool list"        \<comment> \<open>the four \<^verbatim>\<open>pthread_create\<close> calls succeeded\<close>
  me_bell_tid :: "nat option"      \<comment> \<open>ids handed out by \<^verbatim>\<open>timer_create\<close>\<close>
  me_wait_tid :: "nat option"
  me_reset_tid :: "nat option"

definition door_globals :: door_state where
  \<comment> \<open>the static initialisers\<close>
  "door_globals =
     \<lparr>pipe_t1 = [], pipe_t2 = [], pipe_t3 = [], msgQ = [], timers = Map.empty,
      door_bell_timer_id = 0, door_open_wait_timer_id = 0, reset_states_timer_id = 0,
      door_wait_expiry_count = 0,
      door_bell_flag = NOT_RUNNING, door_open_flag = NOT_RUNNING, reset_timer_flag = NOT_RUNNING,
      g_monitorThread_running = False, g_motionThread_running = False,
      g_distanceThread_running = False, g_doorbellThread_running = False,
      alive = (\<lambda>_. False), mot_buf = empty_buff, mot_scanning = False, dist_buf = empty_buff,
      bell_buf = empty_buff, mon_buf = empty_buff, mon_polling = False, proc = Proc_running\<rparr>"

fun start_threads :: "bool list \<Rightarrow> nat \<Rightarrow> door_state \<Rightarrow> int + door_state" where
  "start_threads [] i s = Inr s"
| "start_threads (ok # oks) i s =
     (if \<not> ok then Inl 1 else start_threads oks (Suc i) (s\<lparr>alive := (alive s)(i := True)\<rparr>))"

definition door_main :: "main_env \<Rightarrow> int + door_state" where
  "door_main m =
     (if False \<in> set (me_pipes m) then Inl 1
      else if \<not> me_msgget m then Inl 1
      else case start_threads (me_threads m) 0 (door_globals\<lparr>msgQ := me_leftover m\<rparr>) of
        Inl c \<Rightarrow> Inl c
      | Inr s \<Rightarrow>
          (let s = s\<lparr>g_distanceThread_running := True, g_monitorThread_running := True,
                     g_motionThread_running := True, g_doorbellThread_running := True\<rparr>;
               (b, tm) = tmr_create (me_bell_tid m) (timers s);
               (w, tm) = tmr_create (me_wait_tid m) tm;
               (r, tm) = tmr_create (me_reset_tid m) tm
           in Inr (s\<lparr>timers := tm, door_bell_timer_id := b, door_open_wait_timer_id := w,
                     reset_states_timer_id := r\<rparr>)))"

definition main_wait :: "status_t \<Rightarrow> door_state \<Rightarrow> door_state" where
  \<comment> \<open>one round of \<^verbatim>\<open>while (FAIL == check_thread_dead()) sleep(1); shutdown();\<close>\<close>
  "main_wait check s = (if check = FAIL then s else shutdown s)"

section \<open>Facts about posting\<close>

lemma postQ_ok: "env_msgsnd e = 0 \<Longrightarrow> postQ e ev s = s\<lparr>msgQ := msgQ s @ [event_msg ev]\<rparr>"
  by (simp add: postQ_def post_messageToQ_ok)

lemma mon_post_ok:
  assumes "env_write e" and "length (mon_buf s) = MAX_MESSAGE_SIZE"
  shows "pipe_t1 s = pipe_of es \<Longrightarrow>
      mon_post1 e ev s = s\<lparr>mon_buf := frame_of ev, pipe_t1 := pipe_of (es @ [ev])\<rparr>"
    and "pipe_t2 s = pipe_of es \<Longrightarrow>
      mon_post2 e ev s = s\<lparr>mon_buf := frame_of ev, pipe_t2 := pipe_of (es @ [ev])\<rparr>"
    and "pipe_t3 s = pipe_of es \<Longrightarrow>
      mon_post3 e ev s = s\<lparr>mon_buf := frame_of ev, pipe_t3 := pipe_of (es @ [ev])\<rparr>"
  using assms by (simp_all add: mon_post1_def mon_post2_def mon_post3_def Let_def strncpy_frame)

section \<open>Facts about releasing resources\<close>

lemma dom_timer_start [simp]: "dom (snd (timer_start tm tid d)) = dom tm"
  by (auto simp: timer_start_def timer_settime_def)

lemma dom_stop_all [simp]: "dom (stop_all_timers s tm) = dom tm"
  by (simp add: stop_all_timers_def timer_stop_eq_start)

lemma destroy_all_eq:
  "destroy_all_timers s tm =
     tm(reset_states_timer_id s := None, door_open_wait_timer_id s := None, door_bell_timer_id s := None)"
  by (simp add: destroy_all_timers_def timer_destroy_eq)

lemma cancel_threads_eq: "cancel_threads is a i = (a i \<and> i \<notin> set is)"
  by (induction "is" arbitrary: a) auto

lemma dom_destroy_all:
  "dom (destroy_all_timers s tm) =
     dom tm - {reset_states_timer_id s, door_open_wait_timer_id s, door_bell_timer_id s}"
  by (auto simp: destroy_all_eq)

text \<open>
  \<^verbatim>\<open>shutdown\<close> leaves nothing behind: no timer of the program exists or can fire any more,
  all four threads are cancelled and the process exits with status 0.
\<close>

lemma shutdown_releases_all:
  "door_bell_timer_id s \<notin> dom (timers (shutdown s))
   \<and> door_open_wait_timer_id s \<notin> dom (timers (shutdown s))
   \<and> reset_states_timer_id s \<notin> dom (timers (shutdown s))
   \<and> map (alive (shutdown s)) [0, 1, 2, 3] = [False, False, False, False]
   \<and> proc (shutdown s) = Proc_exited 0"
  by (auto simp: shutdown_def Let_def exit_process_def dom_destroy_all cancel_threads_eq
      less_Suc_eq numeral_eq_Suc domIff [symmetric] simp del: domIff)

text \<open>
  The reboot after a sensor failure cannot fail cleanly: when \<^verbatim>\<open>execl\<close> fails, the process
  goes on running (the \<^verbatim>\<open>exit(1)\<close> is never reached) with its timers destroyed and the motion,
  distance and bell threads cancelled, only the monitor alive.
\<close>

lemma process_reboot_failure:
  assumes "\<not> env_exec e" and "proc s = Proc_running"
  shows "proc (process_reboot e s) = Proc_running
    \<and> (\<forall>i \<in> {1, 2, 3}. \<not> alive (process_reboot e s) i)
    \<and> alive (process_reboot e s) 0 = alive s 0
    \<and> door_bell_timer_id s \<notin> dom (timers (process_reboot e s))"
  using assms by (auto simp: process_reboot_def Let_def cancel_threads_eq destroy_all_eq)

definition quiet_env :: "char list option \<Rightarrow> sys_env" where
  \<comment> \<open>every system call of the pass succeeds\<close>
  "quiet_env f = \<lparr>env_read = True, env_write = True, env_msgsnd = 0, env_msgrcv = True,
     env_file = f, env_fclose = True, env_exec = True\<rparr>"

lemma env_ok_quiet [simp]: "env_ok (quiet_env f)"
  by (simp add: env_ok_def quiet_env_def)

end
