(* ===== verification/Machine.thy ===== *)
theory Machine
  imports Prelude
begin

text \<open>
  What all concurrent programs of the development share.  A program is a step function -- a move (which
  thread or process runs, and how its system calls turn out) leads from a state to the next one, or is
  not possible -- and a run is a list of moves.  The locale \<open>machine\<close> proves once how invariants,
  conserved quantities and measures carry over from one step to all runs, and that a program with a
  decreasing measure that is never stuck comes to its end; \<open>exploration\<close> adds the exhaustive search of a
  finite program inside the logic; \<open>refinement\<close> carries a step-by-step simulation over to runs.
\<close>

section \<open>Runs\<close>

locale machine =
  fixes step :: "'m \<Rightarrow> 's \<Rightarrow> 's option"
    and run :: "'m list \<Rightarrow> 's \<Rightarrow> 's option"
  assumes run_Nil: "run [] s = Some s"
    and run_Cons: "run (m # ms) s = (case step m s of None \<Rightarrow> None | Some t \<Rightarrow> run ms t)"
begin

lemma run_ConsE:
  assumes "run (m # ms) s = Some u"
  obtains t where "step m s = Some t" "run ms t = Some u"
  using assms by (auto simp: run_Cons split: option.splits)

lemma run_step: "step m s = Some t \<Longrightarrow> run (m # ms) s = run ms t"
  by (simp add: run_Cons)

lemma run_single: "run [m] s = step m s"
  by (simp add: run_Cons run_Nil split: option.splits)

lemma run_append: "run (xs @ ys) s = (case run xs s of None \<Rightarrow> None | Some t \<Rightarrow> run ys t)"
  by (induction xs arbitrary: s) (auto simp: run_Nil run_Cons split: option.splits)

lemma run_appendI: "run xs s = Some t \<Longrightarrow> run ys t = u \<Longrightarrow> run (xs @ ys) s = u"
  by (simp add: run_append)

lemma run_induct [consumes 1, case_names Nil Cons]:
  assumes "run ms s = Some u"
    and "\<And>s. P [] s s"
    and "\<And>m ms s t u. step m s = Some t \<Longrightarrow> run ms t = Some u \<Longrightarrow> P ms t u \<Longrightarrow> P (m # ms) s u"
  shows "P ms s u"
  using assms(1)
proof (induction ms arbitrary: s)
  case Nil
  then show ?case using assms(2) by (simp add: run_Nil)
next
  case (Cons m ms)
  from Cons.prems show ?case by (rule run_ConsE) (use Cons.IH assms(3) in blast)
qed

lemma run_inv:
  assumes "run ms s = Some u" "I s"
    and "\<And>m s t. m \<in> set ms \<Longrightarrow> I s \<Longrightarrow> step m s = Some t \<Longrightarrow> I t"
  shows "I u"
  using assms by (induction rule: run_induct) (auto)

lemma run_const:
  assumes "run ms s = Some u" "\<And>m s t. step m s = Some t \<Longrightarrow> f t = f s"
  shows "f u = f s"
  using run_inv [of ms s u "\<lambda>t. f t = f s"] assms by metis

lemma run_exact:
  fixes f :: "'s \<Rightarrow> nat"
  assumes "run ms s = Some u" "\<And>m s t. step m s = Some t \<Longrightarrow> f s = Suc (f t)"
  shows "f s = length ms + f u"
  using assms(1) by (induction rule: run_induct) (simp_all add: assms(2))

lemma run_weight:
  fixes f :: "'s \<Rightarrow> nat" and w :: "'m \<Rightarrow> nat"
  assumes "run ms s = Some u" "I s"
    and "\<And>m s t. m \<in> set ms \<Longrightarrow> I s \<Longrightarrow> step m s = Some t \<Longrightarrow> I t \<and> w m + f t \<le> f s"
  shows "sum_list (map w ms) + f u \<le> f s"
  using assms
proof (induction rule: run_induct)
  case (Nil s)
  then show ?case by simp
next
  case (Cons m ms s t u)
  then have "I t" "w m + f t \<le> f s" by auto
  moreover have "sum_list (map w ms) + f u \<le> f t" by (rule Cons.IH [OF \<open>I t\<close>]) (use Cons.prems(2) in auto)
  ultimately show ?case by simp
qed

lemma run_bound:
  fixes f :: "'s \<Rightarrow> nat"
  assumes "run ms s = Some u" "I s"
    and "\<And>m s t. m \<in> set ms \<Longrightarrow> I s \<Longrightarrow> step m s = Some t \<Longrightarrow> I t \<and> f t < f s"
  shows "length ms + f u \<le> f s"
proof -
  have "sum_list (map (\<lambda>_. 1) ms) + f u \<le> f s"
    using assms(1,2) by (rule run_weight) (use assms(3) in \<open>simp add: Suc_le_eq\<close>)
  then show ?thesis by (simp add: sum_list_triv)
qed

lemma run_completes:
  fixes f :: "'s \<Rightarrow> nat"
  assumes "I s"
    and move: "\<And>s. I s \<Longrightarrow> \<not> final s \<Longrightarrow> \<exists>m t. ok m \<and> step m s = Some t"
    and desc: "\<And>m s t. I s \<Longrightarrow> ok m \<Longrightarrow> step m s = Some t \<Longrightarrow> I t \<and> f t < f s"
  shows "\<exists>ms t. list_all ok ms \<and> run ms s = Some t \<and> I t \<and> final t"
  using assms(1)
proof (induction "f s" arbitrary: s rule: less_induct)
  case less
  show ?case
  proof (cases "final s")
    case True
    with less.prems show ?thesis by (intro exI [of _ "[]"]) (simp add: run_Nil)
  next
    case False
    then obtain m t where m: "ok m" "step m s = Some t" using move less.prems by blast
    with desc less.prems have "I t" "f t < f s" by blast+
    with less.hyps obtain ms u where "list_all ok ms" "run ms t = Some u" "I u" "final u" by blast
    with m show ?thesis by (intro exI [of _ "m # ms"]) (auto simp: run_step)
  qed
qed

end

section \<open>Exhaustive exploration\<close>

text \<open>
  \<open>explored\<close> follows all runs level by level; it is computed by \<open>code_simp\<close>, and \<open>explored_run\<close> turns the
  result into a statement about every run.  The locale asks that \<open>succ\<close> lists every state a step can
  lead to.
\<close>

fun explored :: "('s \<Rightarrow> 's list) \<Rightarrow> ('s \<Rightarrow> bool) \<Rightarrow> nat \<Rightarrow> 's list \<Rightarrow> bool" where
  \<comment> \<open>every run from one of the states has at most \<open>n\<close> steps, and all its states are \<open>ok\<close>\<close>
  "explored succ ok 0 ss = (list_all ok ss \<and> list_all (\<lambda>s. succ s = []) ss)"
| "explored succ ok (Suc n) ss = (list_all ok ss \<and> explored succ ok n (remdups (concat (map succ ss))))"

locale exploration = machine step run
  for step :: "'m \<Rightarrow> 's \<Rightarrow> 's option" and run :: "'m list \<Rightarrow> 's \<Rightarrow> 's option" +
  fixes succ :: "'s \<Rightarrow> 's list"
  assumes step_succ: "step m s = Some t \<Longrightarrow> t \<in> set (succ s)"
    and succ_step: "t \<in> set (succ s) \<Longrightarrow> \<exists>m. step m s = Some t"
begin

lemma no_succ: "succ s = [] \<longleftrightarrow> (\<forall>m. step m s = None)"
proof
  assume "succ s = []"
  then show "\<forall>m. step m s = None" using step_succ [of _ s] by (metis empty_iff list.set(1) not_None_eq)
next
  assume "\<forall>m. step m s = None"
  then have "set (succ s) = {}" using succ_step [of _ s] by fastforce
  then show "succ s = []" by simp
qed

lemma explored_run:
  assumes "run ms s = Some u" "explored succ ok n ss" "s \<in> set ss"
  shows "length ms \<le> n \<and> ok u"
  using assms
proof (induction arbitrary: n ss rule: run_induct)
  case (Nil s)
  then show ?case by (cases n) (auto simp: list_all_iff)
next
  case (Cons m ms s t u)
  have st: "t \<in> set (succ s)" using step_succ [OF Cons.hyps(1)] .
  then obtain k where n: "n = Suc k" using Cons.prems by (cases n) (auto simp: list_all_iff)
  have "t \<in> set (remdups (concat (map succ ss)))" using st Cons.prems(2) by auto
  moreover have "explored succ ok k (remdups (concat (map succ ss)))" using Cons.prems(1) n by simp
  ultimately show ?case using Cons.IH n by auto
qed

end

section \<open>Simulation\<close>

text \<open>
  A detailed program refines an abstract one when from related states every step of it can be answered
  by a sequence of steps of the abstract program that leads to related states again.
\<close>

locale refinement =
  low: machine lstep lrun + high: machine hstep hrun
  for lstep :: "'m \<Rightarrow> 's \<Rightarrow> 's option" and lrun :: "'m list \<Rightarrow> 's \<Rightarrow> 's option"
    and hstep :: "'n \<Rightarrow> 'a \<Rightarrow> 'a option" and hrun :: "'n list \<Rightarrow> 'a \<Rightarrow> 'a option" +
  fixes R :: "'s \<Rightarrow> 'a \<Rightarrow> bool"
  assumes sim: "R s a \<Longrightarrow> lstep m s = Some t \<Longrightarrow> \<exists>ns b. hrun ns a = Some b \<and> R t b"
begin

lemma run_refines: "lrun ms s = Some t \<Longrightarrow> R s a \<Longrightarrow> \<exists>ns b. hrun ns a = Some b \<and> R t b"
proof (induction arbitrary: a rule: low.run_induct)
  case (Nil s)
  then show ?case using high.run_Nil by blast
next
  case (Cons m ms s t u)
  from sim [OF Cons.prems Cons.hyps(1)] obtain ns b where n: "hrun ns a = Some b" "R t b" by blast
  with Cons.IH obtain ks c where "hrun ks b = Some c" "R u c" by blast
  with n show ?case by (intro exI [of _ "ns @ ks"] exI [of _ c]) (simp add: high.run_append)
qed

end

end
