(* ===== verification/Door_System.thy ===== *)
theory Door_System
  imports Door_Threads Machine
begin

text \<open>
  The door bell as a whole: the passes of the four threads and the three timer handlers in
  any order (\<open>door_exec\<close>, \<open>door_run\<close>, \<open>door_reach\<close>), and the sequential controller it
  implements (\<open>ctl_step\<close>).  The central fact is that the system passes a single token: at
  every moment exactly one command, message, running timer or polling loop is outstanding,
  so the concurrent threads refine a sequential automaton.  The periodic check of the main
  thread is not part of the runs (it overflows its buffer, see \<open>check_thread_dead_overflows\<close>).
\<close>

section \<open>Runs\<close>

datatype door_action =
    Motion_read | Motion_poll | Distance_pass | Bell_pass | Monitor_pass | Door_poll
  | Bell_timer | Wait_timer | Reset_timer

primrec door_action_exec :: "door_action \<Rightarrow> sys_env \<Rightarrow> door_state \<Rightarrow> door_state option" where
  "door_action_exec Motion_read e s = motion_read e s"
| "door_action_exec Motion_poll e s = motion_poll e s"
| "door_action_exec Distance_pass e s = distance_pass e s"
| "door_action_exec Bell_pass e s = bell_pass e s"
| "door_action_exec Monitor_pass e s = monitor_pass e s"
| "door_action_exec Door_poll e s = door_poll e s"
| "door_action_exec Bell_timer e s = on_expiry (door_bell_timer_id s) (door_bell_expiry e) s"
| "door_action_exec Wait_timer e s = on_expiry (door_open_wait_timer_id s) (door_open_wait_expiry e) s"
| "door_action_exec Reset_timer e s = on_expiry (reset_states_timer_id s) (reset_states_timer_expiry e) s"

definition door_exec :: "door_action \<Rightarrow> sys_env \<Rightarrow> door_state \<Rightarrow> door_state option" where
  "door_exec a e s = (if proc s \<noteq> Proc_running then None else door_action_exec a e s)"

fun door_run :: "(door_action \<times> sys_env) list \<Rightarrow> door_state \<Rightarrow> door_state option" where
  "door_run [] s = Some s"
| "door_run ((a, e) # xs) s = (case door_exec a e s of None \<Rightarrow> None | Some t \<Rightarrow> door_run xs t)"

interpretation door: machine "\<lambda>(a, e). door_exec a e" door_run
  by unfold_locales auto

definition good_main :: "main_env \<Rightarrow> bool" where
  \<comment> \<open>every call of \<^verbatim>\<open>main\<close> succeeds; the kernel hands out three different timer ids\<close>
  "good_main m \<longleftrightarrow> me_pipes m = [True, True, True] \<and> me_msgget m \<and> me_leftover m = []
     \<and> me_threads m = [True, True, True, True]
     \<and> (case (me_bell_tid m, me_wait_tid m, me_reset_tid m) of
          (Some b, Some w, Some r) \<Rightarrow> distinct [b, w, r] | _ \<Rightarrow> False)"

inductive door_reach :: "door_state \<Rightarrow> bool" where
  start: "good_main m \<Longrightarrow> door_main m = Inr s \<Longrightarrow> env_ok e \<Longrightarrow> door_reach (monitor_start e s)"
| step: "door_reach s \<Longrightarrow> env_ok e \<Longrightarrow> door_exec a e s = Some t \<Longrightarrow> door_reach t"

section \<open>The sequential controller\<close>

datatype phase =
    Scan_cmd | Scanning | Motion_seen | Measure_cmd | Dist_ok | Dist_bad | Ecu_down
  | Ring_cmd | Ringing | Ring_done | Ring_reported | Door_open_wait | Door_wait | Wait_over
  | Retry_end | Reset_wait | Stuck | Crippled | Exited | Rebooted

inductive ctl_step :: "phase \<times> s32 \<Rightarrow> phase \<times> s32 \<Rightarrow> bool" where
  scan: "ctl_step (Scan_cmd, n) (Scanning, n)"
| scan_idle: "ctl_step (Scanning, n) (Scanning, n)"
| motion: "ctl_step (Scanning, n) (Motion_seen, n)"
| motion_fail: "ctl_step (Scanning, n) (Ecu_down, n)"
| ask_distance: "ctl_step (Motion_seen, n) (Measure_cmd, n)"
| in_range: "ctl_step (Measure_cmd, n) (Dist_ok, n)"
| out_of_range: "ctl_step (Measure_cmd, n) (Dist_bad, n)"
| dist_fail: "ctl_step (Measure_cmd, n) (Ecu_down, n)"
| ask_ring: "ctl_step (Dist_ok, n) (Ring_cmd, n)"
| rescan: "ctl_step (Dist_bad, n) (Scan_cmd, n)"
| ring: "ctl_step (Ring_cmd, n) (Ringing, n)"
| ring_over: "ctl_step (Ringing, n) (Ring_done, n)"
| report: "ctl_step (Ring_done, n) (Ring_reported, n)"
| door_open: "ctl_step (Ring_reported, n) (Door_open_wait, n)"
| door_closed: "ctl_step (Ring_reported, n) (Door_wait, n)"
| door_unknown: "ctl_step (Ring_reported, n) (Stuck, n)"
| still_open: "ctl_step (Door_open_wait, n) (Door_open_wait, n)"
| left: "ctl_step (Door_open_wait, n) (Scan_cmd, n)"
| retry: "sint (n + 1) < 3 \<Longrightarrow> ctl_step (Door_wait, n) (Wait_over, n + 1)"
| give_up: "3 \<le> sint (n + 1) \<Longrightarrow> ctl_step (Door_wait, n) (Retry_end, n + 1)"
| ring_again: "ctl_step (Wait_over, n) (Ring_cmd, n)"
| pause: "ctl_step (Retry_end, n) (Reset_wait, n)"
| reset: "ctl_step (Reset_wait, n) (Scan_cmd, n)"
| reboot: "ctl_step (Ecu_down, n) (Rebooted, n)"
| reboot_fail: "ctl_step (Ecu_down, n) (Crippled, n)"
| sensor_exit: "p \<in> {Scanning, Measure_cmd, Ring_reported, Door_open_wait} \<Longrightarrow> ctl_step (p, n) (Exited, n)"

inductive_cases ctl_stepE: "ctl_step (p, n) (q, k)"

section \<open>Where the token is\<close>

primrec queue_phase :: "event \<Rightarrow> phase" where
  "queue_phase INVALID = Stuck"
| "queue_phase MOTION_DETECTED = Motion_seen"
| "queue_phase CALC_DISTANCE = Stuck"
| "queue_phase MOTION_SCAN_ON = Stuck"
| "queue_phase INVALID_DISTANCE = Dist_bad"
| "queue_phase VALID_DISTANCE = Dist_ok"
| "queue_phase RING_BELL = Stuck"
| "queue_phase RING_BELL_EXPIRY = Ring_reported"
| "queue_phase ECU_NOT_WORKING = Ecu_down"
| "queue_phase DOOR_WAIT_EXPIRY = Wait_over"
| "queue_phase DOOR_WAIT_RETRY_END = Retry_end"

definition bell_armed :: "door_state \<Rightarrow> bool" where
  "bell_armed s = armed (timers s) (door_bell_timer_id s)"

definition wait_armed :: "door_state \<Rightarrow> bool" where
  "wait_armed s = armed (timers s) (door_open_wait_timer_id s)"

definition reset_armed :: "door_state \<Rightarrow> bool" where
  "reset_armed s = armed (timers s) (reset_states_timer_id s)"

text \<open>The content of the three pipes and the queue, the two polling loops, the three timers.\<close>

definition holds ::
  "event list \<Rightarrow> event list \<Rightarrow> event list \<Rightarrow> event list \<Rightarrow> bool \<Rightarrow> bool \<Rightarrow> bool \<Rightarrow> bool \<Rightarrow> bool \<Rightarrow> door_state \<Rightarrow> bool"
where
  "holds c1 c2 c3 q scanning polling bell wait reset s \<longleftrightarrow>
     pipe_t1 s = pipe_of c1 \<and> pipe_t2 s = pipe_of c2 \<and> pipe_t3 s = pipe_of c3
     \<and> msgQ s = map event_msg q \<and> mot_scanning s = scanning \<and> mon_polling s = polling
     \<and> bell_armed s = bell \<and> wait_armed s = wait \<and> reset_armed s = reset"

primrec in_phase :: "phase \<Rightarrow> door_state \<Rightarrow> bool" where
  "in_phase Scan_cmd s = holds [MOTION_SCAN_ON] [] [] [] False False False False False s"
| "in_phase Scanning s = holds [] [] [] [] True False False False False s"
| "in_phase Motion_seen s = holds [] [] [] [MOTION_DETECTED] False False False False False s"
| "in_phase Measure_cmd s = holds [] [CALC_DISTANCE] [] [] False False False False False s"
| "in_phase Dist_ok s = holds [] [] [] [VALID_DISTANCE] False False False False False s"
| "in_phase Dist_bad s = holds [] [] [] [INVALID_DISTANCE] False False False False False s"
| "in_phase Ecu_down s = holds [] [] [] [ECU_NOT_WORKING] False False False False False s"
| "in_phase Ring_cmd s = holds [] [] [RING_BELL] [] False False False False False s"
| "in_phase Ringing s = holds [] [] [] [] False False True False False s"
| "in_phase Ring_done s = holds [] [] [RING_BELL_EXPIRY] [] False False False False False s"
| "in_phase Ring_reported s = holds [] [] [] [RING_BELL_EXPIRY] False False False False False s"
| "in_phase Door_open_wait s = holds [] [] [] [] False True False False False s"
| "in_phase Door_wait s = holds [] [] [] [] False False False True False s"
| "in_phase Wait_over s = holds [] [] [] [DOOR_WAIT_EXPIRY] False False False False False s"
| "in_phase Retry_end s = holds [] [] [] [DOOR_WAIT_RETRY_END] False False False False False s"
| "in_phase Reset_wait s = holds [] [] [] [] False False False False True s"
| "in_phase Stuck s = holds [] [] [] [] False False False False False s"
| "in_phase Crippled s = (holds [] [] [] [] False False False False False s \<and> \<not> alive s 1)"
| "in_phase Exited s = (\<exists>c. proc s = Proc_exited c)"
| "in_phase Rebooted s = (proc s = Proc_execed)"

definition threads_up :: "door_state \<Rightarrow> bool" where
  "threads_up s \<longleftrightarrow> proc s = Proc_running \<and> (\<forall>i < 4. alive s i)
     \<and> g_monitorThread_running s \<and> g_motionThread_running s
     \<and> g_distanceThread_running s \<and> g_doorbellThread_running s
     \<and> distinct [door_bell_timer_id s, door_open_wait_timer_id s, reset_states_timer_id s]
     \<and> {door_bell_timer_id s, door_open_wait_timer_id s, reset_states_timer_id s} \<subseteq> dom (timers s)
     \<and> length (mot_buf s) = MAX_MESSAGE_SIZE \<and> length (dist_buf s) = MAX_MESSAGE_SIZE
     \<and> length (bell_buf s) = MAX_MESSAGE_SIZE \<and> length (mon_buf s) = MAX_MESSAGE_SIZE"

definition live_phase :: "phase \<Rightarrow> bool" where
  "live_phase p \<longleftrightarrow> p \<notin> {Crippled, Exited, Rebooted}"

text \<open>The abstraction: read the controller phase off the state.\<close>

definition phase_of :: "door_state \<Rightarrow> phase" where
  "phase_of s =
     (case proc s of
        Proc_exited c \<Rightarrow> Exited
      | Proc_execed \<Rightarrow> Rebooted
      | Proc_running \<Rightarrow>
          if \<not> alive s 1 then Crippled
          else if pipe_t1 s \<noteq> [] then Scan_cmd
          else if mot_scanning s then Scanning
          else if pipe_t2 s \<noteq> [] then Measure_cmd
          else if pipe_t3 s \<noteq> [] then (if pipe_contents (pipe_t3 s) = [RING_BELL] then Ring_cmd else Ring_done)
          else if bell_armed s then Ringing
          else if wait_armed s then Door_wait
          else if reset_armed s then Reset_wait
          else if mon_polling s then Door_open_wait
          else case msgQ s of
              [] \<Rightarrow> Stuck
            | m # _ \<Rightarrow> (case filter (\<lambda>p. msg_event m = event_code p)
                  [MOTION_DETECTED, INVALID_DISTANCE, VALID_DISTANCE, RING_BELL_EXPIRY,
                   ECU_NOT_WORKING, DOOR_WAIT_EXPIRY, DOOR_WAIT_RETRY_END] of
                [] \<Rightarrow> Stuck | p # _ \<Rightarrow> queue_phase p))"

definition ctl_of :: "door_state \<Rightarrow> phase \<times> s32" where
  "ctl_of s = (phase_of s, door_wait_expiry_count s)"

definition door_inv :: "door_state \<Rightarrow> bool" where
  "door_inv s \<longleftrightarrow> in_phase (phase_of s) s \<and> (live_phase (phase_of s) \<longrightarrow> threads_up s)
     \<and> (phase_of s = Crippled \<longrightarrow> \<not> alive s 2 \<and> \<not> alive s 3 \<and> proc s = Proc_running)"

lemma pipe_contents_pipe_of:
  "list_all (\<lambda>e. e \<in> set commands) es \<Longrightarrow> pipe_contents (pipe_of es) = es"
  by (induction es) (simp_all add: pipe_contents_def frame_simps)

lemma pipe_contents_ring [simp]:
  "pipe_contents (pipe_of [RING_BELL]) = [RING_BELL]"
  "pipe_contents (pipe_of [RING_BELL_EXPIRY]) = [RING_BELL_EXPIRY]"
  by (simp_all add: pipe_contents_pipe_of commands_def)

lemma phase_of_live:
  assumes "in_phase p s" and "live_phase p" and "threads_up s"
  shows "phase_of s = p"
  using assms by (cases p) (simp_all add: phase_of_def holds_def live_phase_def threads_up_def)

lemma phase_of_exited: "proc s = Proc_exited c \<Longrightarrow> phase_of s = Exited"
  by (simp add: phase_of_def)

lemma phase_of_execed: "proc s = Proc_execed \<Longrightarrow> phase_of s = Rebooted"
  by (simp add: phase_of_def)

lemma phase_of_crippled: "proc s = Proc_running \<Longrightarrow> \<not> alive s 1 \<Longrightarrow> phase_of s = Crippled"
  by (simp add: phase_of_def)

lemma door_inv_live:
  "in_phase p s \<Longrightarrow> live_phase p \<Longrightarrow> threads_up s \<Longrightarrow> door_inv s \<and> phase_of s = p"
  by (simp add: door_inv_def phase_of_live) (auto simp: live_phase_def)

section \<open>Every pass is a controller step\<close>

lemmas state_simps = holds_def threads_up_def bell_armed_def wait_armed_def reset_armed_def env_ok_def

definition simulated :: "phase \<Rightarrow> door_state \<Rightarrow> door_state \<Rightarrow> bool" where
  "simulated p s t \<longleftrightarrow>
     (\<exists>q. ctl_step (p, door_wait_expiry_count s) (q, door_wait_expiry_count t) \<and> in_phase q t
        \<and> (live_phase q \<longrightarrow> threads_up t)
        \<and> (q = Crippled \<longrightarrow> \<not> alive t 1 \<and> \<not> alive t 2 \<and> \<not> alive t 3 \<and> proc t = Proc_running))"

lemma simulatedI:
  "ctl_step (p, door_wait_expiry_count s) (q, door_wait_expiry_count t) \<Longrightarrow> in_phase q t \<Longrightarrow> live_phase q \<Longrightarrow>
   threads_up t \<Longrightarrow> simulated p s t"
  unfolding simulated_def by (intro exI [of _ q]) (auto simp: live_phase_def)

lemma simulated_exit:
  "p \<in> {Scanning, Measure_cmd, Ring_reported, Door_open_wait} \<Longrightarrow>
   door_wait_expiry_count t = door_wait_expiry_count s \<Longrightarrow> proc t = Proc_exited c \<Longrightarrow> simulated p s t"
  unfolding simulated_def by (intro exI [of _ Exited]) (auto simp: live_phase_def intro: sensor_exit)

lemma motion_read_sim:
  assumes "in_phase p s" "live_phase p" "threads_up s" "env_ok e" "motion_read e s = Some t"
  shows "simulated p s t"
proof -
  have p: "p = Scan_cmd"
    using assms by (cases p) (simp_all add: motion_read_def state_simps read_event_def live_phase_def)
  have "t = s\<lparr>pipe_t1 := [], mot_buf := frame_of MOTION_SCAN_ON, mot_scanning := True\<rparr>"
    using assms by (auto simp: p motion_read_def state_simps read_event_pipe_of frame_simps Let_def commands_def)
  with assms show ?thesis
    by (intro simulatedI [where q = Scanning]) (auto simp: p state_simps live_phase_def frame_simps intro: ctl_step.intros)
qed

lemma motion_poll_sim:
  assumes "in_phase p s" "live_phase p" "threads_up s" "env_ok e" "motion_poll e s = Some t"
  shows "simulated p s t"
proof -
  have p: "p = Scanning"
    using assms by (cases p) (simp_all add: motion_poll_def state_simps live_phase_def)
  have t: "t = read_sensor e (motion_react e) s"
    using assms by (simp add: motion_poll_def split: if_splits)
  show ?thesis
  proof (cases "get_value (env_file e) (env_fclose e)")
    case (Inl c)
    then show ?thesis
      by (intro simulated_exit [where c = c]) (simp_all add: p t read_sensor_def exit_process_def)
  next
    case (Inr d)
    define q where "q = (if rd_status d \<noteq> ecu_code ECU_WORKING then Ecu_down
      else if rd_value d = 1 then Motion_seen else Scanning)"
    from assms Inr show ?thesis
      by (intro simulatedI [where q = q])
        (auto simp: q_def p t read_sensor_def motion_react_def postQ_ok state_simps live_phase_def
          intro: ctl_step.intros)
  qed
qed

lemma distance_pass_sim:
  assumes "in_phase p s" "live_phase p" "threads_up s" "env_ok e" "distance_pass e s = Some t"
  shows "simulated p s t"
proof -
  have p: "p = Measure_cmd"
    using assms by (cases p) (simp_all add: distance_pass_def state_simps read_event_def live_phase_def)
  have len: "length (memset (dist_buf s) NUL MAX_MESSAGE_SIZE) = MAX_MESSAGE_SIZE"
    using assms by (simp add: memset_def threads_up_def)
  have t: "t = read_sensor e (\<lambda>d s. postQ e (distance_event d) s)
      (s\<lparr>pipe_t2 := [], dist_buf := frame_of CALC_DISTANCE\<rparr>)"
    using assms len
    by (auto simp: p distance_pass_def state_simps read_event_pipe_of frame_simps Let_def commands_def)
  show ?thesis
  proof (cases "get_value (env_file e) (env_fclose e)")
    case (Inl c)
    then show ?thesis
      by (intro simulated_exit [where c = c]) (simp_all add: p t read_sensor_def exit_process_def)
  next
    case (Inr d)
    define q where "q = queue_phase (distance_event d)"
    from assms Inr show ?thesis
      by (intro simulatedI [where q = q])
        (auto simp: q_def p t read_sensor_def distance_event_def postQ_ok state_simps live_phase_def
          frame_simps intro: ctl_step.intros)
  qed
qed

lemma bell_pass_sim:
  assumes "in_phase p s" "live_phase p" "threads_up s" "env_ok e" "bell_pass e s = Some t"
  shows "simulated p s t"
proof -
  have p: "p = Ring_cmd \<or> p = Ring_done"
    using assms by (cases p) (simp_all add: bell_pass_def state_simps read_event_def live_phase_def)
  then show ?thesis
  proof
    assume p: "p = Ring_cmd"
    have "t = s\<lparr>pipe_t3 := [], bell_buf := frame_of RING_BELL,
        timers := (timers s)(door_bell_timer_id s \<mapsto> 3)\<rparr>"
      using assms by (auto simp: p bell_pass_def state_simps read_event_pipe_of frame_simps Let_def
          commands_def snd_timer_start)
    with assms show ?thesis
      by (intro simulatedI [where q = Ringing])
        (auto simp: p state_simps live_phase_def frame_simps intro: ctl_step.intros)
  next
    assume p: "p = Ring_done"
    have "t = s\<lparr>pipe_t3 := [], bell_buf := frame_of RING_BELL_EXPIRY, msgQ := [event_msg RING_BELL_EXPIRY]\<rparr>"
      using assms by (auto simp: p bell_pass_def state_simps read_event_pipe_of frame_simps Let_def
          commands_def postQ_ok simp del: event_code.simps)
    with assms show ?thesis
      by (intro simulatedI [where q = Ring_reported])
        (auto simp: p state_simps live_phase_def frame_simps intro: ctl_step.intros)
  qed
qed

lemma monitor_pass_phase:
  assumes "in_phase p s" "live_phase p" "threads_up s" "env_ok e" "monitor_pass e s = Some t"
  shows "\<exists>ev \<in> {MOTION_DETECTED, VALID_DISTANCE, INVALID_DISTANCE, RING_BELL_EXPIRY, ECU_NOT_WORKING,
      DOOR_WAIT_EXPIRY, DOOR_WAIT_RETRY_END}.
    p = queue_phase ev \<and> t = monitor_dispatch e (event_code ev) (s\<lparr>msgQ := []\<rparr>)"
  using assms
  by (cases p) (simp_all add: monitor_pass_def state_simps live_phase_def get_messageFromQ_def Let_def)

lemma process_reboot_sim:
  assumes "in_phase Ecu_down s" "threads_up s"
  shows "simulated Ecu_down s (process_reboot e (s\<lparr>msgQ := []\<rparr>))"
proof (cases "env_exec e")
  case True
  then show ?thesis
    unfolding simulated_def
    by (intro exI [of _ Rebooted]) (auto simp: process_reboot_def Let_def live_phase_def intro: reboot)
next
  case False
  with assms show ?thesis
    unfolding simulated_def
    by (intro exI [of _ Crippled])
      (auto simp: process_reboot_def Let_def live_phase_def state_simps destroy_all_eq
        cancel_threads_eq armed_def intro: reboot_fail)
qed

lemma mon_ring_expiry_sim:
  assumes "in_phase Ring_reported s" "threads_up s"
  shows "simulated Ring_reported s (mon_ring_expiry e (s\<lparr>msgQ := []\<rparr>))"
proof (cases "get_value (env_file e) (env_fclose e)")
  case (Inl c)
  then show ?thesis
    by (intro simulated_exit [where c = c]) (simp_all add: mon_ring_expiry_def read_sensor_def exit_process_def)
next
  case (Inr d)
  define q where "q = (if rd_value d = door_code DOOR_OPEN then Door_open_wait
    else if rd_value d = door_code DOOR_CLOSED then Door_wait else Stuck)"
  from assms Inr show ?thesis
    by (intro simulatedI [where q = q])
      (auto simp: q_def mon_ring_expiry_def read_sensor_def state_simps live_phase_def snd_timer_start
        intro: ctl_step.intros)
qed

lemma monitor_post_sim:
  assumes "threads_up s" "env_ok e"
  shows "in_phase Motion_seen s \<Longrightarrow> simulated Motion_seen s (mon_post2 e CALC_DISTANCE (s\<lparr>msgQ := []\<rparr>))"
    and "in_phase Dist_ok s \<Longrightarrow> simulated Dist_ok s (mon_post3 e RING_BELL (s\<lparr>msgQ := []\<rparr>))"
    and "in_phase Dist_bad s \<Longrightarrow> simulated Dist_bad s (mon_post1 e MOTION_SCAN_ON (s\<lparr>msgQ := []\<rparr>))"
    and "in_phase Wait_over s \<Longrightarrow> simulated Wait_over s (mon_post3 e RING_BELL (s\<lparr>msgQ := []\<rparr>))"
     apply (rule simulatedI [where q = Measure_cmd])
     prefer 5 apply (rule simulatedI [where q = Ring_cmd])
     prefer 9 apply (rule simulatedI [where q = Scan_cmd])
     prefer 13 apply (rule simulatedI [where q = Ring_cmd])
  using assms
  by (auto simp: state_simps live_phase_def frame_simps mon_post_ok [where es = "[]"] intro: ctl_step.intros)

lemma retry_end_sim:
  assumes "in_phase Retry_end s" "threads_up s"
  shows "simulated Retry_end s
    (s\<lparr>msgQ := [], timers := snd (timer_start (timers s) (reset_states_timer_id s) (10 * 60))\<rparr>)"
  using assms
  by (intro simulatedI [where q = Reset_wait])
    (auto simp: state_simps live_phase_def snd_timer_start intro: ctl_step.intros)

lemma monitor_pass_sim:
  assumes "in_phase p s" "live_phase p" "threads_up s" "env_ok e" "monitor_pass e s = Some t"
  shows "simulated p s t"
  using monitor_pass_phase [OF assms] assms(1) monitor_post_sim [OF assms(3,4)]
    process_reboot_sim [OF _ assms(3)] mon_ring_expiry_sim [OF _ assms(3)] retry_end_sim [OF _ assms(3)]
  by (auto simp: monitor_dispatch_def)

lemma door_poll_sim:
  assumes "in_phase p s" "live_phase p" "threads_up s" "env_ok e" "door_poll e s = Some t"
  shows "simulated p s t"
proof -
  have p: "p = Door_open_wait"
    using assms by (cases p) (simp_all add: door_poll_def state_simps live_phase_def)
  show ?thesis
  proof (cases "get_value (env_file e) (env_fclose e)")
    case (Inl c)
    with assms show ?thesis
      by (intro simulated_exit [where c = c])
        (auto simp: p door_poll_def read_sensor_def exit_process_def split: if_splits)
  next
    case (Inr d)
    have t: "t = (if rd_value d = door_code DOOR_OPEN then s
        else s\<lparr>mon_polling := False, mon_buf := frame_of MOTION_SCAN_ON, pipe_t1 := pipe_of [MOTION_SCAN_ON]\<rparr>)"
      using assms Inr
      by (auto simp: p door_poll_def read_sensor_def state_simps mon_post_ok [where es = "[]"] split: if_splits)
    from assms(1-4) show ?thesis
      by (intro simulatedI [where q = "if rd_value d = door_code DOOR_OPEN then Door_open_wait else Scan_cmd"])
        (auto simp: t p state_simps live_phase_def frame_simps intro: ctl_step.intros)
  qed
qed

lemma on_expiry_Some:
  "on_expiry tid h s = Some t \<Longrightarrow> armed (timers s) tid \<and> t = h (s\<lparr>timers := (timers s)(tid \<mapsto> 0)\<rparr>)"
  by (auto simp: on_expiry_def timer_fire_def split: if_splits)

lemma bell_timer_sim:
  assumes "in_phase p s" "live_phase p" "threads_up s" "env_ok e"
    and "on_expiry (door_bell_timer_id s) (door_bell_expiry e) s = Some t"
  shows "simulated p s t"
proof -
  note fired = on_expiry_Some [OF assms(5)]
  have p: "p = Ringing"
    using assms fired by (cases p) (simp_all add: state_simps live_phase_def)
  from assms fired show ?thesis
    by (intro simulatedI [where q = Ring_done])
      (auto simp: p door_bell_expiry_def Let_def state_simps live_phase_def frame_simps strncpy_frame
        timer_stop_eq_start snd_timer_start post_event_def pipe_of_Cons intro: ctl_step.intros
        simp del: event_name.simps)
qed

lemma reset_timer_sim:
  assumes "in_phase p s" "live_phase p" "threads_up s" "env_ok e"
    and "on_expiry (reset_states_timer_id s) (reset_states_timer_expiry e) s = Some t"
  shows "simulated p s t"
proof -
  note fired = on_expiry_Some [OF assms(5)]
  have p: "p = Reset_wait"
    using assms fired by (cases p) (simp_all add: state_simps live_phase_def)
  from assms fired show ?thesis
    by (intro simulatedI [where q = Scan_cmd])
      (auto simp: p reset_states_timer_expiry_def Let_def state_simps live_phase_def frame_simps strncpy_frame
        timer_stop_eq_start snd_timer_start post_event_def pipe_of_Cons intro: ctl_step.intros
        simp del: event_name.simps)
qed

lemma wait_timer_sim:
  assumes "in_phase p s" "live_phase p" "threads_up s" "env_ok e"
    and "on_expiry (door_open_wait_timer_id s) (door_open_wait_expiry e) s = Some t"
  shows "simulated p s t"
proof -
  note fired = on_expiry_Some [OF assms(5)]
  have p: "p = Door_wait"
    using assms fired by (cases p) (simp_all add: state_simps live_phase_def)
  define q where "q = (if 3 \<le> sint (door_wait_expiry_count s + 1) then Retry_end else Wait_over)"
  from assms fired show ?thesis
    by (intro simulatedI [where q = q])
      (auto simp: q_def p door_open_wait_expiry_def Let_def state_simps live_phase_def postQ_ok
        timer_stop_eq_start snd_timer_start intro: ctl_step.intros)
qed

lemma door_action_sim:
  assumes "in_phase p s" "live_phase p" "threads_up s" "env_ok e" "door_exec a e s = Some t"
  shows "simulated p s t"
proof -
  have x: "door_action_exec a e s = Some t"
    using assms(5) by (simp add: door_exec_def split: if_splits)
  note pre = assms(1-4)
  show ?thesis
    using x motion_read_sim [OF pre] motion_poll_sim [OF pre] distance_pass_sim [OF pre]
      bell_pass_sim [OF pre] monitor_pass_sim [OF pre] door_poll_sim [OF pre]
      bell_timer_sim [OF pre] wait_timer_sim [OF pre] reset_timer_sim [OF pre]
    by (cases a) simp_all
qed

section \<open>Reachable states\<close>

lemma crippled_blocked:
  assumes "door_inv s" and "phase_of s = Crippled"
  shows "door_exec a e s = None \<or> \<not> env_ok e"
  using assms
  by (cases a) (auto simp: door_inv_def live_phase_def state_simps door_exec_def motion_read_def
      motion_poll_def distance_pass_def bell_pass_def monitor_pass_def get_messageFromQ_def door_poll_def
      on_expiry_def timer_fire_def)

lemma door_inv_step:
  assumes inv: "door_inv s" and ok: "env_ok e" and ex: "door_exec a e s = Some t"
  shows "ctl_step (ctl_of s) (ctl_of t) \<and> door_inv t"
proof -
  have running: "proc s = Proc_running" using ex by (simp add: door_exec_def split: if_splits)
  have "phase_of s \<noteq> Crippled" using crippled_blocked [OF inv, of a e] ok ex by auto
  moreover have "phase_of s \<noteq> Exited" "phase_of s \<noteq> Rebooted"
    using inv running by (auto simp: door_inv_def)
  ultimately have live: "live_phase (phase_of s)" by (simp add: live_phase_def)
  with inv have "in_phase (phase_of s) s" "threads_up s" by (simp_all add: door_inv_def)
  from door_action_sim [OF this(1) live this(2) ok ex]
  obtain q where q: "ctl_step (phase_of s, door_wait_expiry_count s) (q, door_wait_expiry_count t)"
      "in_phase q t" "live_phase q \<longrightarrow> threads_up t"
      "q = Crippled \<longrightarrow> \<not> alive t 1 \<and> \<not> alive t 2 \<and> \<not> alive t 3 \<and> proc t = Proc_running"
    by (auto simp: simulated_def)
  have "phase_of t = q \<and> door_inv t"
  proof (cases "live_phase q")
    case True
    with q show ?thesis using door_inv_live by blast
  next
    case False
    with q show ?thesis
      by (auto simp: live_phase_def door_inv_def phase_of_crippled phase_of_exited phase_of_execed)
  qed
  with q(1) show ?thesis by (simp add: ctl_of_def)
qed

lemma door_main_good:
  assumes "good_main m" and "door_main m = Inr s" and "env_ok e"
  shows "in_phase Scan_cmd (monitor_start e s) \<and> threads_up (monitor_start e s)
    \<and> door_wait_expiry_count (monitor_start e s) = 0"
proof -
  obtain b w r where ids: "me_bell_tid m = Some b" "me_wait_tid m = Some w" "me_reset_tid m = Some r"
      "distinct [b, w, r]"
    using assms(1) by (auto simp: good_main_def split: option.splits)
  have s: "s = door_globals\<lparr>msgQ := [], alive := (\<lambda>_. False)(0 := True, 1 := True, 2 := True, 3 := True),
      g_distanceThread_running := True, g_monitorThread_running := True,
      g_motionThread_running := True, g_doorbellThread_running := True,
      timers := [b \<mapsto> 0, w \<mapsto> 0, r \<mapsto> 0], door_bell_timer_id := b,
      door_open_wait_timer_id := w, reset_states_timer_id := r\<rparr>"
    using assms(1,2) ids
    by (auto simp: good_main_def door_main_def Let_def tmr_create_def door_globals_def numeral_2_eq_2 numeral_3_eq_3)
  then have "monitor_start e s = s\<lparr>mon_buf := frame_of MOTION_SCAN_ON, pipe_t1 := pipe_of [MOTION_SCAN_ON]\<rparr>"
    using assms(3) mon_post_ok(1) [of e s "[]" MOTION_SCAN_ON]
    by (simp add: monitor_start_def env_ok_def door_globals_def frame_simps)
  with ids(4) show ?thesis
    by (auto simp: s door_globals_def state_simps frame_simps less_Suc_eq numeral_eq_Suc armed_def)
qed

lemma door_reach_inv: "door_reach s \<Longrightarrow> door_inv s
    \<and> (phase_of s = Wait_over \<longrightarrow> sint (door_wait_expiry_count s) < 3)"
proof (induction rule: door_reach.induct)
  case (start m s e)
  from door_main_good [OF start] show ?case
    using door_inv_live [of Scan_cmd "monitor_start e s"] by (auto simp: live_phase_def)
next
  case (step s e a t)
  with door_inv_step [of s e a t] show ?case
    by (auto simp: ctl_of_def elim!: ctl_stepE)
qed

lemma door_run_inv:
  assumes "door_run xs s = Some t" "list_all (\<lambda>x. env_ok (snd x)) xs" "I s"
    and "\<And>a e s t. (a, e) \<in> set xs \<Longrightarrow> env_ok e \<Longrightarrow> I s \<Longrightarrow> door_exec a e s = Some t \<Longrightarrow> I t"
  shows "I t"
proof -
  have "I v" if "m \<in> set xs" "I u" "(case m of (a, e) \<Rightarrow> door_exec a e) u = Some v" for m u v
  proof -
    obtain a e where "m = (a, e)" by (cases m)
    with that assms(2,4) show "I v" by (auto simp: list_all_iff)
  qed
  with assms(1,3) show ?thesis by (rule door.run_inv)
qed

lemma door_run_reach:
  "door_reach s \<Longrightarrow> list_all (\<lambda>x. env_ok (snd x)) xs \<Longrightarrow> door_run xs s = Some t \<Longrightarrow> door_reach t"
  by (rule door_run_inv) (auto intro: door_reach.step)

section \<open>Properties of the system\<close>

text \<open>
  C1. Refinement: every pass of a thread and every timer handler, run in any reachable state
  with its system calls succeeding, is one step of the sequential controller \<open>ctl_step\<close> on the
  phase read off the state and the retry counter.
\<close>

theorem door_refines_controller:
  assumes "door_reach s" and "env_ok e" and "door_exec a e s = Some t"
  shows "ctl_step (ctl_of s) (ctl_of t)"
  using door_inv_step [OF _ assms(2,3)] door_reach_inv [OF assms(1)] by simp

definition sample_main :: main_env where
  "sample_main = \<lparr>me_pipes = [True, True, True], me_msgget = True, me_leftover = [],
     me_threads = [True, True, True, True], me_bell_tid = Some 1, me_wait_tid = Some 2,
     me_reset_tid = Some 3\<rparr>"

definition sample_start :: door_state where
  "sample_start =
     (case door_main sample_main of Inr s \<Rightarrow> monitor_start (quiet_env None) s | Inl _ \<Rightarrow> door_globals)"

lemma sample_main_ok: "good_main sample_main" "\<exists>s. door_main sample_main = Inr s"
  by (simp_all add: good_main_def sample_main_def door_main_def Let_def tmr_create_def)

lemma sample_reach: "door_reach sample_start"
  using sample_main_ok door_reach.start [of sample_main _ "quiet_env None"]
  by (auto simp: sample_start_def)

lemma sample_phase: "in_phase Scan_cmd sample_start" "threads_up sample_start"
    "door_wait_expiry_count sample_start = 0"
  using sample_main_ok door_main_good [of sample_main _ "quiet_env None"]
  by (auto simp: sample_start_def)

text \<open>One full pass of the chain from a command to scan up to a running bell timer.\<close>

lemma motion_read_run:
  assumes "in_phase Scan_cmd s" "threads_up s" "env_ok e"
  shows "\<exists>t. door_exec Motion_read e s = Some t \<and> in_phase Scanning t \<and> threads_up t
    \<and> door_wait_expiry_count t = door_wait_expiry_count s"
  using assms
  by (auto simp: door_exec_def motion_read_def state_simps read_event_pipe_of frame_simps Let_def commands_def)

lemma motion_poll_run:
  assumes "in_phase Scanning s" "threads_up s" "env_ok e"
    and "get_value (env_file e) True = Inr \<lparr>rd_value = 1, rd_status = 0\<rparr>"
  shows "\<exists>t. door_exec Motion_poll e s = Some t \<and> in_phase Motion_seen t \<and> threads_up t"
  using assms
  by (auto simp: door_exec_def motion_poll_def state_simps read_sensor_def motion_react_def postQ_ok)

lemma monitor_measure_run:
  assumes "in_phase Motion_seen s" "threads_up s" "env_ok e"
  shows "\<exists>t. door_exec Monitor_pass e s = Some t \<and> in_phase Measure_cmd t \<and> threads_up t"
  using assms
  by (auto simp: door_exec_def monitor_pass_def state_simps get_messageFromQ_def Let_def
      monitor_dispatch_def mon_post_ok [where es = "[]"] frame_simps)

lemma distance_run:
  assumes "in_phase Measure_cmd s" "threads_up s" "env_ok e"
    and "get_value (env_file e) True = Inr d" "distance_event d = ev"
  shows "\<exists>t. door_exec Distance_pass e s = Some t \<and> in_phase (queue_phase ev) t \<and> threads_up t"
proof -
  have len: "length (memset (dist_buf s) NUL MAX_MESSAGE_SIZE) = MAX_MESSAGE_SIZE"
    using assms by (simp add: memset_def threads_up_def)
  with assms show ?thesis
    by (auto simp: door_exec_def distance_pass_def state_simps read_event_pipe_of frame_simps Let_def
        commands_def read_sensor_def postQ_ok distance_event_def)
qed

lemma monitor_ring_run:
  assumes "in_phase Dist_ok s" "threads_up s" "env_ok e"
  shows "\<exists>t. door_exec Monitor_pass e s = Some t \<and> in_phase Ring_cmd t \<and> threads_up t"
  using assms
  by (auto simp: door_exec_def monitor_pass_def state_simps get_messageFromQ_def Let_def
      monitor_dispatch_def mon_post_ok [where es = "[]"] frame_simps)

lemma bell_ring_run:
  assumes "in_phase Ring_cmd s" "threads_up s" "env_ok e"
  shows "\<exists>t. door_exec Bell_pass e s = Some t \<and> in_phase Ringing t \<and> timers t (door_bell_timer_id t) = Some 3"
  using assms
  by (auto simp: door_exec_def bell_pass_def state_simps read_event_pipe_of frame_simps Let_def
      commands_def snd_timer_start)

definition outstanding :: "door_state \<Rightarrow> nat" where
  \<comment> \<open>commands in the pipes, messages in the queue, polling loops entered, timers running\<close>
  "outstanding s =
     length (pipe_frames (pipe_t1 s)) + length (pipe_frames (pipe_t2 s)) + length (pipe_frames (pipe_t3 s))
     + length (msgQ s) + of_bool (mot_scanning s) + of_bool (mon_polling s)
     + of_bool (bell_armed s) + of_bool (wait_armed s) + of_bool (reset_armed s)"

lemma outstanding_phase:
  "in_phase p s \<Longrightarrow> live_phase p \<or> p = Crippled \<Longrightarrow>
     outstanding s = (if p \<in> {Stuck, Crippled} then 0 else 1)"
  by (cases p) (simp_all add: outstanding_def holds_def live_phase_def)

lemma running_phase:
  "door_reach s \<Longrightarrow> proc s = Proc_running \<Longrightarrow>
     in_phase (phase_of s) s \<and> (live_phase (phase_of s) \<and> threads_up s \<or> phase_of s = Crippled)"
  using door_reach_inv [of s] by (auto simp: door_inv_def live_phase_def)

text \<open>
  C3. Single token: in every reachable state of the running process at most one thing is
  outstanding among the commands on the three pipes, the messages on the queue, the two
  polling loops and the three timers, so no two activities of the door bell ever overlap.
\<close>

theorem single_token:
  assumes "door_reach s" and "proc s = Proc_running"
  shows "outstanding s \<le> 1"
  using running_phase [OF assms] outstanding_phase [of "phase_of s" s] by (auto split: if_splits)

theorem single_token_witness: "outstanding sample_start \<le> 1"
  by (rule single_token [OF sample_reach]) (use sample_phase in \<open>simp add: threads_up_def\<close>)

text \<open>Progress: where something is outstanding, some pass or handler can run.\<close>

primrec next_action :: "phase \<Rightarrow> door_action" where
  "next_action Scan_cmd = Motion_read"
| "next_action Scanning = Motion_poll"
| "next_action Motion_seen = Monitor_pass"
| "next_action Measure_cmd = Distance_pass"
| "next_action Dist_ok = Monitor_pass"
| "next_action Dist_bad = Monitor_pass"
| "next_action Ecu_down = Monitor_pass"
| "next_action Ring_cmd = Bell_pass"
| "next_action Ringing = Bell_timer"
| "next_action Ring_done = Bell_pass"
| "next_action Ring_reported = Monitor_pass"
| "next_action Door_open_wait = Door_poll"
| "next_action Door_wait = Wait_timer"
| "next_action Wait_over = Monitor_pass"
| "next_action Retry_end = Monitor_pass"
| "next_action Reset_wait = Reset_timer"
| "next_action Stuck = Monitor_pass"
| "next_action Crippled = Monitor_pass"
| "next_action Exited = Monitor_pass"
| "next_action Rebooted = Monitor_pass"

lemma live_progress:
  assumes "in_phase p s" "live_phase p" "threads_up s" "p \<noteq> Stuck" "env_ok e"
  shows "\<exists>t. door_exec (next_action p) e s = Some t"
proof -
  have "length (memset (dist_buf s) NUL MAX_MESSAGE_SIZE) = MAX_MESSAGE_SIZE"
    using assms by (simp add: memset_def threads_up_def)
  with assms show ?thesis
    by (cases p) (simp_all add: live_phase_def state_simps door_exec_def motion_read_def motion_poll_def
        monitor_pass_def distance_pass_def bell_pass_def door_poll_def on_expiry_def timer_fire_def
        read_event_pipe_of frame_simps get_messageFromQ_def Let_def)
qed

lemma stuck_blocked:
  assumes "in_phase Stuck s" and "env_ok e"
  shows "door_exec a e s = None"
  using assms
  by (cases a) (auto simp: state_simps door_exec_def motion_read_def read_event_def motion_poll_def
      distance_pass_def bell_pass_def monitor_pass_def get_messageFromQ_def door_poll_def
      on_expiry_def timer_fire_def)

text \<open>
  C7. Deadlock, exactly: a reachable running process can take no further pass (with working
  system calls) if and only if nothing is outstanding any more.
\<close>

theorem deadlock_iff_no_token:
  assumes "door_reach s" and "proc s = Proc_running"
  shows "(\<forall>a e. env_ok e \<longrightarrow> door_exec a e s = None) \<longleftrightarrow> outstanding s = 0"
proof (cases "phase_of s = Crippled")
  case True
  with running_phase [OF assms] outstanding_phase [of "phase_of s" s] crippled_blocked [OF _ True]
    door_reach_inv [OF assms(1)]
  show ?thesis by auto
next
  case False
  with running_phase [OF assms] have ph: "in_phase (phase_of s) s" "live_phase (phase_of s)" "threads_up s"
    by auto
  show ?thesis
  proof (cases "phase_of s = Stuck")
    case True
    with ph outstanding_phase [of "phase_of s" s] stuck_blocked [of s] show ?thesis by simp
  next
    case nstuck: False
    from live_progress [OF ph nstuck env_ok_quiet]
    have "\<not> (\<forall>a e. env_ok e \<longrightarrow> door_exec a e s = None)" using env_ok_quiet by fastforce
    with ph nstuck outstanding_phase [of "phase_of s" s] False show ?thesis by simp
  qed
qed

theorem deadlock_iff_no_token_witness:
  "\<not> (\<forall>a e. env_ok e \<longrightarrow> door_exec a e sample_start = None)"
proof -
  have "outstanding sample_start = 1"
    using outstanding_phase [OF sample_phase(1)] by (simp add: live_phase_def)
  with deadlock_iff_no_token [OF sample_reach] sample_phase(2) show ?thesis
    by (simp add: threads_up_def)
qed

section \<open>The controller is realised\<close>

definition ctl_answer :: "phase \<Rightarrow> char list option" where
  \<comment> \<open>a sensor file that makes the pass end in the given phase\<close>
  "ctl_answer q =
     (if q = Exited then None
      else Some (sensor_text
        (if q = Motion_seen \<or> q = Door_wait \<or> q = Scan_cmd then 1 else if q = Stuck then 2
         else if q = Dist_ok then 5 else if q = Dist_bad then 9 else 0)
        (if q = Ecu_down then 1 else 0)))"

definition ctl_env :: "phase \<Rightarrow> sys_env" where
  "ctl_env q = (quiet_env (ctl_answer q))\<lparr>env_exec := (q = Rebooted)\<rparr>"

lemma env_ok_ctl_env [simp]: "env_ok (ctl_env q)"
  by (simp add: ctl_env_def env_ok_def quiet_env_def)

lemma ctl_env_fields [simp]:
  "env_fclose (ctl_env q)" "env_write (ctl_env q)"
  by (simp_all add: ctl_env_def quiet_env_def)

lemma get_value_ctl_env:
  "get_value (env_file (ctl_env q)) True =
     (if q = Exited then Inl 1
      else Inr \<lparr>rd_value = (if q = Motion_seen \<or> q = Door_wait \<or> q = Scan_cmd then 1 else if q = Stuck then 2
         else if q = Dist_ok then 5 else if q = Dist_bad then 9 else 0),
         rd_status = (if q = Ecu_down then 1 else 0)\<rparr>)"
  by (simp add: ctl_env_def quiet_env_def ctl_answer_def get_value_digits get_value_def [of None])

definition lands :: "phase \<Rightarrow> door_state \<Rightarrow> bool" where
  "lands q t \<longleftrightarrow> in_phase q t \<and> live_phase q \<and> threads_up t \<or> q = Exited \<and> proc t = Proc_exited 1
     \<or> q = Rebooted \<and> proc t = Proc_execed \<or> q = Crippled \<and> proc t = Proc_running \<and> \<not> alive t 1"

lemma lands_phase_of: "lands q t \<Longrightarrow> phase_of t = q"
  unfolding lands_def
  using phase_of_live phase_of_exited phase_of_execed phase_of_crippled by blast

lemma land_scanning:
  assumes "in_phase Scanning s" "threads_up s" "q \<in> {Scanning, Motion_seen, Ecu_down, Exited}"
    and "door_exec Motion_poll (ctl_env q) s = Some t"
  shows "lands q t"
  using assms env_ok_ctl_env [of q]
  by (auto simp: lands_def door_exec_def motion_poll_def read_sensor_def get_value_ctl_env exit_process_def
      motion_react_def postQ_ok state_simps live_phase_def split: if_splits)

lemma land_measure:
  assumes "in_phase Measure_cmd s" "threads_up s" "q \<in> {Dist_ok, Dist_bad, Ecu_down, Exited}"
    and "door_exec Distance_pass (ctl_env q) s = Some t"
  shows "lands q t"
proof -
  have len: "length (memset (dist_buf s) NUL MAX_MESSAGE_SIZE) = MAX_MESSAGE_SIZE"
    using assms by (simp add: memset_def threads_up_def)
  have "t = read_sensor (ctl_env q) (\<lambda>d s. postQ (ctl_env q) (distance_event d) s)
      (s\<lparr>pipe_t2 := [], dist_buf := frame_of CALC_DISTANCE\<rparr>)"
    using assms env_ok_ctl_env [of q] len
    by (auto simp: door_exec_def distance_pass_def state_simps read_event_pipe_of frame_simps Let_def
        commands_def split: if_splits)
  with assms env_ok_ctl_env [of q] show ?thesis
    by (auto simp: lands_def read_sensor_def get_value_ctl_env exit_process_def distance_event_def
        postQ_ok state_simps live_phase_def frame_simps MIN_DISTANCE_def MAX_DISTANCE_def)
qed

lemma land_ring_reported:
  assumes "in_phase Ring_reported s" "threads_up s" "q \<in> {Door_open_wait, Door_wait, Stuck, Exited}"
    and "door_exec Monitor_pass (ctl_env q) s = Some t"
  shows "lands q t"
proof -
  have t: "t = mon_ring_expiry (ctl_env q) (s\<lparr>msgQ := []\<rparr>)"
    using assms(1,2,4) env_ok_ctl_env [of q]
    by (simp add: door_exec_def monitor_pass_def get_messageFromQ_def Let_def monitor_dispatch_def state_simps)
  from assms(3) consider "q = Door_open_wait" | "q = Door_wait" | "q = Stuck" | "q = Exited" by auto
  then show ?thesis
    using assms(1,2)
    by cases (simp_all add: t lands_def mon_ring_expiry_def read_sensor_def get_value_ctl_env exit_process_def
      snd_timer_start state_simps live_phase_def)
qed

lemma land_door_open:
  assumes "in_phase Door_open_wait s" "threads_up s" "q \<in> {Door_open_wait, Scan_cmd, Exited}"
    and "door_exec Door_poll (ctl_env q) s = Some t"
  shows "lands q t"
proof -
  have t: "t = read_sensor (ctl_env q) (\<lambda>d s. if rd_value d = door_code DOOR_OPEN then s
      else mon_post1 (ctl_env q) MOTION_SCAN_ON (s\<lparr>mon_polling := False\<rparr>)) s"
    using assms(1,2,4) by (simp add: door_exec_def door_poll_def state_simps)
  from assms(3) consider "q = Door_open_wait" | "q = Scan_cmd" | "q = Exited" by auto
  then show ?thesis
    using assms(1,2)
    by cases (simp_all add: t lands_def read_sensor_def get_value_ctl_env exit_process_def
      mon_post_ok(1) [where es = "[]"] frame_simps state_simps live_phase_def)
qed

lemma land_ecu_down:
  assumes "in_phase Ecu_down s" "threads_up s" "q \<in> {Rebooted, Crippled}"
    and "door_exec Monitor_pass (ctl_env q) s = Some t"
  shows "lands q t"
  using assms env_ok_ctl_env [of q]
  by (auto simp: lands_def door_exec_def monitor_pass_def get_messageFromQ_def Let_def monitor_dispatch_def
      process_reboot_def cancel_threads_eq ctl_env_def state_simps split: if_splits)

lemma branch_lands:
  assumes "in_phase p s" "threads_up s" "ctl_step (p, n) (q, k)"
    and "p \<in> {Scanning, Measure_cmd, Ring_reported, Door_open_wait, Ecu_down}"
    and "door_exec (next_action p) (ctl_env q) s = Some t"
  shows "phase_of t = q"
proof (rule lands_phase_of)
  show "lands q t"
    using assms(3,4) assms(1,2,5)
    by (elim ctl_stepE) (auto intro: land_scanning land_measure land_ring_reported land_door_open land_ecu_down)
qed

inductive_simps ctl_step_simps [simp]:
  "ctl_step (Scan_cmd, n) c" "ctl_step (Motion_seen, n) c" "ctl_step (Dist_ok, n) c" "ctl_step (Dist_bad, n) c"
  "ctl_step (Ring_cmd, n) c" "ctl_step (Ringing, n) c" "ctl_step (Ring_done, n) c" "ctl_step (Door_wait, n) c"
  "ctl_step (Wait_over, n) c" "ctl_step (Retry_end, n) c" "ctl_step (Reset_wait, n) c" "ctl_step (Stuck, n) c"
  "ctl_step (Crippled, n) c" "ctl_step (Exited, n) c" "ctl_step (Rebooted, n) c"

lemma ctl_step_source: "ctl_step (p, n) c \<Longrightarrow> live_phase p \<and> p \<noteq> Stuck"
  by (cases p) (auto simp: live_phase_def)

lemma ctl_step_count:
  "ctl_step (p, n) (q, k) \<Longrightarrow> k = (if p = Door_wait then n + 1 else n)"
  by (auto elim: ctl_stepE)

lemma ctl_step_unique:
  "ctl_step (p, n) c \<Longrightarrow> ctl_step (p, n) d \<Longrightarrow>
     p \<notin> {Scanning, Measure_cmd, Ring_reported, Door_open_wait, Ecu_down} \<Longrightarrow> c = d"
  by (cases p) auto

lemma ctl_step_realised:
  assumes "door_reach s" and "ctl_step (ctl_of s) c"
  shows "\<exists>a e t. env_ok e \<and> door_exec a e s = Some t \<and> ctl_of t = c"
proof -
  obtain q k where c: "c = (q, k)" by (cases c)
  have src: "live_phase (phase_of s)" "phase_of s \<noteq> Stuck"
    using ctl_step_source assms(2) by (auto simp: ctl_of_def)
  have inv: "door_inv s" using door_reach_inv [OF assms(1)] by simp
  then have ph: "in_phase (phase_of s) s" "threads_up s" using src(1) by (simp_all add: door_inv_def)
  obtain t where t: "door_exec (next_action (phase_of s)) (ctl_env q) s = Some t"
    using live_progress [OF ph(1) src(1) ph(2) src(2) env_ok_ctl_env] by blast
  have st: "ctl_step (ctl_of s) (ctl_of t)" using door_inv_step [OF inv env_ok_ctl_env t] by simp
  have "ctl_of t = c"
  proof (cases "phase_of s \<in> {Scanning, Measure_cmd, Ring_reported, Door_open_wait, Ecu_down}")
    case True
    from branch_lands [OF ph _ True t] assms(2) c have "phase_of t = q" by (auto simp: ctl_of_def)
    with st assms(2) c show ?thesis by (auto simp: ctl_of_def dest!: ctl_step_count)
  next
    case False
    with st assms(2) show ?thesis unfolding ctl_of_def by (blast dest: ctl_step_unique)
  qed
  with t show ?thesis by (auto intro: env_ok_ctl_env)
qed

theorem door_refines_controller_witness:
  "\<exists>t. door_exec Motion_read (quiet_env None) sample_start = Some t \<and> ctl_step (ctl_of sample_start) (ctl_of t)"
  using motion_read_run [OF sample_phase(1,2) env_ok_quiet [of None]]
    door_refines_controller [OF sample_reach env_ok_quiet [of None], of Motion_read] by blast

text \<open>
  C2. Conversely every step of the controller is taken by the code: in a reachable state, for
  each controller step from its phase there are a thread or timer handler and answers of the
  system with which that pass runs and ends in exactly the target phase and counter.  With the
  refinement this makes the controller bisimilar to the running program.
\<close>

theorem door_realises_controller:
  assumes "door_reach s" and "ctl_step (ctl_of s) c"
  shows "\<exists>a e t. env_ok e \<and> door_exec a e s = Some t \<and> ctl_of t = c"
  using assms by (rule ctl_step_realised)

theorem door_realises_controller_witness:
  "\<exists>a e t. env_ok e \<and> door_exec a e sample_start = Some t \<and> ctl_of t = (Scanning, 0)"
  by (rule door_realises_controller [OF sample_reach])
    (use sample_phase phase_of_live [of Scan_cmd sample_start] in \<open>simp add: ctl_of_def live_phase_def\<close>)

lemma ctl_path:
  "ctl_step\<^sup>*\<^sup>* (ctl_of s) c \<Longrightarrow> door_reach s \<Longrightarrow>
     \<exists>xs t. list_all (\<lambda>x. env_ok (snd x)) xs \<and> door_run xs s = Some t \<and> ctl_of t = c \<and> door_reach t"
proof (induction "ctl_of s" arbitrary: s rule: converse_rtranclp_induct)
  case base
  then show ?case by (intro exI [of _ "[]"]) auto
next
  case (step d)
  obtain a e t where t: "env_ok e" "door_exec a e s = Some t" "ctl_of t = d"
    using ctl_step_realised [OF step.prems step.hyps(1)] by blast
  moreover have "door_reach t" using step.prems t by (auto intro: door_reach.step)
  ultimately obtain xs u where "list_all (\<lambda>x. env_ok (snd x)) xs" "door_run xs t = Some u"
      "ctl_of u = c" "door_reach u"
    using step.hyps(3) [of t] by blast
  with t show ?case by (intro exI [of _ "(a, e) # xs"] exI [of _ u]) simp
qed

end
