(* ===== verification/Door_Properties.thy ===== *)
theory Door_Properties
  imports Door_System
begin

text \<open>
  Properties of runs of the door bell: what has to happen before the bell rings, what makes
  it ring, the retry counter, the commands each channel carries, and the two ways out of the
  single-token discipline (an unknown door status, a failed receive).
\<close>

section \<open>When the bell rings\<close>

text \<open>The states a run can be in before the first valid distance was measured.\<close>

definition before_ring :: "phase \<Rightarrow> bool" where
  "before_ring p \<longleftrightarrow> p \<in> {Scan_cmd, Scanning, Motion_seen, Measure_cmd, Dist_bad, Ecu_down, Crippled, Exited, Rebooted}"

definition measured_valid :: "door_action \<times> sys_env \<Rightarrow> bool" where
  "measured_valid x \<longleftrightarrow> fst x = Distance_pass
     \<and> (\<exists>d. get_value (env_file (snd x)) (env_fclose (snd x)) = Inr d
            \<and> rd_status d = ecu_code ECU_WORKING \<and> 4 \<le> rd_value d \<and> rd_value d \<le> 8)"

lemma measure_only_distance:
  assumes "in_phase Measure_cmd s" "env_ok e" "door_exec a e s = Some t"
  shows "a = Distance_pass"
  using assms
  by (cases a) (simp_all add: state_simps door_exec_def motion_read_def read_event_def motion_poll_def
      bell_pass_def monitor_pass_def get_messageFromQ_def door_poll_def on_expiry_def timer_fire_def
      split: if_splits)

lemma distance_valid_if:
  assumes "in_phase Measure_cmd s" "threads_up s" "env_ok e" "door_exec Distance_pass e s = Some t"
    and "in_phase Dist_ok t" "proc t = Proc_running"
  shows "measured_valid (Distance_pass, e)"
proof -
  have len: "length (memset (dist_buf s) NUL MAX_MESSAGE_SIZE) = MAX_MESSAGE_SIZE"
    using assms by (simp add: memset_def threads_up_def)
  have t: "t = read_sensor e (\<lambda>d s. postQ e (distance_event d) s)
      (s\<lparr>pipe_t2 := [], dist_buf := frame_of CALC_DISTANCE\<rparr>)"
    using assms(1-4) len
    by (auto simp: door_exec_def distance_pass_def state_simps read_event_pipe_of frame_simps Let_def
        commands_def split: if_splits)
  show ?thesis
  proof (cases "get_value (env_file e) (env_fclose e)")
    case (Inl c)
    with assms(6) show ?thesis by (simp add: t read_sensor_def exit_process_def)
  next
    case (Inr d)
    with assms(1,3,5) have "distance_event d = VALID_DISTANCE"
      by (simp add: t read_sensor_def postQ_ok state_simps)
    with Inr show ?thesis
      by (auto simp: measured_valid_def distance_event_def MIN_DISTANCE_def MAX_DISTANCE_def split: if_splits)
  qed
qed

lemma before_ring_step:
  assumes "door_inv s" "before_ring (phase_of s)" "env_ok e" "door_exec a e s = Some t"
    and "\<not> measured_valid (a, e)"
  shows "before_ring (phase_of t)"
proof (rule ccontr)
  assume "\<not> before_ring (phase_of t)"
  moreover have st: "ctl_step (ctl_of s) (ctl_of t)" and inv: "door_inv t"
    using door_inv_step [OF assms(1,3,4)] by auto
  ultimately have p: "phase_of s = Measure_cmd" "phase_of t = Dist_ok"
    using assms(2) by (auto simp: ctl_of_def before_ring_def elim!: ctl_stepE)
  with assms(1) inv have s: "in_phase Measure_cmd s" "threads_up s" and t: "in_phase Dist_ok t" "threads_up t"
    by (simp_all add: door_inv_def live_phase_def)
  have "a = Distance_pass" by (rule measure_only_distance [OF s(1) assms(3,4)])
  with distance_valid_if [OF s assms(3) _ t(1)] assms(4,5) t(2) show False
    by (simp add: threads_up_def)
qed

lemma before_ring_run:
  "door_reach s \<Longrightarrow> before_ring (phase_of s) \<Longrightarrow> list_all (\<lambda>x. env_ok (snd x)) xs \<Longrightarrow>
   door_run xs s = Some t \<Longrightarrow> \<forall>x \<in> set xs. \<not> measured_valid x \<Longrightarrow> before_ring (phase_of t)"
  using door_run_inv [of xs s t "\<lambda>s. door_reach s \<and> before_ring (phase_of s)"] before_ring_step door_reach_inv
  by (blast intro: door_reach.step)

text \<open>
  C4. The bell never rings without a visitor in range: in every run from the start of the
  monitor in which the system calls work, if the bell timer is running at the end, then some
  pass of the distance thread in that run read a working sensor with a distance of 4 to 8.
\<close>

theorem bell_needs_valid_distance:
  assumes "good_main m" and "door_main m = Inr s" and "env_ok e0"
    and "list_all (\<lambda>x. env_ok (snd x)) xs" and "door_run xs (monitor_start e0 s) = Some t"
    and "proc t = Proc_running" and "bell_armed t"
  shows "\<exists>e d. (Distance_pass, e) \<in> set xs \<and> get_value (env_file e) (env_fclose e) = Inr d
    \<and> rd_status d = ecu_code ECU_WORKING \<and> 4 \<le> rd_value d \<and> rd_value d \<le> 8"
proof (rule ccontr)
  assume no: "\<not> ?thesis"
  have init: "door_reach (monitor_start e0 s)" using assms(1-3) by (rule door_reach.start)
  have "phase_of (monitor_start e0 s) = Scan_cmd"
    using door_main_good [OF assms(1-3)] by (simp add: phase_of_live live_phase_def)
  moreover from no have "\<forall>x \<in> set xs. \<not> measured_valid x" by (auto simp: measured_valid_def)
  ultimately have "before_ring (phase_of t)"
    using before_ring_run [OF init _ assms(4,5)] by (simp add: before_ring_def)
  moreover have "door_reach t" by (rule door_run_reach [OF init assms(4,5)])
  ultimately show False
    using running_phase [of t] assms(6,7)
    by (cases "phase_of t") (auto simp: before_ring_def holds_def)
qed

lemma scanning_phase:
  "in_phase p s \<Longrightarrow> live_phase p \<or> p = Crippled \<Longrightarrow> mot_scanning s \<Longrightarrow> p = Scanning"
  by (cases p) (simp_all add: holds_def live_phase_def)

text \<open>
  C5. A visitor rings the bell: whenever the motion thread is polling and its sensor, working,
  reports motion, and the distance sensor then reads 4 to 8, the five passes motion, monitor,
  distance, monitor, bell all run and end with the three-second bell timer armed.
\<close>

theorem visitor_rings_bell:
  assumes "door_reach s" and "proc s = Proc_running" and "mot_scanning s"
    and "\<forall>e \<in> {e1, e2, e3, e4, e5}. env_ok e"
    and "env_file e1 = Some (sensor_text 1 0)" and "env_file e3 = Some (sensor_text v 0)" and "4 \<le> v" and "v \<le> 8"
  shows "\<exists>t. door_run [(Motion_poll, e1), (Monitor_pass, e2), (Distance_pass, e3), (Monitor_pass, e4), (Bell_pass, e5)] s
      = Some t \<and> timers t (door_bell_timer_id t) = Some 3 \<and> outstanding t = 1"
proof -
  have "phase_of s = Scanning"
    using running_phase [OF assms(1,2)] scanning_phase [OF _ _ assms(3)] by blast
  then have s: "in_phase Scanning s" "threads_up s"
    using running_phase [OF assms(1,2)] by auto
  have v: "get_value (env_file e1) True = Inr \<lparr>rd_value = 1, rd_status = 0\<rparr>"
      "get_value (env_file e3) True = Inr \<lparr>rd_value = int v, rd_status = 0\<rparr>"
    using assms(5-8) by (simp_all add: get_value_digits)
  have d: "distance_event \<lparr>rd_value = int v, rd_status = 0\<rparr> = VALID_DISTANCE"
    using assms(7,8) by (simp add: distance_event_def MIN_DISTANCE_def MAX_DISTANCE_def)
  obtain a where a: "door_exec Motion_poll e1 s = Some a" "in_phase Motion_seen a" "threads_up a"
    using motion_poll_run [OF s _ v(1)] assms(4) by auto
  obtain b where b: "door_exec Monitor_pass e2 a = Some b" "in_phase Measure_cmd b" "threads_up b"
    using monitor_measure_run [OF a(2,3), of e2] assms(4) by auto
  obtain c where c: "door_exec Distance_pass e3 b = Some c" "in_phase Dist_ok c" "threads_up c"
    using distance_run [OF b(2,3) _ v(2) d] assms(4) by auto
  obtain f where f: "door_exec Monitor_pass e4 c = Some f" "in_phase Ring_cmd f" "threads_up f"
    using monitor_ring_run [OF c(2,3), of e4] assms(4) by auto
  obtain t where t: "door_exec Bell_pass e5 f = Some t" "in_phase Ringing t"
      "timers t (door_bell_timer_id t) = Some 3"
    using bell_ring_run [OF f(2,3), of e5] assms(4) by auto
  from a b c f t show ?thesis
    using outstanding_phase [of Ringing t] by (simp add: live_phase_def)
qed

text \<open>A reachable state in which the three retries are used up and the scan has been resumed.\<close>

lemma exhausted_path: "ctl_step\<^sup>*\<^sup>* (Scan_cmd, 0) (Scanning, 3)"
proof -
  have ring: "ctl_step\<^sup>*\<^sup>* (Ring_cmd, n) (Door_wait, n)" for n
    by (rule converse_rtranclp_into_rtranclp, rule ctl_step.ring,
        rule converse_rtranclp_into_rtranclp, rule ctl_step.ring_over,
        rule converse_rtranclp_into_rtranclp, rule ctl_step.report,
        rule converse_rtranclp_into_rtranclp, rule ctl_step.door_closed, rule rtranclp.rtrancl_refl)
  have again: "ctl_step\<^sup>*\<^sup>* (Door_wait, n) (Door_wait, n + 1)" if "sint (n + 1) < 3" for n :: s32
  proof -
    from that have "ctl_step (Door_wait, n) (Wait_over, n + 1)" by simp
    moreover have "ctl_step (Wait_over, n + 1) (Ring_cmd, n + 1)" by simp
    ultimately show ?thesis using ring [of "n + 1"] by (meson converse_rtranclp_into_rtranclp)
  qed
  have "ctl_step\<^sup>*\<^sup>* (Scan_cmd, 0) (Ring_cmd, 0)"
    by (rule converse_rtranclp_into_rtranclp, rule ctl_step.scan,
        rule converse_rtranclp_into_rtranclp, rule ctl_step.motion,
        rule converse_rtranclp_into_rtranclp, rule ctl_step.ask_distance,
        rule converse_rtranclp_into_rtranclp, rule ctl_step.in_range,
        rule converse_rtranclp_into_rtranclp, rule ctl_step.ask_ring, rule rtranclp.rtrancl_refl)
  also note ring
  also have "ctl_step\<^sup>*\<^sup>* (Door_wait, 0) (Door_wait, 1)" using again [of 0] by simp
  also have "ctl_step\<^sup>*\<^sup>* (Door_wait, 1) (Door_wait, 2)" using again [of 1] by simp
  also have "ctl_step\<^sup>*\<^sup>* (Door_wait, 2) (Retry_end, 3)" by (rule r_into_rtranclp) simp
  also have "ctl_step\<^sup>*\<^sup>* (Retry_end, 3) (Scanning, 3)"
    by (rule converse_rtranclp_into_rtranclp, rule ctl_step.pause,
        rule converse_rtranclp_into_rtranclp, rule ctl_step.reset,
        rule converse_rtranclp_into_rtranclp, rule ctl_step.scan, rule rtranclp.rtrancl_refl)
  finally show ?thesis .
qed

lemma ctl_of_sample: "ctl_of sample_start = (Scan_cmd, 0)"
  using sample_phase phase_of_live [of Scan_cmd sample_start] by (simp add: ctl_of_def live_phase_def)

lemma exhausted_reachable:
  "\<exists>s. door_reach s \<and> in_phase Scanning s \<and> threads_up s \<and> door_wait_expiry_count s = 3"
proof -
  obtain s where s: "door_reach s" "ctl_of s = (Scanning, 3)"
    using ctl_path [of sample_start] exhausted_path ctl_of_sample sample_reach by metis
  with door_reach_inv [of s] have "in_phase Scanning s" "threads_up s" "door_wait_expiry_count s = 3"
    by (auto simp: ctl_of_def door_inv_def live_phase_def)
  with s(1) show ?thesis by blast
qed

theorem visitor_rings_bell_witness:
  "\<exists>s t. door_reach s \<and> door_run [(Motion_poll, quiet_env (Some (sensor_text 1 0))), (Monitor_pass, quiet_env None),
     (Distance_pass, quiet_env (Some (sensor_text 6 0))), (Monitor_pass, quiet_env None),
     (Bell_pass, quiet_env None)] s = Some t"
proof -
  obtain s where s: "door_reach s" "in_phase Scanning s" "threads_up s"
    using exhausted_reachable by blast
  then show ?thesis
    using visitor_rings_bell [of s "quiet_env (Some (sensor_text 1 0))" "quiet_env None"
        "quiet_env (Some (sensor_text 6 0))" "quiet_env None" "quiet_env None" 6]
    by (auto simp: threads_up_def holds_def quiet_env_def env_ok_def)
qed

lemma wait_timer_alone:
  assumes "in_phase p s" "threads_up s" "env_ok e" "door_exec a e s = Some t"
  shows "a = Wait_timer \<longleftrightarrow> p = Door_wait"
  using assms
  by (cases p; cases a) (auto simp: state_simps door_exec_def motion_read_def read_event_def motion_poll_def
      distance_pass_def bell_pass_def monitor_pass_def get_messageFromQ_def door_poll_def
      on_expiry_def timer_fire_def)

lemma count_step:
  assumes "door_reach s" "env_ok e" "door_exec a e s = Some t"
  shows "door_wait_expiry_count t = door_wait_expiry_count s + (if a = Wait_timer then 1 else 0)"
proof -
  have inv: "door_inv s" using door_reach_inv [OF assms(1)] by simp
  have st: "ctl_step (phase_of s, door_wait_expiry_count s) (phase_of t, door_wait_expiry_count t)"
    using door_inv_step [OF inv assms(2,3)] by (simp add: ctl_of_def)
  with ctl_step_source have "live_phase (phase_of s)" by blast
  with inv have "in_phase (phase_of s) s" "threads_up s" by (simp_all add: door_inv_def)
  with wait_timer_alone [OF _ _ assms(2,3)] ctl_step_count [OF st] show ?thesis by simp
qed

definition expiries :: "(door_action \<times> sys_env) list \<Rightarrow> nat" where
  "expiries xs = length (filter (\<lambda>x. fst x = Wait_timer) xs)"

lemma count_run:
  "door_reach s \<Longrightarrow> list_all (\<lambda>x. env_ok (snd x)) xs \<Longrightarrow> door_run xs s = Some t \<Longrightarrow>
     door_wait_expiry_count t = door_wait_expiry_count s + of_nat (expiries xs)"
proof (induction xs arbitrary: s)
  case Nil
  then show ?case by (simp add: expiries_def)
next
  case (Cons x xs)
  obtain a e where x: "x = (a, e)" by (cases x)
  with Cons.prems obtain u where u: "env_ok e" "door_exec a e s = Some u" "door_run xs u = Some t"
    by (auto split: option.splits)
  with Cons.prems x have "door_reach u" by (auto intro: door_reach.step)
  with Cons.IH [of u] Cons.prems u x count_step [OF Cons.prems(1) u(1,2)] show ?case
    by (simp add: expiries_def)
qed

lemma retry_phase:
  "in_phase p s \<Longrightarrow> live_phase p \<or> p = Crippled \<Longrightarrow> p \<noteq> Wait_over \<Longrightarrow>
     event_msg DOOR_WAIT_EXPIRY \<notin> set (msgQ s)"
  by (cases p) (simp_all add: holds_def live_phase_def)

text \<open>
  C10. The retry counter counts every expired wait since the program was started and is never reset:
  as long as it does not reach the end of its 32 bits, its value after a run is its value before plus
  the number of expiries in the run; so once three waits have expired, no further ring is requested
  when the door stays closed, neither for later visitors nor after the ten minute reset.
\<close>

theorem retries_never_reset:
  assumes "door_reach s" and "list_all (\<lambda>x. env_ok (snd x)) xs" and "door_run xs s = Some t"
    and "sint (door_wait_expiry_count s) + int (expiries xs) < 2 ^ 31"
  shows "sint (door_wait_expiry_count t) = sint (door_wait_expiry_count s) + int (expiries xs)
    \<and> (3 \<le> sint (door_wait_expiry_count s) \<longrightarrow> proc t = Proc_running \<longrightarrow> event_msg DOOR_WAIT_EXPIRY \<notin> set (msgQ t))"
proof -
  have t: "door_reach t" by (rule door_run_reach [OF assms(1-3)])
  have c: "sint (door_wait_expiry_count t) = sint (door_wait_expiry_count s) + int (expiries xs)"
    using count_run [OF assms(1-3)] sint_s32_add [OF _ assms(4)] by simp
  have "event_msg DOOR_WAIT_EXPIRY \<notin> set (msgQ t)" if "3 \<le> sint (door_wait_expiry_count s)" "proc t = Proc_running"
  proof -
    have "phase_of t \<noteq> Wait_over" using door_reach_inv [OF t] c that(1) by auto
    with running_phase [OF t that(2)] retry_phase [of "phase_of t" t] show ?thesis by auto
  qed
  with c show ?thesis by blast
qed

text \<open>Behind the end of its 32 bits the counter is negative, and a wait that expires is retried again.\<close>

lemma overflow_revives_retries:
  assumes "in_phase Door_wait s" "env_ok e" "door_wait_expiry_count s = 2147483647"
  shows "msgQ (door_open_wait_expiry e s) = [event_msg DOOR_WAIT_EXPIRY]"
  using assms by (simp add: door_open_wait_expiry_def Let_def postQ_ok holds_def env_ok_def)

theorem retries_never_reset_witness:
  "\<exists>s t. door_reach s \<and> mot_scanning s
     \<and> door_run [(Motion_poll, quiet_env (Some (sensor_text 1 0)))] s = Some t
     \<and> sint (door_wait_expiry_count t) = 3 \<and> event_msg DOOR_WAIT_EXPIRY \<notin> set (msgQ t)"
proof -
  obtain s where s: "door_reach s" "in_phase Scanning s" "threads_up s" "door_wait_expiry_count s = 3"
    using exhausted_reachable by blast
  have v: "get_value (env_file (quiet_env (Some (sensor_text 1 0)))) True = Inr \<lparr>rd_value = 1, rd_status = 0\<rparr>"
    by (simp add: quiet_env_def get_value_digits)
  obtain t where t: "door_exec Motion_poll (quiet_env (Some (sensor_text 1 0))) s = Some t" "threads_up t"
    using motion_poll_run [OF s(2,3) env_ok_quiet v] by blast
  then have "door_run [(Motion_poll, quiet_env (Some (sensor_text 1 0)))] s = Some t" by simp
  with retries_never_reset [OF s(1) _ this] s t(2) show ?thesis
    by (auto simp: threads_up_def holds_def expiries_def)
qed

lemma ringing_run:
  "\<exists>xs t. list_all (\<lambda>x. env_ok (snd x)) xs \<and> door_run xs sample_start = Some t \<and> in_phase Ringing t \<and> threads_up t"
proof -
  have "ctl_step\<^sup>*\<^sup>* (Scan_cmd, 0) (Ringing, 0)"
    by (rule converse_rtranclp_into_rtranclp, rule ctl_step.scan,
        rule converse_rtranclp_into_rtranclp, rule ctl_step.motion,
        rule converse_rtranclp_into_rtranclp, rule ctl_step.ask_distance,
        rule converse_rtranclp_into_rtranclp, rule ctl_step.in_range,
        rule converse_rtranclp_into_rtranclp, rule ctl_step.ask_ring,
        rule converse_rtranclp_into_rtranclp, rule ctl_step.ring, rule rtranclp.rtrancl_refl)
  then obtain xs t where t: "list_all (\<lambda>x. env_ok (snd x)) xs" "door_run xs sample_start = Some t"
      "ctl_of t = (Ringing, 0)" "door_reach t"
    using ctl_path [of sample_start] ctl_of_sample sample_reach by metis
  with door_reach_inv [of t] show ?thesis
    by (auto simp: ctl_of_def door_inv_def live_phase_def)
qed

theorem bell_needs_valid_distance_witness:
  "\<exists>xs t e d. door_run xs sample_start = Some t \<and> bell_armed t \<and> (Distance_pass, e) \<in> set xs
     \<and> get_value (env_file e) (env_fclose e) = Inr d \<and> 4 \<le> rd_value d \<and> rd_value d \<le> 8"
proof -
  obtain s where s: "door_main sample_main = Inr s" using sample_main_ok(2) by blast
  then have start: "sample_start = monitor_start (quiet_env None) s" by (simp add: sample_start_def)
  obtain xs t where t: "list_all (\<lambda>x. env_ok (snd x)) xs" "door_run xs sample_start = Some t"
      "in_phase Ringing t" "threads_up t"
    using ringing_run by blast
  then have "proc t = Proc_running" "bell_armed t" by (simp_all add: threads_up_def holds_def)
  with bell_needs_valid_distance [OF sample_main_ok(1) s env_ok_quiet t(1) _ this] t(2) start
  show ?thesis by metis
qed

section \<open>Back to scanning\<close>

text \<open>The steps of the controller that are left before the motion sensor is polled again.\<close>

primrec rank :: "phase \<Rightarrow> int \<Rightarrow> nat" where
  "rank Scan_cmd n = 1"
| "rank Scanning n = 0"
| "rank Motion_seen n = 11 + 6 * nat (2 - n)"
| "rank Measure_cmd n = 10 + 6 * nat (2 - n)"
| "rank Dist_ok n = 9 + 6 * nat (2 - n)"
| "rank Dist_bad n = 2"
| "rank Ecu_down n = 1"
| "rank Ring_cmd n = 8 + 6 * nat (2 - n)"
| "rank Ringing n = 7 + 6 * nat (2 - n)"
| "rank Ring_done n = 6 + 6 * nat (2 - n)"
| "rank Ring_reported n = 5 + 6 * nat (2 - n)"
| "rank Door_open_wait n = 2"
| "rank Door_wait n = 4 + 6 * nat (2 - n)"
| "rank Wait_over n = 9 + 6 * nat (2 - n)"
| "rank Retry_end n = 3"
| "rank Reset_wait n = 2"
| "rank Stuck n = 0"
| "rank Crippled n = 0"
| "rank Exited n = 0"
| "rank Rebooted n = 0"

lemma rank_step:
  assumes "ctl_step (p, n) (q, k)" "p \<noteq> Scanning" "p = Door_wait \<longrightarrow> sint n < 2 ^ 31 - 1"
  shows "(if p = Door_open_wait then 0 else 1) + rank q (sint k) \<le> rank p (sint n)"
proof (cases "p = Door_wait")
  case True
  then have "sint (n + 1) = sint n + 1" using sint_s32_add [of 1 n] assms(3) by simp
  with assms(1) True show ?thesis by (auto elim!: ctl_stepE)
next
  case False
  with assms(1,2) show ?thesis by (elim ctl_stepE) auto
qed

lemma rank_le: "0 \<le> n \<Longrightarrow> rank p n \<le> 23"
  by (cases p) auto

lemma polling_alone:
  assumes "in_phase p s" "threads_up s" "env_ok e" "door_exec a e s = Some t"
  shows "(a = Motion_poll \<longleftrightarrow> p = Scanning) \<and> (a = Door_poll \<longleftrightarrow> p = Door_open_wait)"
  using assms
  by (cases p; cases a) (auto simp: state_simps door_exec_def motion_read_def read_event_def motion_poll_def
      distance_pass_def bell_pass_def monitor_pass_def get_messageFromQ_def door_poll_def
      on_expiry_def timer_fire_def)

text \<open>A wait that expires uses up a step of the rank, so the counter stays below what both add up to.\<close>

definition far_from_overflow :: "door_state \<Rightarrow> bool" where
  "far_from_overflow s \<longleftrightarrow> 0 \<le> sint (door_wait_expiry_count s)
     \<and> sint (door_wait_expiry_count s) + int (rank (phase_of s) (sint (door_wait_expiry_count s))) < 2 ^ 31"

lemma rank_exec:
  assumes r: "door_reach s" and e: "env_ok e" "door_exec a e s = Some t" "a \<noteq> Motion_poll" and far: "far_from_overflow s"
  shows "far_from_overflow t \<and> (if a = Door_poll then 0 else 1) + rank (phase_of t) (sint (door_wait_expiry_count t))
    \<le> rank (phase_of s) (sint (door_wait_expiry_count s))"
proof -
  have inv: "door_inv s" using door_reach_inv [OF r] by simp
  have st: "ctl_step (phase_of s, door_wait_expiry_count s) (phase_of t, door_wait_expiry_count t)"
    using door_inv_step [OF inv e(1,2)] by (simp add: ctl_of_def)
  with ctl_step_source have "live_phase (phase_of s)" by blast
  with inv have ph: "in_phase (phase_of s) s" "threads_up s" by (simp_all add: door_inv_def)
  have w: "phase_of s = Door_wait \<longrightarrow> sint (door_wait_expiry_count s) < 2 ^ 31 - 1"
    using far by (auto simp: far_from_overflow_def split: if_splits)
  have d: "(if a = Door_poll then 0 else 1) + rank (phase_of t) (sint (door_wait_expiry_count t))
      \<le> rank (phase_of s) (sint (door_wait_expiry_count s))"
    using polling_alone [OF ph e(1,2)] e(3) rank_step [OF st _ w] by auto
  have "sint (door_wait_expiry_count t) = sint (door_wait_expiry_count s) + (if a = Wait_timer then 1 else 0)"
    using count_step [OF r e(1,2)] sint_s32_add [of 1 "door_wait_expiry_count s"] w wait_timer_alone [OF ph e(1,2)] by auto
  with d far show ?thesis by (auto simp: far_from_overflow_def split: if_splits)
qed

lemma sum_weights: "sum_list (map (\<lambda>x. if P x then 0 else 1) xs) = length (filter (\<lambda>x. \<not> P x) xs)"
  by (induction xs) auto

text \<open>
  C6. The door bell gets back to its sensors: from any reachable state whose retry counter is not within
  23 of the end of its 32 bits, and whatever the sensors and the door report, at most 23 passes and timer
  handlers run, apart from polls of an open door, before the motion sensor is polled again.  It can stop
  before that only where nothing is outstanding any more or the process has ended: as long as the process
  runs, something is outstanding and neither sensor is being polled, another pass or handler can run.
\<close>

theorem scan_resumed:
  assumes "door_reach s" and "list_all (\<lambda>x. env_ok (snd x)) xs" and "door_run xs s = Some t"
    and "\<forall>x \<in> set xs. fst x \<noteq> Motion_poll"
    and "0 \<le> sint (door_wait_expiry_count s)" and "sint (door_wait_expiry_count s) + 23 < 2 ^ 31"
  shows "length (filter (\<lambda>x. fst x \<noteq> Door_poll) xs) \<le> 23
    \<and> (mot_scanning t \<or> mon_polling t \<or> outstanding t = 0 \<or> proc t \<noteq> Proc_running
       \<or> (\<exists>a e u. a \<notin> {Motion_poll, Door_poll} \<and> env_ok e \<and> door_exec a e t = Some u))"
proof
  define f where "f s = rank (phase_of s) (sint (door_wait_expiry_count s))" for s
  have le: "f s \<le> 23" using rank_le [OF assms(5)] by (simp add: f_def)
  then have far: "door_reach s \<and> far_from_overflow s"
    using assms(1,5,6) by (simp add: far_from_overflow_def f_def)
  have "(door_reach v \<and> far_from_overflow v) \<and> (if fst x = Door_poll then 0 else 1) + f v \<le> f u"
    if "x \<in> set xs" "door_reach u \<and> far_from_overflow u" "(case x of (a, e) \<Rightarrow> door_exec a e) u = Some v" for x u v
    using that assms(2,4) rank_exec [of u "snd x" "fst x" v] door_reach.step [of u "snd x" "fst x" v]
    by (auto simp: list_all_iff f_def split: prod.splits)
  from door.run_weight [of xs s t "\<lambda>s. door_reach s \<and> far_from_overflow s" "\<lambda>x. if fst x = Door_poll then 0 else 1" f,
      OF assms(3) far this]
  have "length (filter (\<lambda>x. fst x \<noteq> Door_poll) xs) + f t \<le> f s"
    unfolding sum_weights .
  with le show "length (filter (\<lambda>x. fst x \<noteq> Door_poll) xs) \<le> 23" by simp
  have t: "door_reach t" by (rule door_run_reach [OF assms(1-3)])
  show "mot_scanning t \<or> mon_polling t \<or> outstanding t = 0 \<or> proc t \<noteq> Proc_running
       \<or> (\<exists>a e u. a \<notin> {Motion_poll, Door_poll} \<and> env_ok e \<and> door_exec a e t = Some u)"
  proof (cases "proc t = Proc_running \<and> outstanding t \<noteq> 0")
    case True
    then have p: "in_phase (phase_of t) t" "live_phase (phase_of t)" "threads_up t" "phase_of t \<noteq> Stuck"
      using running_phase [OF t] outstanding_phase [of "phase_of t" t] by auto
    show ?thesis
    proof (cases "phase_of t = Scanning \<or> phase_of t = Door_open_wait")
      case True
      with p(1) show ?thesis by (auto simp: holds_def)
    next
      case False
      obtain u where u: "door_exec (next_action (phase_of t)) (quiet_env None) t = Some u"
        using live_progress [OF p(1-3) p(4) env_ok_quiet] by blast
      from polling_alone [OF p(1,3) env_ok_quiet u] False u show ?thesis by (metis env_ok_quiet insertE singletonD)
    qed
  qed auto
qed

theorem scan_resumed_witness:
  "\<exists>t. door_run [(Motion_read, quiet_env None)] sample_start = Some t \<and> mot_scanning t
     \<and> length (filter (\<lambda>x. fst x \<noteq> Door_poll) [(Motion_read, quiet_env None)]) \<le> 23"
proof -
  obtain t where t: "door_exec Motion_read (quiet_env None) sample_start = Some t" "in_phase Scanning t"
    using motion_read_run [OF sample_phase(1,2) env_ok_quiet] by blast
  then have "door_run [(Motion_read, quiet_env None)] sample_start = Some t" by simp
  with scan_resumed [OF sample_reach _ this] t(2) sample_phase(3) show ?thesis by (simp add: holds_def)
qed

section \<open>The protocol on the channels\<close>

lemma channel_phase:
  assumes "in_phase p s" and "live_phase p \<or> p = Crippled"
  shows "set (pipe_contents (pipe_t1 s)) \<subseteq> {MOTION_SCAN_ON} \<and> set (pipe_contents (pipe_t2 s)) \<subseteq> {CALC_DISTANCE}
    \<and> set (pipe_contents (pipe_t3 s)) \<subseteq> {RING_BELL, RING_BELL_EXPIRY}
    \<and> msg_event ` set (msgQ s) \<subseteq> event_code ` {MOTION_DETECTED, VALID_DISTANCE, INVALID_DISTANCE,
        RING_BELL_EXPIRY, ECU_NOT_WORKING, DOOR_WAIT_EXPIRY, DOOR_WAIT_RETRY_END}"
proof -
  have e: "pipe_contents [] = []" by (simp add: pipe_contents_def)
  have m: "pipe_contents (pipe_of [c]) = [c]" if "c \<in> set commands" for c
    using that by (simp add: pipe_contents_pipe_of)
  show ?thesis
    using assms by (cases p) (simp_all add: holds_def live_phase_def e m commands_def)
qed

text \<open>
  C8. No thread ever sees a command it does not expect: in every reachable state of the running
  process the motion pipe carries only MOTION_SCAN_ON, the distance pipe only CALC_DISTANCE, the
  bell pipe only RING_BELL and RING_BELL_EXPIRY, and the queue only events the monitor handles,
  so the default branches of the four threads are dead code as long as system calls succeed.
\<close>

theorem channels_typed:
  assumes "door_reach s" and "proc s = Proc_running"
  shows "set (pipe_contents (pipe_t1 s)) \<subseteq> {MOTION_SCAN_ON} \<and> set (pipe_contents (pipe_t2 s)) \<subseteq> {CALC_DISTANCE}
    \<and> set (pipe_contents (pipe_t3 s)) \<subseteq> {RING_BELL, RING_BELL_EXPIRY}
    \<and> msg_event ` set (msgQ s) \<subseteq> event_code ` {MOTION_DETECTED, VALID_DISTANCE, INVALID_DISTANCE,
        RING_BELL_EXPIRY, ECU_NOT_WORKING, DOOR_WAIT_EXPIRY, DOOR_WAIT_RETRY_END}"
  using running_phase [OF assms] channel_phase by blast

theorem channels_typed_witness:
  "pipe_contents (pipe_t1 sample_start) = [MOTION_SCAN_ON] \<and> set (pipe_contents (pipe_t1 sample_start)) \<subseteq> {MOTION_SCAN_ON}"
  using channels_typed [OF sample_reach] sample_phase
  by (simp add: threads_up_def holds_def pipe_contents_pipe_of commands_def)

section \<open>Leaving the discipline\<close>

lemma msgQ_phase:
  "in_phase p s \<Longrightarrow> live_phase p \<or> p = Crippled \<Longrightarrow> msgQ s = [event_msg RING_BELL_EXPIRY] \<Longrightarrow> p = Ring_reported"
  by (cases p) (simp_all add: holds_def live_phase_def)

lemma unknown_door_run:
  assumes "in_phase Ring_reported s" "threads_up s" "env_ok e"
    and "get_value (env_file e) True = Inr d" and "rd_value d \<notin> {0, 1}"
  shows "\<exists>t. door_exec Monitor_pass e s = Some t \<and> in_phase Stuck t \<and> threads_up t"
  using assms
  by (auto simp: door_exec_def monitor_pass_def get_messageFromQ_def Let_def monitor_dispatch_def
      mon_ring_expiry_def read_sensor_def state_simps)

text \<open>
  C9. An unexpected door status deadlocks the system: after the bell rang, a door status file
  whose first digit is neither 0 (open) nor 1 (closed) leaves all four threads alive and the
  process running, but from then on no thread and no timer can ever do anything again.
\<close>

theorem unknown_door_status_deadlocks:
  assumes "door_reach s" and "proc s = Proc_running" and "msgQ s = [event_msg RING_BELL_EXPIRY]"
    and "env_ok e" and "get_value (env_file e) True = Inr d" and "rd_value d \<notin> {0, 1}"
  shows "\<exists>t. door_exec Monitor_pass e s = Some t \<and> proc t = Proc_running \<and> (\<forall>i < 4. alive t i)
    \<and> (\<forall>a e'. env_ok e' \<longrightarrow> door_exec a e' t = None)"
proof -
  have "phase_of s = Ring_reported"
    using running_phase [OF assms(1,2)] msgQ_phase [OF _ _ assms(3)] by blast
  then have s: "in_phase Ring_reported s" "threads_up s" using running_phase [OF assms(1,2)] by auto
  from unknown_door_run [OF s assms(4-6)] obtain t where
    t: "door_exec Monitor_pass e s = Some t" "in_phase Stuck t" "threads_up t" by blast
  then show ?thesis using stuck_blocked [OF t(2)] by (auto simp: threads_up_def)
qed

theorem unknown_door_status_deadlocks_witness:
  "\<exists>s t. door_reach s \<and> door_exec Monitor_pass (quiet_env (Some (sensor_text 2 0))) s = Some t
     \<and> (\<forall>a e'. env_ok e' \<longrightarrow> door_exec a e' t = None)"
proof -
  obtain xs t0 where r: "list_all (\<lambda>x. env_ok (snd x)) xs" "door_run xs sample_start = Some t0"
      "in_phase Ringing t0" "threads_up t0"
    using ringing_run by blast
  have "door_reach t0" by (rule door_run_reach [OF sample_reach r(1,2)])
  moreover have "ctl_step\<^sup>*\<^sup>* (ctl_of t0) (Ring_reported, door_wait_expiry_count t0)"
  proof -
    have "ctl_step\<^sup>*\<^sup>* (Ringing, n) (Ring_reported, n)" for n
      by (rule converse_rtranclp_into_rtranclp, rule ctl_step.ring_over, rule r_into_rtranclp,
          rule ctl_step.report)
    with r(3,4) phase_of_live [of Ringing t0] show ?thesis by (simp add: ctl_of_def live_phase_def)
  qed
  ultimately obtain s where s: "door_reach s" "phase_of s = Ring_reported"
    using ctl_path [of t0] unfolding ctl_of_def by (metis prod.inject)
  with door_reach_inv [of s] have "in_phase Ring_reported s" "threads_up s"
    by (auto simp: door_inv_def live_phase_def)
  then have "proc s = Proc_running" "msgQ s = [event_msg RING_BELL_EXPIRY]"
    by (simp_all add: threads_up_def holds_def)
  from unknown_door_status_deadlocks [OF s(1) this, of "quiet_env (Some (sensor_text 2 0))"] s(1)
  show ?thesis by (auto simp: quiet_env_def get_value_digits env_ok_def)
qed

text \<open>
  C11. A failed receive breaks the discipline: while the motion thread is polling, a \<^verbatim>\<open>msgrcv\<close>
  that fails makes the monitor order a distance measurement nobody asked for, so two activities
  are outstanding at once.
\<close>

theorem failed_receive_doubles_token:
  assumes "door_reach s" and "proc s = Proc_running" and "mot_scanning s"
    and "\<not> env_msgrcv e" and "env_write e"
  shows "\<exists>t. door_exec Monitor_pass e s = Some t \<and> pipe_contents (pipe_t2 t) = [CALC_DISTANCE]
    \<and> mot_scanning t \<and> outstanding t = 2"
proof -
  have "phase_of s = Scanning"
    using running_phase [OF assms(1,2)] scanning_phase [OF _ _ assms(3)] by blast
  then have s: "in_phase Scanning s" "threads_up s" using running_phase [OF assms(1,2)] by auto
  then have "door_exec Monitor_pass e s =
      Some (s\<lparr>mon_buf := frame_of CALC_DISTANCE, pipe_t2 := pipe_of [CALC_DISTANCE]\<rparr>)"
    using assms(4,5)
    by (simp add: door_exec_def monitor_pass_def get_messageFromQ_def Let_def event_data_zero_def
        monitor_dispatch_def mon_post_ok [where es = "[]"] state_simps)
  with s show ?thesis
    by (simp add: holds_def outstanding_def bell_armed_def wait_armed_def reset_armed_def
        pipe_contents_pipe_of commands_def)
qed

theorem failed_receive_doubles_token_witness:
  "\<exists>s t. door_reach s \<and> door_exec Monitor_pass ((quiet_env None)\<lparr>env_msgrcv := False\<rparr>) s = Some t \<and> outstanding t = 2"
proof -
  obtain s where s: "door_reach s" "in_phase Scanning s" "threads_up s"
    using exhausted_reachable by blast
  then have "proc s = Proc_running" "mot_scanning s" by (simp_all add: threads_up_def holds_def)
  with failed_receive_doubles_token [OF s(1) this, of "(quiet_env None)\<lparr>env_msgrcv := False\<rparr>"] s(1)
  show ?thesis by (auto simp: quiet_env_def)
qed

end
