(* ===== verification/Kernel_IO.thy ===== *)
theory Kernel_IO
  imports Prelude
begin

text \<open>
  What the character drivers under \<^verbatim>\<open>driver/\<close> use of the kernel: the copies between a driver
  buffer and user space, open files, the calls that register a module, and the contract of a
  readable device (locale \<open>char_device\<close>): reading it in chunks until a read returns
  nothing yields its whole content.  How many bytes a copy leaves uncopied is an argument of the
  operations (a function of the requested count, at most that count: \<open>residual_ok\<close>).
\<close>

section \<open>Results of driver calls\<close>

datatype 'a outcome = Done 'a | Blocked | Fault
  \<comment> \<open>\<open>Blocked\<close>: the caller sleeps on the semaphore; \<open>Fault\<close>: an access outside the buffer\<close>

primrec bind_outcome :: "'a outcome \<Rightarrow> ('a \<Rightarrow> 'b outcome) \<Rightarrow> 'b outcome" where
  "bind_outcome (Done x) k = k x"
| "bind_outcome Blocked k = Blocked"
| "bind_outcome Fault k = Fault"

section \<open>Copies to and from user space\<close>

definition residual_ok :: "(nat \<Rightarrow> nat) \<Rightarrow> bool" where
  "residual_ok left \<longleftrightarrow> (\<forall>n. left n \<le> n)"

definition in_range :: "char list \<Rightarrow> int \<Rightarrow> nat \<Rightarrow> bool" where
  "in_range b off n \<longleftrightarrow> n = 0 \<or> 0 \<le> off \<and> off + int n \<le> int (length b)"

definition copy_to_user :: "(nat \<Rightarrow> nat) \<Rightarrow> char list \<Rightarrow> int \<Rightarrow> nat \<Rightarrow> (nat \<times> char list) outcome" where
  \<comment> \<open>\<open>n\<close> bytes from \<open>src + off\<close>: the bytes not copied, and the bytes user space gets\<close>
  "copy_to_user left src off n =
     (if in_range src off (n - left n)
      then Done (left n, take (n - left n) (drop (nat off) src)) else Fault)"

definition copy_from_user :: "(nat \<Rightarrow> nat) \<Rightarrow> char list \<Rightarrow> int \<Rightarrow> char list \<Rightarrow> nat \<Rightarrow> (nat \<times> char list) outcome" where
  \<comment> \<open>\<open>n\<close> bytes of \<open>src\<close> to \<open>dst + off\<close>; the part that could not be copied is zeroed\<close>
  "copy_from_user left dst off src n =
     (if in_range dst off n
      then Done (left n, if n = 0 then dst
        else take (nat off) dst @ take (n - left n) src @ replicate (left n) NUL @ drop (nat off + n) dst)
      else Fault)"

lemma residual_ok_0 [simp]: "residual_ok (\<lambda>_. 0)"
  by (simp add: residual_ok_def)

lemma copy_from_user_length:
  assumes "copy_from_user left dst off src n = Done (r, b)" "residual_ok left" "n \<le> length src"
  shows "length b = length dst \<and> r = left n"
  using assms by (auto simp: copy_from_user_def in_range_def residual_ok_def split: if_splits)

section \<open>Open files\<close>

record kfile =
  f_pos :: s64           \<comment> \<open>\<^verbatim>\<open>loff_t\<close>\<close>
  private_data :: bool   \<comment> \<open>\<^verbatim>\<open>filp->private_data\<close> points to \<^verbatim>\<open>dev_data\<close>\<close>

definition new_file :: kfile where
  "new_file = \<lparr>f_pos = 0, private_data = False\<rparr>"

section \<open>Loading and unloading a module\<close>

datatype kcall =
    Alloc_region | Unregister_region | Cdev_init | Cdev_add | Cdev_del | Sema_init
  | Uevent_remove | Proc_mkdir | Proc_create | Proc_remove | Kmalloc_node | Kfree_node

section \<open>A readable device\<close>

definition MAX_RW_COUNT :: nat where
  \<comment> \<open>the kernel cuts longer requests down to this size before it calls the driver\<close>
  "MAX_RW_COUNT = 0x7ffff000"

locale char_device =
  fixes dread :: "nat \<Rightarrow> nat \<Rightarrow> 'd \<Rightarrow> char list \<times> nat"
    \<comment> \<open>position, requested bytes: bytes delivered and the new position\<close>
    and content :: "'d \<Rightarrow> char list"
    and wf :: "'d \<Rightarrow> bool"
  assumes dread_eq: "wf d \<Longrightarrow> pos \<le> length (content d) \<Longrightarrow> n \<le> MAX_RW_COUNT \<Longrightarrow>
    dread pos n d = (take n (drop pos (content d)), pos + length (take n (drop pos (content d))))"
begin

fun read_all :: "nat \<Rightarrow> nat \<Rightarrow> nat \<Rightarrow> 'd \<Rightarrow> char list option" where
  \<comment> \<open>a reader that repeats reads of \<open>n\<close> bytes until one returns 0; \<open>None\<close>: out of fuel\<close>
  "read_all 0 n pos d = None"
| "read_all (Suc k) n pos d =
     (case dread pos n d of
        (bs, pos') \<Rightarrow> if bs = [] then Some [] else map_option ((@) bs) (read_all k n pos' d))"

lemma read_all_content:
  "wf d \<Longrightarrow> 0 < n \<Longrightarrow> n \<le> MAX_RW_COUNT \<Longrightarrow> pos \<le> length (content d) \<Longrightarrow>
     length (content d) - pos < k \<Longrightarrow> read_all k n pos d = Some (drop pos (content d))"
proof (induction k arbitrary: pos)
  case 0
  then show ?case by simp
next
  case (Suc k)
  show ?case
  proof (cases "pos = length (content d)")
    case True
    with Suc.prems show ?thesis by (simp add: dread_eq)
  next
    case False
    define bs where "bs = take n (drop pos (content d))"
    with Suc.prems False have bs: "bs \<noteq> []" "pos + length bs \<le> length (content d)" "0 < length bs"
      by auto
    with Suc.prems have "read_all k n (pos + length bs) d = Some (drop (pos + length bs) (content d))"
      by (intro Suc.IH) linarith+
    moreover have "bs @ drop (pos + length bs) (content d) = drop pos (content d)"
    proof -
      have "bs = take (length bs) (drop pos (content d))"
        unfolding bs_def by (simp add: min_def)
      then show ?thesis
        by (metis add.commute append_take_drop_id drop_drop)
    qed
    ultimately show ?thesis
      using Suc.prems bs(1) by (simp add: dread_eq bs_def [symmetric])
  qed
qed

end

end
