(* ===== verification/Device_Files.thy ===== *)
theory Device_Files
  imports Kernel_IO
begin

text \<open>
  What the users of a device file see: an abstract file of fixed size with a position for every open
  descriptor, and the contract (locale \<open>stored_device\<close>) by which a driver's operations on machine words
  implement it call by call.  The kinds of files differ in what a write does to the bytes it does not
  cover, in whether a second open waits, and in whether seeking is supported.
\<close>

section \<open>Calls and replies\<close>

datatype dev_op =
    Dev_open bool                  \<comment> \<open>a signal arrives while it waits\<close>
  | Dev_close nat
  | Dev_read nat nat
  | Dev_write nat "char list"
  | Dev_seek nat s64 int

datatype dev_reply = Re_open | Re_refused | Re_closed int | Re_data nat "char list" | Re_count nat | Re_pos nat

definition close_file :: "nat \<Rightarrow> 'a list \<Rightarrow> 'a list" where
  "close_file i fs = take i fs @ drop (Suc i) fs"

primrec admissible :: "nat \<Rightarrow> dev_op \<Rightarrow> nat \<Rightarrow> bool" where
  \<comment> \<open>with the largest request and the number of open descriptors: the kernel hands the call to the driver\<close>
  "admissible mx (Dev_open sig) n = True"
| "admissible mx (Dev_close i) n = (i < n)"
| "admissible mx (Dev_read i len) n = (i < n \<and> len \<le> mx)"
| "admissible mx (Dev_write i buff) n = (i < n \<and> length buff \<le> mx)"
| "admissible mx (Dev_seek i off orig) n = (i < n)"

fun dev_calls ::
  "(nat \<Rightarrow> dev_op \<Rightarrow> 's \<times> 'f list \<Rightarrow> (dev_reply \<times> 's \<times> 'f list) outcome) \<Rightarrow> nat
     \<Rightarrow> (nat \<times> dev_op) list \<Rightarrow> 's \<times> 'f list \<Rightarrow> (dev_reply list \<times> 's \<times> 'f list) option"
where
  \<comment> \<open>the driver, the largest request, the calls (each with the number of bytes a copy may move), the driver's
     state and the open files; \<open>None\<close>: a call is not admissible, waits or faults\<close>
  "dev_calls exec mx [] d = Some ([], d)"
| "dev_calls exec mx ((lim, x) # xs) d =
     (if \<not> admissible mx x (length (snd d)) then None
      else case exec lim x d of
        Done (r, e) \<Rightarrow> map_option (\<lambda>(rs, f). (r # rs, f)) (dev_calls exec mx xs e)
      | _ \<Rightarrow> None)"

lemma moved_bytes: "n - (n - lim) = min lim n" "n - lim = n - min lim n" for n lim :: nat
  by (simp_all add: min_def)

lemma residual_lim: "residual_ok (\<lambda>n. n - lim)"
  by (simp add: residual_ok_def)

lemma list_all_close: "list_all P fs \<Longrightarrow> list_all P (close_file i fs)"
  by (auto simp: close_file_def list_all_iff dest: in_set_takeD in_set_dropD)

lemma map_close: "map f (close_file i fs) = close_file i (map f fs)"
  by (simp add: close_file_def take_map drop_map)

lemma length_close: "i < length fs \<Longrightarrow> Suc (length (close_file i fs)) = length fs"
  by (simp add: close_file_def)

lemma list_all_update: "list_all P xs \<Longrightarrow> P x \<Longrightarrow> list_all P (xs[i := x])"
  by (induction xs arbitrary: i) (auto split: nat.splits)

section \<open>The abstract file\<close>

record file_kind =
  put :: "char list \<Rightarrow> nat \<Rightarrow> char list \<Rightarrow> char list"   \<comment> \<open>what a write makes of the bytes\<close>
  exclusive :: bool
  seekable :: bool
  max_request :: nat

record store =
  bytes :: "char list"
  places :: "nat list"

definition room_at :: "store \<Rightarrow> nat \<Rightarrow> nat" where
  "room_at s i = length (bytes s) - places s ! i"

definition move_place :: "nat \<Rightarrow> nat \<Rightarrow> store \<Rightarrow> store" where
  "move_place i k s = s\<lparr>places := (places s)[i := places s ! i + k]\<rparr>"

definition seek_to :: "nat \<Rightarrow> int \<Rightarrow> nat" where
  \<comment> \<open>clamped to the file, except that a 64-bit overflow leads to its beginning\<close>
  "seek_to len k = (if k < 0 \<or> 2 ^ 63 \<le> k then 0 else nat (min k (int len)))"

definition seek_target :: "nat \<Rightarrow> nat \<Rightarrow> int \<Rightarrow> int \<Rightarrow> int" where
  "seek_target len pos off orig =
     (if orig = 0 then off else if orig = 1 then int pos + off else if orig = 2 then int len - off else 0)"

primrec store_exec :: "file_kind \<Rightarrow> nat \<Rightarrow> dev_op \<Rightarrow> store \<Rightarrow> (dev_reply \<times> store) option" where
  "store_exec K lim (Dev_open sig) s =
     (if exclusive K \<and> places s \<noteq> [] then (if sig then Some (Re_refused, s) else None)
      else Some (Re_open, s\<lparr>places := places s @ [0]\<rparr>))"
| "store_exec K lim (Dev_close i) s = Some (Re_closed 0, s\<lparr>places := close_file i (places s)\<rparr>)"
| "store_exec K lim (Dev_read i len) s =
     (let k = min lim (min len (room_at s i))
      in Some (Re_data k (take k (drop (places s ! i) (bytes s))), move_place i k s))"
| "store_exec K lim (Dev_write i buff) s =
     (let n = min (length buff) (room_at s i); k = min lim n
      in Some (Re_count k,
           move_place i k (s\<lparr>bytes := put K (bytes s) (places s ! i) (take k buff @ replicate (n - k) NUL)\<rparr>)))"
| "store_exec K lim (Dev_seek i off orig) s =
     (if \<not> seekable K then Some (Re_refused, s)
      else let p = seek_to (length (bytes s)) (seek_target (length (bytes s)) (places s ! i) (sint off) orig)
           in Some (Re_pos p, s\<lparr>places := (places s)[i := p]\<rparr>))"

fun store_calls :: "file_kind \<Rightarrow> (nat \<times> dev_op) list \<Rightarrow> store \<Rightarrow> (dev_reply list \<times> store) option" where
  "store_calls K [] s = Some ([], s)"
| "store_calls K ((lim, x) # xs) s =
     (if \<not> admissible (max_request K) x (length (places s)) then None
      else case store_exec K lim x s of
        None \<Rightarrow> None
      | Some (r, t) \<Rightarrow> map_option (\<lambda>(rs, u). (r # rs, u)) (store_calls K xs t))"

definition two_sessions :: "nat \<Rightarrow> char list \<Rightarrow> nat \<Rightarrow> nat \<Rightarrow> (nat \<times> dev_op) list" where
  "two_sessions lim buff lim' len =
     [(0, Dev_open False), (lim, Dev_write 0 buff), (0, Dev_close 0), (0, Dev_open False), (lim', Dev_read 0 len)]"

lemma store_sessions:
  assumes "length buff \<le> max_request K" "len \<le> max_request K" "len \<le> lim'" "n = min lim (min (length buff) (length c))"
    and "length (put K c 0 (take n buff @ replicate (min (length buff) (length c) - n) NUL)) = length c"
  shows "store_calls K (two_sessions lim buff lim' len) \<lparr>bytes = c, places = []\<rparr>
    = Some ([Re_open, Re_count n, Re_closed 0, Re_open, Re_data (min len (length c))
          (take len (put K c 0 (take n buff @ replicate (min (length buff) (length c) - n) NUL)))],
        \<lparr>bytes = put K c 0 (take n buff @ replicate (min (length buff) (length c) - n) NUL),
         places = [min len (length c)]\<rparr>)"
proof -
  have m: "min lim' (min len (length c)) = min len (length c)" using assms(3) by simp
  have "take (min len (length c)) b = take len b" if "length b = length c" for b :: "char list"
    using that by (simp add: min_def)
  with assms m show ?thesis
    by (simp add: two_sessions_def Let_def room_at_def move_place_def close_file_def)
qed

section \<open>The contract of a driver\<close>

abbreviation agrees ::
  "(nat \<Rightarrow> dev_op \<Rightarrow> 's \<Rightarrow> (dev_reply \<times> 's) outcome) \<Rightarrow> file_kind \<Rightarrow> ('s \<Rightarrow> store) \<Rightarrow> ('s \<Rightarrow> bool)
    \<Rightarrow> nat \<Rightarrow> dev_op \<Rightarrow> 's \<Rightarrow> bool"
where
  \<comment> \<open>one call on a driver against the same call on its file\<close>
  "agrees exec K file ok lim x d \<equiv>
     (case exec lim x d of
        Done (r, e) \<Rightarrow> ok e \<and> store_exec K lim x (file d) = Some (r, file e)
      | Blocked \<Rightarrow> store_exec K lim x (file d) = None
      | Fault \<Rightarrow> False)"

locale stored_device =
  fixes exec :: "nat \<Rightarrow> dev_op \<Rightarrow> 's \<times> 'f list \<Rightarrow> (dev_reply \<times> 's \<times> 'f list) outcome"
    and K :: file_kind
    and abs :: "'s \<times> 'f list \<Rightarrow> store"
    and inv :: "'s \<times> 'f list \<Rightarrow> bool"
  assumes files: "length (places (abs d)) = length (snd d)"
    and exec_abs: "inv d \<Longrightarrow> admissible (max_request K) x (length (snd d)) \<Longrightarrow> agrees exec K abs inv lim x d"
    and put_length: "pos + length w \<le> length c \<Longrightarrow> length (put K c pos w) = length c"
    and put_data: "pos + length w \<le> length c \<Longrightarrow> take (length w) (drop pos (put K c pos w)) = w"
begin

lemma calls_abs:
  "inv d \<Longrightarrow> map_option (\<lambda>(rs, e). (rs, abs e)) (dev_calls exec (max_request K) xs d) = store_calls K xs (abs d)"
proof (induction xs arbitrary: d)
  case Nil
  then show ?case by simp
next
  case (Cons c xs)
  obtain lim x where c: "c = (lim, x)" by fastforce
  show ?case
  proof (cases "admissible (max_request K) x (length (snd d))")
    case False
    with c show ?thesis by (simp add: files)
  next
    case True
    note e = exec_abs [OF Cons.prems True, of lim]
    show ?thesis
    proof (cases "exec lim x d")
      case (Done re)
      obtain r e' where re: "re = (r, e')" by (cases re)
      with e Done have t: "inv e'" "store_exec K lim x (abs d) = Some (r, abs e')" by simp_all
      have "map_option (\<lambda>(rs, e). (rs, abs e)) (map_option (\<lambda>(rs, f). (r # rs, f)) (dev_calls exec (max_request K) xs e'))
        = map_option (\<lambda>(rs, u). (r # rs, u)) (store_calls K xs (abs e'))"
        unfolding Cons.IH [OF t(1), symmetric] by (simp add: option.map_comp o_def case_prod_beta)
      with True Done c re t(2) show ?thesis by (simp add: files)
    qed (use e True c in \<open>simp_all add: files\<close>)
  qed
qed

lemma calls_inv: "inv d \<Longrightarrow> dev_calls exec (max_request K) xs d = Some (rs, e) \<Longrightarrow> inv e"
proof (induction xs arbitrary: d rs)
  case Nil
  then show ?case by simp
next
  case (Cons c xs)
  obtain lim x where c: "c = (lim, x)" by fastforce
  with Cons.prems(2) have a: "admissible (max_request K) x (length (snd d))" by (auto split: if_splits)
  with c Cons.prems(2) obtain r e' rs' where x: "exec lim x d = Done (r, e')"
    "dev_calls exec (max_request K) xs e' = Some (rs', e)"
    by (auto split: outcome.splits)
  with exec_abs [OF Cons.prems(1) a, of lim] have "inv e'" by simp
  then show ?case using x(2) by (rule Cons.IH)
qed

lemma calls_no_fault: "inv d \<Longrightarrow> admissible (max_request K) x (length (snd d)) \<Longrightarrow> exec lim x d \<noteq> Fault"
  using exec_abs [of d x lim] by auto

text \<open>
  A session that writes and a session that reads: what was stored comes back, cut at the end of the file.
\<close>

lemma sessions_roundtrip:
  assumes "inv d" "snd d = []" "length buff \<le> max_request K" "len \<le> max_request K" "len \<le> lim'"
    and "n = min lim (min (length buff) (length (bytes (abs d))))"
  shows "\<exists>e. dev_calls exec (max_request K) (two_sessions lim buff lim' len) d
    = Some ([Re_open, Re_count n, Re_closed 0, Re_open,
        Re_data (min len (length (bytes (abs d)))) (take len (bytes (abs e)))], e)
    \<and> inv e \<and> length (bytes (abs e)) = length (bytes (abs d)) \<and> take n (bytes (abs e)) = take n buff"
proof -
  obtain c where s: "abs d = \<lparr>bytes = c, places = []\<rparr>"
    using files [of d] assms(2) by (cases "abs d") simp
  define w where "w = take n buff @ replicate (min (length buff) (length c) - n) NUL"
  have w: "length w \<le> length c" "take n w = take n buff" "n \<le> length w" using assms(6) by (auto simp: w_def s)
  have b: "length (put K c 0 w) = length c" "take (length w) (put K c 0 w) = w"
    using put_length [of 0 w c] put_data [of 0 w c] w(1) by simp_all
  have data: "take n (put K c 0 w) = take n buff"
    using b(2) w(2,3) by (metis min.absorb1 take_take)
  have "store_calls K (two_sessions lim buff lim' len) (abs d) = Some ([Re_open, Re_count n, Re_closed 0, Re_open,
        Re_data (min len (length c)) (take len (put K c 0 w))], \<lparr>bytes = put K c 0 w, places = [min len (length c)]\<rparr>)"
    unfolding s using store_sessions [OF assms(3,4,5) _ b(1) [unfolded w_def]] assms(6) by (simp add: s w_def)
  with calls_abs [OF assms(1), of "two_sessions lim buff lim' len"] obtain e where
    e: "dev_calls exec (max_request K) (two_sessions lim buff lim' len) d = Some ([Re_open, Re_count n, Re_closed 0, Re_open,
        Re_data (min len (length c)) (take len (put K c 0 w))], e)"
      "abs e = \<lparr>bytes = put K c 0 w, places = [min len (length c)]\<rparr>"
    by auto
  with calls_inv [OF assms(1) e(1)] b(1) data s show ?thesis by (intro exI [of _ e]) simp
qed

end

end
