(* ===== verification/Scull_Driver.thy ===== *)
theory Scull_Driver
  imports Device_Files
begin

text \<open>
  The character driver \<^verbatim>\<open>driver/char_driver/char_driver_sample.c\<close> (x86-64: \<^verbatim>\<open>size_t\<close> and
  \<^verbatim>\<open>loff_t\<close> are 64 bits, \<^verbatim>\<open>int\<close> is 32) and the program \<^verbatim>\<open>driver/char_driver/user_process.c\<close>
  that reads and writes its device file.
\<close>

section \<open>The driver\<close>

definition MAX_BUFF_SIZE :: nat where
  "MAX_BUFF_SIZE = 1024"

record scull_state =
  drv_buff :: "char list"
  sem :: nat               \<comment> \<open>count of \<^verbatim>\<open>dev_data.sem\<close>\<close>

definition scull_wf :: "'a scull_state_scheme \<Rightarrow> bool" where
  "scull_wf s \<longleftrightarrow> length (drv_buff s) = MAX_BUFF_SIZE \<and> sem s = 1"

definition transfer_count :: "s64 \<Rightarrow> s64 \<Rightarrow> s32" where
  \<comment> \<open>\<^verbatim>\<open>int max_bytes\<close> is truncated, then compared as an unsigned \<^verbatim>\<open>size_t\<close> with \<^verbatim>\<open>count\<close>\<close>
  "transfer_count count off =
     (let max_bytes = (ucast ((1024 :: s64) - off) :: s32)
      in if count > scast max_bytes then max_bytes else ucast count)"

definition scull_open :: "nat \<Rightarrow> kfile \<Rightarrow> int \<times> kfile" where
  \<comment> \<open>both minors lead to the one \<^verbatim>\<open>dev_data\<close>\<close>
  "scull_open minor filp = (0, filp\<lparr>private_data := True\<rparr>)"

definition scull_release :: "kfile \<Rightarrow> int" where
  "scull_release filp = 0"

definition down :: "'a scull_state_scheme \<Rightarrow> 'a scull_state_scheme outcome" where
  "down s = (if sem s = 0 then Blocked else Done (s\<lparr>sem := sem s - 1\<rparr>))"

definition up :: "'a scull_state_scheme \<Rightarrow> 'a scull_state_scheme" where
  "up s = s\<lparr>sem := sem s + 1\<rparr>"

definition scull_read ::
  "(nat \<Rightarrow> nat) \<Rightarrow> kfile \<Rightarrow> s64 \<Rightarrow> s64 \<Rightarrow> 'a scull_state_scheme \<Rightarrow> (s64 \<times> char list \<times> s64 \<times> 'a scull_state_scheme) outcome"
where
  \<comment> \<open>arguments \<open>count\<close> and \<open>*offp\<close>; results: return value, bytes in user space, \<open>*offp\<close>, state\<close>
  "scull_read left filp count off s =
     (let bytes_to_read = transfer_count count off
      in if \<not> private_data filp then Fault
         else bind_outcome (down s) (\<lambda>s.
           bind_outcome
             (copy_to_user left (drv_buff s) (sint off) (unat (scast bytes_to_read :: s64)))
             (\<lambda>(rest, data).
                let bytes_read = (ucast ((scast bytes_to_read :: s64) - of_nat rest) :: s32)
                in Done (scast bytes_read, data, off + scast bytes_read, up s))))"

definition scull_write ::
  "(nat \<Rightarrow> nat) \<Rightarrow> kfile \<Rightarrow> char list \<Rightarrow> s64 \<Rightarrow> s64 \<Rightarrow> 'a scull_state_scheme \<Rightarrow> (s64 \<times> s64 \<times> 'a scull_state_scheme) outcome"
where
  "scull_write left filp buff count off s =
     (let bytes_to_write = transfer_count count off
      in if \<not> private_data filp then Fault
         else bind_outcome (down s) (\<lambda>s.
           let s = s\<lparr>drv_buff := memset (drv_buff s) NUL MAX_BUFF_SIZE\<rparr>
           in bind_outcome
             (copy_from_user left (drv_buff s) (sint off) buff (unat (scast bytes_to_write :: s64)))
             (\<lambda>(rest, b).
                let bytes_write = (ucast ((scast bytes_to_write :: s64) - of_nat rest) :: s32)
                in Done (scast bytes_write, off + scast bytes_write, up (s\<lparr>drv_buff := b\<rparr>)))))"

definition char_module_exit :: "kcall list" where
  "char_module_exit = [Unregister_region, Cdev_del, Uevent_remove]"

definition setup_char_module :: "bool \<Rightarrow> bool \<Rightarrow> kcall list" where
  \<comment> \<open>\<^verbatim>\<open>alloc_chrdev_region\<close> and \<^verbatim>\<open>cdev_add\<close> returned 0\<close>
  "setup_char_module alloc_ok add_ok =
     [Alloc_region] @ (if alloc_ok then [] else char_module_exit)
     @ [Cdev_init, Cdev_add] @ (if add_ok then [] else char_module_exit) @ [Sema_init]"

definition char_module_init :: "bool \<Rightarrow> bool \<Rightarrow> int \<times> kcall list" where
  "char_module_init alloc_ok add_ok = (0, setup_char_module alloc_ok add_ok)"

section \<open>Arithmetic of the transfer count\<close>

definition room :: "s64 \<Rightarrow> nat" where
  "room off = MAX_BUFF_SIZE - nat (sint off)"

definition on_device :: "s64 \<Rightarrow> bool" where
  "on_device off \<longleftrightarrow> 0 \<le> sint off \<and> sint off \<le> 1024"

lemma int_room: "on_device off \<Longrightarrow> int (room off) = 1024 - sint off"
  unfolding on_device_def room_def MAX_BUFF_SIZE_def by linarith

lemma room_le: "room off \<le> 1024"
  by (simp add: room_def MAX_BUFF_SIZE_def)

lemma transfer_count_on_device:
  assumes "on_device off"
  shows "transfer_count count off = of_int (int (min (unat count) (room off)))"
proof -
  define m where "m = 1024 - sint off"
  have m: "0 \<le> m" "m \<le> 1024" "int (room off) = m"
    using int_room [OF assms] assms by (auto simp: m_def on_device_def)
  have "(1024 :: s64) - off = of_int m" by (simp add: m_def)
  then have "(ucast ((1024 :: s64) - off) :: s32) = of_int m" by (simp add: ucast_s32_of_int)
  then have t: "transfer_count count off =
      (if count > of_int m then of_int m else ucast count)"
    using m by (simp add: transfer_count_def Let_def scast_s64_of_int)
  have "count > of_int m \<longleftrightarrow> room off < unat count"
  proof -
    have "uint (of_int m :: s64) = m" using m by (simp add: uint_s64_of_int)
    then have "count > of_int m \<longleftrightarrow> m < uint count" by (simp only: word_less_def)
    also have "\<dots> \<longleftrightarrow> int (room off) < int (unat count)" by (simp only: m(3) uint_nat)
    also have "\<dots> \<longleftrightarrow> room off < unat count" by (rule of_nat_less_iff)
    finally show ?thesis .
  qed
  moreover have "(ucast count :: s32) = of_int (int (unat count))"
    by (simp only: ucast_eq uint_nat)
  ultimately show ?thesis
  proof (cases "room off < unat count")
    case True
    with t \<open>_ = (room off < unat count)\<close> have "transfer_count count off = of_int m" by simp
    moreover have "min (unat count) (room off) = room off" using True by simp
    ultimately show ?thesis by (simp only: m(3))
  next
    case False
    with t \<open>_ = (room off < unat count)\<close> have "transfer_count count off = ucast count" by simp
    moreover have "min (unat count) (room off) = unat count" using False by simp
    ultimately show ?thesis by (simp only: \<open>ucast count = _\<close>)
  qed
qed

lemma transfer_size:
  assumes "on_device off"
  shows "unat (scast (transfer_count count off) :: s64) = min (unat count) (room off)"
proof -
  have m: "min (unat count) (room off) \<le> 1024" using room_le [of off] by simp
  then have "(scast (transfer_count count off) :: s64) = of_int (int (min (unat count) (room off)))"
    by (simp add: transfer_count_on_device [OF assms] scast_s64_of_int del: of_int_of_nat_eq)
  with m show ?thesis by (simp add: unat_s64_of_nat)
qed

lemma transfer_result:
  assumes "on_device off" and "r \<le> min (unat count) (room off)"
  shows "sint (scast (ucast ((scast (transfer_count count off) :: s64) - of_nat r) :: s32) :: s64)
      = int (min (unat count) (room off) - r)"
    and "sint (off + scast (ucast ((scast (transfer_count count off) :: s64) - of_nat r) :: s32))
      = sint off + int (min (unat count) (room off) - r)"
proof -
  define k where "k = int (min (unat count) (room off) - r)"
  have k: "0 \<le> k" "k \<le> 1024" "k \<le> int (room off)"
    by (simp_all add: k_def room_def MAX_BUFF_SIZE_def)
  have "(scast (transfer_count count off) :: s64) = of_int (int (min (unat count) (room off)))"
  proof -
    have "min (unat count) (room off) \<le> 1024" by (simp add: room_def MAX_BUFF_SIZE_def)
    then show ?thesis
      by (simp add: transfer_count_on_device [OF assms(1)] scast_s64_of_int del: of_int_of_nat_eq)
  qed
  then have e: "(scast (transfer_count count off) :: s64) - of_nat r = of_int k"
    using assms(2) by (simp add: k_def of_nat_diff)
  from k show "sint (scast (ucast ((scast (transfer_count count off) :: s64) - of_nat r) :: s32) :: s64) = int (min (unat count) (room off) - r)"
    unfolding e by (simp add: ucast_s32_of_int scast_s64_of_int sint_s64_of_int k_def [symmetric])
  have "off + of_int k = of_int (sint off + k)" by simp
  moreover have "0 \<le> sint off + k" "sint off + k \<le> 1024"
    using k int_room [OF assms(1)] assms(1) by (auto simp: on_device_def)
  ultimately show "sint (off + scast (ucast ((scast (transfer_count count off) :: s64) - of_nat r) :: s32))
      = sint off + int (min (unat count) (room off) - r)"
    using k unfolding e
    by (simp add: ucast_s32_of_int scast_s64_of_int sint_s64_of_int k_def [symmetric] del: of_int_add)
qed

section \<open>Effect of the operations\<close>

lemma scull_read_on_device:
  fixes count :: s64
  assumes "scull_wf s" "private_data f" "on_device off" "residual_ok left"
  defines "n \<equiv> min (unat count) (room off)"
  shows "\<exists>ret off'. scull_read left f count off s
      = Done (ret, take (n - left n) (drop (nat (sint off)) (drv_buff s)), off', s)
    \<and> sint ret = int (n - left n) \<and> sint off' = sint off + int (n - left n)"
proof -
  have r: "left n \<le> n" using assms(4) by (simp add: residual_ok_def)
  have "in_range (drv_buff s) (sint off) (n - left n)"
    using assms(1) int_room [OF assms(3)] assms(3)
    by (auto simp: in_range_def n_def scull_wf_def MAX_BUFF_SIZE_def on_device_def)
  then show ?thesis
    using assms(1,2) transfer_size [OF assms(3), of count]
      transfer_result [OF assms(3) r [unfolded n_def]]
    by (simp add: scull_read_def Let_def down_def up_def scull_wf_def copy_to_user_def n_def [symmetric])
qed

lemma memset_whole: "length b = n \<Longrightarrow> memset b c n = replicate n c"
  by (simp add: memset_def)

lemma scull_write_on_device:
  fixes count :: s64
  assumes "scull_wf s" "private_data f" "on_device off" "residual_ok left" "unat count \<le> length buff"
  defines "n \<equiv> min (unat count) (room off)"
  shows "\<exists>ret off'. scull_write left f buff count off s
      = Done (ret, off', s\<lparr>drv_buff := replicate (nat (sint off)) NUL @ take (n - left n) buff
          @ replicate (room off - (n - left n)) NUL\<rparr>)
    \<and> sint ret = int (n - left n) \<and> sint off' = sint off + int (n - left n)"
proof -
  have r: "left n \<le> n" using assms(4) by (simp add: residual_ok_def)
  have z: "memset (drv_buff s) NUL MAX_BUFF_SIZE = replicate MAX_BUFF_SIZE NUL"
    using assms(1) by (simp add: memset_whole scull_wf_def)
  have range: "in_range (replicate MAX_BUFF_SIZE NUL) (sint off) n"
    using int_room [OF assms(3)] assms(3) by (auto simp: in_range_def n_def MAX_BUFF_SIZE_def on_device_def)
  have o: "nat (sint off) \<le> 1024" "MAX_BUFF_SIZE = nat (sint off) + room off"
    using assms(3) by (auto simp: on_device_def room_def MAX_BUFF_SIZE_def)
  have "n \<le> room off" by (simp add: n_def)
  then have "replicate (left n) NUL @ replicate (room off - n) NUL = replicate (room off - (n - left n)) NUL"
    using r by (simp add: replicate_add [symmetric])
  then have b: "copy_from_user left (replicate MAX_BUFF_SIZE NUL) (sint off) buff n =
      Done (left n, replicate (nat (sint off)) NUL @ take (n - left n) buff
          @ replicate (room off - (n - left n)) NUL)"
  proof (cases "n = 0")
    case True
    with r o show ?thesis
      by (simp add: copy_from_user_def in_range_def replicate_add [symmetric])
  next
    case False
    have "drop (nat (sint off) + n) (replicate MAX_BUFF_SIZE NUL) = replicate (room off - n) NUL"
      using o by simp
    with range o(1) False \<open>replicate (left n) NUL @ _ = _\<close> show ?thesis
      by (simp add: copy_from_user_def min_def MAX_BUFF_SIZE_def)
  qed
  show ?thesis
    using assms(1,2) transfer_size [OF assms(3), of count]
      transfer_result [OF assms(3) r [unfolded n_def]] b
    by (simp add: scull_write_def Let_def down_def up_def scull_wf_def z n_def [symmetric])
qed

text \<open>
  A read inside the device delivers exactly the bytes of the buffer from the offset on, as
  many as requested, available and copied; it advances the offset by the returned count and
  leaves buffer and semaphore as they were.
\<close>

lemma scull_read_exact:
  assumes "scull_wf s" and "private_data f" and "on_device off" and "residual_ok left"
    and "n = min (unat count) (1024 - nat (sint off))"
  shows "\<exists>ret off'. scull_read left f count off s
      = Done (ret, take (n - left n) (drop (nat (sint off)) (drv_buff s)), off', s)
    \<and> sint ret = int (n - left n) \<and> sint off' = sint off + sint ret"
proof -
  have n: "n = min (unat count) (room off)" by (simp add: assms(5) room_def MAX_BUFF_SIZE_def)
  obtain ret off' where "scull_read left f count off s
      = Done (ret, take (n - left n) (drop (nat (sint off)) (drv_buff s)), off', s)"
      "sint ret = int (n - left n)" "sint off' = sint off + int (n - left n)"
    using scull_read_on_device [OF assms(1-4), of count] unfolding n by blast
  then show ?thesis by (intro exI [of _ ret] exI [of _ off']) simp
qed

lemma new_offset: "on_device 0" "room 0 = 1024" "sint (0 :: s64) = 0"
  by (simp_all add: on_device_def room_def MAX_BUFF_SIZE_def)

definition opened :: kfile where
  "opened = snd (scull_open 0 new_file)"

lemma opened_private [simp]: "private_data opened"
  by (simp add: opened_def scull_open_def)

definition scull_loaded :: scull_state where
  \<comment> \<open>after a successful \<^verbatim>\<open>insmod\<close>: static buffer, \<^verbatim>\<open>sema_init(&dev_data.sem, 1)\<close>\<close>
  "scull_loaded = \<lparr>drv_buff = replicate MAX_BUFF_SIZE NUL, sem = 1\<rparr>"

lemma scull_wf_loaded [simp]: "scull_wf scull_loaded"
  by (simp add: scull_wf_def scull_loaded_def)

text \<open>
  A write replaces the whole buffer, not the bytes it covers: whatever was stored before,
  afterwards the buffer is zero up to the offset, then the bytes written, then zero to the end;
  a write at the end of the device stores nothing, returns 0 and still erases everything.
\<close>

lemma scull_write_erases:
  assumes "scull_wf s" and "private_data f" and "on_device off" and "unat count \<le> length buff"
    and "n = min (unat count) (1024 - nat (sint off))"
  shows "\<exists>ret off'. scull_write (\<lambda>_. 0) f buff count off s
      = Done (ret, off', s\<lparr>drv_buff := replicate (nat (sint off)) NUL @ take n buff
          @ replicate (1024 - nat (sint off) - n) NUL\<rparr>)
    \<and> sint ret = int n \<and> sint off' = sint off + int n"
proof -
  have n: "n = min (unat count) (room off)" "1024 - nat (sint off) = room off"
    by (simp_all add: assms(5) room_def MAX_BUFF_SIZE_def)
  show ?thesis
    using scull_write_on_device [OF assms(1-3) residual_ok_0 assms(4)] unfolding n by simp
qed

section \<open>Positions beyond the device\<close>

lemma transfer_count_beyond:
  assumes "1024 < sint off" and "sint off < 2 ^ 31" and "unat count < 2 ^ 31"
  shows "transfer_count count off = ucast count"
proof -
  define m where "m = 1024 - sint off"
  have m: "- (2 ^ 31) \<le> m" "m < 0" using assms by (simp_all add: m_def)
  have "(1024 :: s64) - off = of_int m" by (simp add: m_def)
  then have "(ucast ((1024 :: s64) - off) :: s32) = of_int m" by (simp add: ucast_s32_of_int)
  moreover have "(scast (of_int m :: s32) :: s64) = of_int m" using m by (simp add: scast_s64_of_int)
  moreover have "\<not> count > of_int m"
  proof -
    have "uint (of_int m :: s64) = m + 2 ^ 64" using m by (intro uint_s64_of_neg) auto
    moreover have "uint count < 2 ^ 31"
    proof -
      have "int (unat count) < int (2 ^ 31)" using assms(3) by (simp only: of_nat_less_iff)
      then show ?thesis by simp
    qed
    moreover have "(2 :: int) ^ 31 \<le> 2 ^ 64 - 2 ^ 31" by simp
    ultimately show ?thesis unfolding word_less_def using m(1) by linarith
  qed
  ultimately show ?thesis by (simp add: transfer_count_def Let_def)
qed

text \<open>
  The bound on the transfer is lost past the end: for an offset above 1024 (\<^verbatim>\<open>pread(2)\<close> passes
  any offset) the negative \<^verbatim>\<open>max_bytes\<close> is compared as a huge unsigned number, so every request
  that the user buffer can take reads kernel memory beyond the driver buffer.
\<close>

lemma scull_read_past_end_faults:
  assumes "scull_wf s" and "private_data f" and "1024 < sint off" and "sint off < 2 ^ 31"
    and "0 < unat count" and "unat count < 2 ^ 31" and "left (unat count) < unat count"
  shows "scull_read left f count off s = Fault"
proof -
  have "- (2 ^ 31) \<le> int k \<and> int k < 2 ^ 31" if "k < 2 ^ 31" for k :: nat
    using that by simp
  from this [OF assms(6)] have k: "- (2 ^ 31) \<le> int (unat count)" "int (unat count) < 2 ^ 31"
    by blast+
  have "(ucast count :: s32) = of_int (int (unat count))" by (simp only: ucast_eq uint_nat)
  then have "(scast (transfer_count count off) :: s64) = of_int (int (unat count))"
    by (simp only: transfer_count_beyond [OF assms(3,4,6)] scast_s64_of_int [OF k])
  then have "unat (scast (transfer_count count off) :: s64) = unat count" by simp
  moreover have "\<not> in_range (drv_buff s) (sint off) k" if "0 < k" for k
    using that assms(1,3) by (simp add: in_range_def scull_wf_def MAX_BUFF_SIZE_def)
  from this [of "unat count - left (unat count)"]
  have "\<not> in_range (drv_buff s) (sint off) (unat count - left (unat count))"
    using assms(7) by simp
  ultimately show ?thesis
    using assms(1,2) by (simp add: scull_read_def Let_def down_def scull_wf_def copy_to_user_def)
qed

section \<open>Reading the device file to its end\<close>

definition scull_dread :: "nat \<Rightarrow> nat \<Rightarrow> scull_state \<Rightarrow> char list \<times> nat" where
  \<comment> \<open>one \<^verbatim>\<open>read(2)\<close> of \<open>n\<close> bytes at \<open>f_pos\<close> on the opened device, all copies succeeding\<close>
  "scull_dread pos n s =
     (case scull_read (\<lambda>_. 0) opened (of_nat n) (of_nat pos) s of
        Done (ret, data, off, t) \<Rightarrow> (data, nat (sint off)) | _ \<Rightarrow> ([], pos))"

lemma on_device_of_nat: "pos \<le> 1024 \<Longrightarrow> on_device (of_nat pos) \<and> sint (of_nat pos :: s64) = int pos"
  using sint_s64_of_int [of "int pos"] by (simp add: on_device_def)

interpretation scull: char_device scull_dread drv_buff scull_wf
proof
  fix d :: scull_state and pos n :: nat
  assume wf: "scull_wf d" and pos: "pos \<le> length (drv_buff d)" and n: "n \<le> MAX_RW_COUNT"
  from wf pos have len: "length (drv_buff d) = 1024" "pos \<le> 1024"
    by (simp_all add: scull_wf_def MAX_BUFF_SIZE_def)
  note off = on_device_of_nat [OF len(2)]
  have "unat (of_nat n :: s64) = n" using n by (intro unat_s64_of_nat) (simp add: MAX_RW_COUNT_def)
  then obtain ret off' where r: "scull_read (\<lambda>_. 0) opened (of_nat n) (of_nat pos) d
      = Done (ret, take (min n (1024 - pos)) (drop pos (drv_buff d)), off', d)"
      "sint off' = int pos + int (min n (1024 - pos))"
    using scull_read_on_device [OF wf opened_private off [THEN conjunct1] residual_ok_0, of "of_nat n"] off
    by (auto simp: room_def MAX_BUFF_SIZE_def)
  have "nat (sint off') = pos + length (take n (drop pos (drv_buff d)))"
    unfolding r(2) using len by (simp add: min.commute)
  then show "scull_dread pos n d = (take n (drop pos (drv_buff d)), pos + length (take n (drop pos (drv_buff d))))"
    using r(1) len by (simp add: scull_dread_def min_def)
qed

text \<open>
  Reading the device file to its end in chunks of any size terminates and returns the whole
  buffer, all 1024 bytes in order: 1025 reads are always enough.
\<close>

lemma scull_read_to_end:
  assumes "scull_wf s" and "0 < n" and "n \<le> MAX_RW_COUNT"
  shows "scull.read_all 1025 n 0 s = Some (drv_buff s)"
  using scull.read_all_content [of s n 0 1025] assms by (simp add: scull_wf_def MAX_BUFF_SIZE_def)

section \<open>The device is a file that every write clears\<close>

type_synonym 'a scull_sys = "'a scull_state_scheme \<times> kfile list"   \<comment> \<open>the driver's state and the open files\<close>

primrec scull_exec :: "nat \<Rightarrow> dev_op \<Rightarrow> 'a scull_sys \<Rightarrow> (dev_reply \<times> 'a scull_sys) outcome" where
  \<comment> \<open>\<^verbatim>\<open>scull_fops\<close> has no \<^verbatim>\<open>llseek\<close>: the kernel refuses to seek\<close>
  "scull_exec lim (Dev_open sig) st =
     (let (r, f) = scull_open 0 new_file in Done (if r = 0 then (Re_open, (fst st, snd st @ [f])) else (Re_refused, st)))"
| "scull_exec lim (Dev_close i) st =
     Done (Re_closed (scull_release (snd st ! i)), (fst st, close_file i (snd st)))"
| "scull_exec lim (Dev_read i len) st =
     (let f = snd st ! i
      in bind_outcome (scull_read (\<lambda>n. n - lim) f (of_nat len) (f_pos f) (fst st))
           (\<lambda>(r, bs, off, s). Done (Re_data (nat (sint r)) bs, (s, (snd st)[i := f\<lparr>f_pos := off\<rparr>]))))"
| "scull_exec lim (Dev_write i buff) st =
     (let f = snd st ! i
      in bind_outcome (scull_write (\<lambda>n. n - lim) f buff (of_nat (length buff)) (f_pos f) (fst st))
           (\<lambda>(r, off, s). Done (Re_count (nat (sint r)), (s, (snd st)[i := f\<lparr>f_pos := off\<rparr>]))))"
| "scull_exec lim (Dev_seek i offset orig) st = Done (Re_refused, st)"

definition scull_kind :: file_kind where
  "scull_kind = \<lparr>put = (\<lambda>c p w. replicate p NUL @ w @ replicate (length c - p - length w) NUL), exclusive = False,
     seekable = False, max_request = MAX_RW_COUNT\<rparr>"

definition scull_file :: "'a scull_sys \<Rightarrow> store" where
  "scull_file st = \<lparr>bytes = drv_buff (fst st), places = map (\<lambda>f. nat (sint (f_pos f))) (snd st)\<rparr>"

definition file_ok :: "kfile \<Rightarrow> bool" where
  "file_ok f \<longleftrightarrow> private_data f \<and> on_device (f_pos f)"

definition scull_inv :: "'a scull_sys \<Rightarrow> bool" where
  "scull_inv st \<longleftrightarrow> scull_wf (fst st) \<and> list_all file_ok (snd st)"

lemma scull_moved:
  assumes "file_ok f" "sint off = sint (f_pos f) + int k" "k \<le> room (f_pos f)"
  shows "file_ok (f\<lparr>f_pos := off\<rparr>) \<and> nat (sint off) = nat (sint (f_pos f)) + k"
  using assms int_room [of "f_pos f"] by (auto simp: file_ok_def on_device_def)

lemma scull_wf_update: "scull_wf s \<Longrightarrow> length b = 1024 \<Longrightarrow> scull_wf (s\<lparr>drv_buff := b\<rparr>)"
  by (simp add: scull_wf_def MAX_BUFF_SIZE_def)

lemma rw_count: "n \<le> MAX_RW_COUNT \<Longrightarrow> unat (of_nat n :: s64) = n"
  by (intro unat_s64_of_nat) (simp add: MAX_RW_COUNT_def)

lemma scull_read_file:
  assumes inv: "scull_inv (s, fs)" and i: "i < length fs" "len' \<le> MAX_RW_COUNT"
  shows "agrees scull_exec scull_kind scull_file scull_inv lim (Dev_read i len') (s, fs)"
proof -
  have wf: "scull_wf s" and fs: "list_all file_ok fs" using inv by (simp_all add: scull_inv_def)
  have f: "file_ok (fs ! i)" using fs i(1) by (simp add: list_all_length)
  have len: "length (drv_buff s) = 1024" using wf by (simp add: scull_wf_def MAX_BUFF_SIZE_def)
  define k where "k = min lim (min len' (room (f_pos (fs ! i))))"
  have e: "min (unat (of_nat len' :: s64)) (room (f_pos (fs ! i)))
      - (min (unat (of_nat len' :: s64)) (room (f_pos (fs ! i))) - lim) = k"
    unfolding rw_count [OF i(2)] k_def by (rule moved_bytes)
  have "private_data (fs ! i)" "on_device (f_pos (fs ! i))" using f by (simp_all add: file_ok_def)
  from scull_read_on_device [OF wf this residual_lim [of lim], of "of_nat len'", unfolded e] obtain ret off where
    r: "scull_read (\<lambda>n. n - lim) (fs ! i) (of_nat len') (f_pos (fs ! i)) s
        = Done (ret, take k (drop (nat (sint (f_pos (fs ! i)))) (drv_buff s)), off, s)"
      "sint ret = int k" "sint off = sint (f_pos (fs ! i)) + int k"
    by blast
  have "k \<le> room (f_pos (fs ! i))" by (simp add: k_def)
  note m = scull_moved [OF f r(3) this]
  have "scull_exec lim (Dev_read i len') (s, fs) = Done (Re_data k (take k (drop (nat (sint (f_pos (fs ! i)))) (drv_buff s))),
      (s, fs[i := (fs ! i)\<lparr>f_pos := off\<rparr>]))"
    using r(1,2) by (simp add: Let_def)
  moreover have "scull_inv (s, fs[i := (fs ! i)\<lparr>f_pos := off\<rparr>])"
    using wf fs m by (simp add: scull_inv_def list_all_update)
  moreover have "scull_file (s, fs[i := (fs ! i)\<lparr>f_pos := off\<rparr>]) = move_place i k (scull_file (s, fs))"
    using i(1) m by (simp add: scull_file_def move_place_def map_update)
  ultimately show ?thesis
    using i(1) len by (simp add: scull_file_def room_at_def k_def room_def MAX_BUFF_SIZE_def Let_def)
qed

lemma scull_write_file:
  assumes inv: "scull_inv (s, fs)" and i: "i < length fs" "length buff \<le> MAX_RW_COUNT"
  shows "agrees scull_exec scull_kind scull_file scull_inv lim (Dev_write i buff) (s, fs)"
proof -
  have wf: "scull_wf s" and fs: "list_all file_ok fs" using inv by (simp_all add: scull_inv_def)
  have f: "file_ok (fs ! i)" using fs i(1) by (simp add: list_all_length)
  have len: "length (drv_buff s) = 1024" using wf by (simp add: scull_wf_def MAX_BUFF_SIZE_def)
  define n where "n = min (length buff) (room (f_pos (fs ! i)))"
  define k where "k = min lim n"
  have e: "min (unat (of_nat (length buff) :: s64)) (room (f_pos (fs ! i))) = n" "n - (n - lim) = k"
    unfolding rw_count [OF i(2)] n_def k_def by (rule refl, rule moved_bytes)
  have p: "private_data (fs ! i)" "on_device (f_pos (fs ! i))" using f by (simp_all add: file_ok_def)
  have "unat (of_nat (length buff) :: s64) \<le> length buff" using rw_count [OF i(2)] by simp
  from scull_write_on_device [OF wf p residual_lim [of lim] this, unfolded e] obtain ret off where
    w: "scull_write (\<lambda>n. n - lim) (fs ! i) buff (of_nat (length buff)) (f_pos (fs ! i)) s
        = Done (ret, off, s\<lparr>drv_buff := replicate (nat (sint (f_pos (fs ! i)))) NUL @ take k buff
            @ replicate (room (f_pos (fs ! i)) - k) NUL\<rparr>)"
      "sint ret = int k" "sint off = sint (f_pos (fs ! i)) + int k"
    by blast
  have k: "k \<le> room (f_pos (fs ! i))" "k \<le> n" "n \<le> room (f_pos (fs ! i))" "k \<le> length buff"
    by (auto simp: k_def n_def)
  note m = scull_moved [OF f w(3) k(1)]
  let ?p = "nat (sint (f_pos (fs ! i)))"
  let ?b = "replicate ?p NUL @ take k buff @ replicate (room (f_pos (fs ! i)) - k) NUL"
  have "?p \<le> 1024" using p(2) by (auto simp: on_device_def)
  then have b: "length ?b = 1024" "put scull_kind (drv_buff s) ?p (take k buff @ replicate (n - k) NUL) = ?b"
    using k len by (simp_all add: scull_kind_def room_def MAX_BUFF_SIZE_def replicate_add [symmetric])
  have "scull_exec lim (Dev_write i buff) (s, fs) = Done (Re_count k, (s\<lparr>drv_buff := ?b\<rparr>, fs[i := (fs ! i)\<lparr>f_pos := off\<rparr>]))"
    using w(1,2) by (simp add: Let_def)
  moreover have "scull_inv (s\<lparr>drv_buff := ?b\<rparr>, fs[i := (fs ! i)\<lparr>f_pos := off\<rparr>])"
    using scull_wf_update [OF wf b(1)] fs m by (simp add: scull_inv_def list_all_update)
  moreover have "scull_file (s\<lparr>drv_buff := ?b\<rparr>, fs[i := (fs ! i)\<lparr>f_pos := off\<rparr>])
      = move_place i k ((scull_file (s, fs))\<lparr>bytes := ?b\<rparr>)"
    using i(1) m by (simp add: scull_file_def move_place_def map_update)
  ultimately show ?thesis
    using i(1) len b(2) by (simp add: scull_file_def room_at_def k_def n_def room_def MAX_BUFF_SIZE_def Let_def)
qed

lemma scull_exec_file:
  assumes inv: "scull_inv st" and ok: "admissible MAX_RW_COUNT x (length (snd st))"
  shows "agrees scull_exec scull_kind scull_file scull_inv lim x st"
proof (cases x)
  case (Dev_open sig)
  with inv show ?thesis
    by (cases st) (simp add: scull_open_def scull_inv_def scull_kind_def scull_file_def new_file_def file_ok_def on_device_def)
next
  case (Dev_close i)
  with inv ok show ?thesis
    by (cases st) (simp add: scull_release_def scull_inv_def scull_file_def list_all_close map_close [symmetric])
next
  case (Dev_read i len)
  with inv ok show ?thesis using scull_read_file [of "fst st" "snd st"] by (simp only: admissible.simps prod.collapse)
next
  case (Dev_write i buff)
  with inv ok show ?thesis using scull_write_file [of "fst st" "snd st"] by (simp only: admissible.simps prod.collapse)
next
  case (Dev_seek i off orig)
  with inv show ?thesis by (simp add: scull_kind_def)
qed

interpretation scull_dev: stored_device scull_exec scull_kind scull_file scull_inv
  by unfold_locales (use scull_exec_file in \<open>simp_all add: scull_file_def scull_kind_def\<close>)

text \<open>
  C16. The driver is a file that every write clears: every sequence of opens, closes, reads and writes on
  any number of descriptors, with whatever partial copies, is answered as by a file of 1024 bytes in which
  a write sets every byte outside the written range to zero, reply by reply, and leaves the bytes and
  positions that file has; no call waits or leaves the buffer.
\<close>

theorem scull_refines_file:
  assumes "scull_wf s"
  shows "map_option (\<lambda>(rs, d). (rs, scull_file d)) (dev_calls scull_exec MAX_RW_COUNT xs (s, []))
    = store_calls scull_kind xs (scull_file (s, []))"
  using scull_dev.calls_abs [of "(s, [])"] assms by (simp add: scull_kind_def scull_inv_def)

theorem scull_refines_file_witness:
  "\<exists>d. dev_calls scull_exec MAX_RW_COUNT
      [(0, Dev_open False), (9, Dev_write 0 ''ab''), (9, Dev_write 0 ''cd''), (0, Dev_open False), (9, Dev_read 1 4)]
      (scull_loaded, [])
    = Some ([Re_open, Re_count 2, Re_count 2, Re_open, Re_data 4 [NUL, NUL, CHR ''c'', CHR ''d'']], d)"
proof -
  let ?xs = "[(0, Dev_open False), (9, Dev_write 0 ''ab''), (9, Dev_write 0 ''cd''), (0, Dev_open False), (9, Dev_read 1 4)]"
  have "store_calls scull_kind ?xs (scull_file (scull_loaded, []))
    = Some ([Re_open, Re_count 2, Re_count 2, Re_open, Re_data 4 [NUL, NUL, CHR ''c'', CHR ''d'']],
        \<lparr>bytes = [NUL, NUL, CHR ''c'', CHR ''d''] @ replicate 1020 NUL, places = [4, 4]\<rparr>)"
    by (simp add: scull_file_def scull_loaded_def scull_kind_def MAX_RW_COUNT_def MAX_BUFF_SIZE_def Let_def room_at_def
        move_place_def numeral_2_eq_2)
  with scull_refines_file [OF scull_wf_loaded, of ?xs] show ?thesis by auto
qed

section \<open>The user program\<close>

definition fgets :: "nat \<Rightarrow> char list \<Rightarrow> string option" where
  \<comment> \<open>\<^verbatim>\<open>fgets(buf, n, stdin)\<close>: at most \<open>n - 1\<close> bytes, through the first newline\<close>
  "fgets n input =
     (if input = [] then None
      else (let line = takeWhile (\<lambda>c. c \<noteq> CHR 0x0A) input;
                line = (if length line < length input then line @ [CHR 0x0A] else line)
            in Some (take (n - 1) line)))"

definition write_to_file :: "bool \<Rightarrow> char list \<Rightarrow> scull_state \<Rightarrow> int \<times> scull_state" where
  \<comment> \<open>\<open>opened\<close> by \<^verbatim>\<open>fopen\<close> or not; the 1023 bytes fit the stdio buffer and reach the driver in
     one \<^verbatim>\<open>write(2)\<close>; the value \<^verbatim>\<open>fwrite\<close> returns is not checked\<close>
  "write_to_file open_ok user_buff s =
     (if \<not> open_ok then (-1, s)
      else case scull_write (\<lambda>_. 0) opened (take (MAX_BUFF_SIZE - 1) user_buff) (of_nat (MAX_BUFF_SIZE - 1)) 0 s of
        Done (ret, off, t) \<Rightarrow> (0, t) | _ \<Rightarrow> (0, s))"

definition read_from_file :: "bool \<Rightarrow> nat \<Rightarrow> char list \<Rightarrow> scull_state \<Rightarrow> char list option" where
  \<comment> \<open>\<^verbatim>\<open>fread\<close> of 1023 bytes through a stdio buffer of \<open>blk\<close> bytes; \<open>None\<close>: the null pointer\<close>
  "read_from_file open_ok blk user_buff s =
     (if \<not> open_ok then None
      else case scull.read_all 1025 blk 0 s of
        None \<Rightarrow> Some user_buff
      | Some bs \<Rightarrow> Some (overwrite (take (MAX_BUFF_SIZE - 1) bs) user_buff))"

datatype user_result = User_exit int string | User_return int

definition user_main ::
  "string list \<Rightarrow> char list \<Rightarrow> bool \<Rightarrow> nat \<Rightarrow> scull_state \<Rightarrow> user_result \<times> scull_state"
where
  \<comment> \<open>arguments \<open>argv\<close> and the standard input; the string is the text of the last line printed
     (\<^verbatim>\<open>printf\<close> shows a null pointer as (null))\<close>
  "user_main argv input open_ok blk s =
     (let user_buff = replicate MAX_BUFF_SIZE NUL
      in if length argv \<noteq> 2 then (User_exit 1 ''Wrong Arguments arg1: read/write'', s)
         else if argv ! 1 = ''read'' then
           (User_exit 0 (''read:'' @ (case read_from_file open_ok blk user_buff s of
              None \<Rightarrow> ''(null)'' | Some b \<Rightarrow> cstr b)), s)
         else if argv ! 1 = ''write'' then
           (case fgets MAX_BUFF_SIZE input of
              None \<Rightarrow> (User_exit 1 ''User input Failed'', s)
            | Some line \<Rightarrow>
                (case write_to_file open_ok (overwrite (line @ [NUL]) user_buff) s of
                   (st, t) \<Rightarrow> if st = 0 then (User_exit 0 ''write succesful'', t)
                               else (User_exit 1 ''write Failed'', t)))
         else (User_return 0, s))"

lemma fgets_line:
  assumes "fgets n input = Some line" "NUL \<notin> set input"
  shows "length line \<le> n - 1 \<and> NUL \<notin> set line"
  using assms by (auto simp: fgets_def Let_def split: if_splits dest!: in_set_takeD set_takeWhileD)

lemma write_to_file_stores:
  assumes "scull_wf s" "length line \<le> 1023" "NUL \<notin> set line"
  shows "write_to_file True (overwrite (line @ [NUL]) (replicate MAX_BUFF_SIZE NUL)) s
    = (0, s\<lparr>drv_buff := line @ replicate (1024 - length line) NUL\<rparr>)"
proof -
  have c: "unat (of_nat 1023 :: s64) = 1023" by (rule unat_s64_of_nat) simp
  have b: "take 1023 (overwrite (line @ [NUL]) (replicate MAX_BUFF_SIZE NUL)) = line @ replicate (1023 - length line) NUL"
  proof -
    have "NUL # replicate (1023 - length line) NUL = replicate (1024 - length line) NUL"
      using assms(2) by (simp add: replicate_Suc [symmetric] Suc_diff_le del: replicate_Suc)
    then have "overwrite (line @ [NUL]) (replicate MAX_BUFF_SIZE NUL) = line @ replicate (1024 - length line) NUL"
      by (simp add: overwrite_def MAX_BUFF_SIZE_def)
    with assms(2) show ?thesis by (simp add: min_def)
  qed
  have m: "MAX_BUFF_SIZE - 1 = 1023" by (simp add: MAX_BUFF_SIZE_def)
  have n: "min (unat (of_nat 1023 :: s64)) (room 0) = 1023" unfolding c new_offset(2) by simp
  obtain ret off where w: "scull_write (\<lambda>_. 0) opened (line @ replicate (1023 - length line) NUL) (of_nat 1023) 0 s
      = Done (ret, off, s\<lparr>drv_buff := replicate 0 NUL @ take 1023 (line @ replicate (1023 - length line) NUL)
          @ replicate (1024 - 1023) NUL\<rparr>)"
    using scull_write_on_device [OF assms(1) opened_private new_offset(1) residual_ok_0, of "of_nat 1023"
        "line @ replicate (1023 - length line) NUL"] assms(2)
    unfolding c n new_offset(2,3) by auto
  have "replicate (1023 - length line) NUL @ [NUL] = replicate (1024 - length line) NUL"
    using assms(2) unfolding replicate_append_same
    by (simp add: replicate_Suc [symmetric] Suc_diff_le del: replicate_Suc)
  with w assms(2) show ?thesis
    unfolding write_to_file_def m b by simp
qed

lemma read_from_file_shows:
  assumes "scull_wf s" "0 < blk" "blk \<le> MAX_RW_COUNT"
  shows "\<exists>b. read_from_file True blk (replicate MAX_BUFF_SIZE NUL) s = Some b
    \<and> cstr b = cstr (take 1023 (drv_buff s))"
proof -
  have "length (drv_buff s) = 1024" using assms(1) by (simp add: scull_wf_def MAX_BUFF_SIZE_def)
  moreover have "scull.read_all 1025 blk 0 s = Some (drv_buff s)"
    using scull.read_all_content [of s blk 0 1025] assms calculation by simp
  ultimately show ?thesis
    using cstr_replicate_NUL [of "take 1023 (drv_buff s)" 1]
    by (simp add: read_from_file_def overwrite_def MAX_BUFF_SIZE_def)
qed

text \<open>
  C15. End to end: on a loaded driver, running the user program with \<^verbatim>\<open>write\<close> and then with \<^verbatim>\<open>read\<close>
  prints exactly the line typed (its first 1023 bytes, newline included), whatever the device held
  before and whatever block size the C library reads with.
\<close>

theorem user_program_roundtrip:
  assumes "scull_wf s" and "0 < blk" and "blk \<le> MAX_RW_COUNT"
    and "NUL \<notin> set input" and "fgets 1024 input = Some line"
  shows "\<exists>t. user_main [prog, ''write''] input True blk s = (User_exit 0 ''write succesful'', t)
    \<and> user_main [prog, ''read''] input2 True blk t = (User_exit 0 (''read:'' @ line), t)"
proof -
  define t where "t = s\<lparr>drv_buff := line @ replicate (1024 - length line) NUL\<rparr>"
  have line: "length line \<le> 1023" "NUL \<notin> set line" using fgets_line [OF assms(5,4)] by auto
  have w: "user_main [prog, ''write''] input True blk s = (User_exit 0 ''write succesful'', t)"
    using write_to_file_stores [OF assms(1) line] assms(5)
    by (simp add: user_main_def Let_def t_def) (simp add: MAX_BUFF_SIZE_def)
  have "scull_wf t" unfolding t_def using line by (intro scull_wf_update assms(1)) simp
  from read_from_file_shows [OF this assms(2,3)] obtain b where
    b: "read_from_file True blk (replicate MAX_BUFF_SIZE NUL) t = Some b"
      "cstr b = cstr (take 1023 (drv_buff t))" by blast
  have "take 1023 (drv_buff t) = line @ replicate (1023 - length line) NUL"
    using line by (simp add: t_def)
  then have "cstr b = line" using b(2) line(2) by (simp add: cstr_no_NUL)
  with w b(1) show ?thesis by (simp add: user_main_def Let_def)
qed

theorem user_program_roundtrip_witness:
  "\<exists>t. user_main [''./user'', ''write''] (''hello'' @ [CHR 0x0A] @ ''rest'') True 4096 scull_loaded
     = (User_exit 0 ''write succesful'', t)
   \<and> user_main [''./user'', ''read''] [] True 4096 t = (User_exit 0 (''read:hello'' @ [CHR 0x0A]), t)"
  using user_program_roundtrip [of scull_loaded 4096 "''hello'' @ [CHR 0x0A] @ ''rest''" "''hello'' @ [CHR 0x0A]"
      "''./user''" "[]"]
  by (simp add: MAX_RW_COUNT_def fgets_def)

section \<open>Loading the module\<close>

text \<open>
  Loading never reports a failure: \<^verbatim>\<open>insmod\<close> gets 0 whether or not the device numbers could be
  allocated and the device added; without device numbers the module deletes a device it has not
  initialised yet, and when adding fails it has released the device numbers, so that unloading it
  releases them, and deletes the device, a second time.
\<close>

lemma module_init_hides_failure:
  "fst (char_module_init a b) = 0
   \<and> (\<exists>rest. snd (char_module_init False b) = [Alloc_region, Unregister_region, Cdev_del] @ rest
          \<and> Cdev_init \<in> set rest \<and> Sema_init \<in> set rest)
   \<and> count_list (snd (char_module_init True False) @ char_module_exit) Alloc_region = 1
   \<and> count_list (snd (char_module_init True False) @ char_module_exit) Unregister_region = 2
   \<and> count_list (snd (char_module_init True False) @ char_module_exit) Cdev_del = 2
   \<and> count_list (snd (char_module_init True True) @ char_module_exit) Unregister_region = 1
   \<and> count_list (snd (char_module_init True True) @ char_module_exit) Cdev_del = 1"
  by (simp add: char_module_init_def setup_char_module_def char_module_exit_def)

end
