(* ===== verification/Seq_Driver.thy ===== *)
theory Seq_Driver
  imports Scull_Driver
begin

text \<open>
  The two variants of the character driver with a file under /proc:
  \<^verbatim>\<open>driver/seq_file_interface/seq_file_interface_char_driver.c\<close>, which keeps a circular list of
  debug nodes shown through the seq_file interface, and
  \<^verbatim>\<open>driver/proc_read_char_driver/proc_read_char_driver.c\<close>.  Their file operations are those of
  \<open>Scull_Driver\<close> on a larger state.
\<close>

section \<open>The circular list\<close>

record proc_debug_struct =
  info :: "char list"     \<comment> \<open>\<^verbatim>\<open>char info[23]\<close>\<close>
  info1 :: "char list"    \<comment> \<open>\<^verbatim>\<open>char info1[20]\<close>\<close>

record seq_state = scull_state +
  list_nodes :: "proc_debug_struct list"   \<comment> \<open>the entries of \<^verbatim>\<open>mydrv_list_head\<close>, in order\<close>

datatype lpos = Head | Entry nat   \<comment> \<open>what a \<^verbatim>\<open>struct list_head *\<close> points to\<close>

fun list_next :: "proc_debug_struct list \<Rightarrow> lpos \<Rightarrow> lpos" where
  "list_next ns Head = (if ns = [] then Head else Entry 0)"
| "list_next ns (Entry i) = (if Suc i < length ns then Entry (Suc i) else Head)"

fun for_each_from :: "nat \<Rightarrow> proc_debug_struct list \<Rightarrow> lpos \<Rightarrow> lpos \<Rightarrow> lpos option" where
  \<comment> \<open>\<^verbatim>\<open>for (p = ...; p != head; p = p->next);\<close> with fuel\<close>
  "for_each_from 0 ns head p = None"
| "for_each_from (Suc k) ns head p = (if p = head then Some p else for_each_from k ns head (list_next ns p))"

definition list_for_each_end :: "proc_debug_struct list \<Rightarrow> lpos \<Rightarrow> lpos option" where
  \<comment> \<open>the cursor after \<^verbatim>\<open>list_for_each_entry(p, head, list);\<close> with an empty body\<close>
  "list_for_each_end ns head = for_each_from (length ns + 2) ns head (list_next ns head)"

section \<open>File operations\<close>

definition update_count :: "int \<Rightarrow> seq_state \<Rightarrow> seq_state outcome" where
  \<comment> \<open>the two traversals and the \<^verbatim>\<open>sprintf\<close> into the node they end at\<close>
  "update_count bytes_write s =
     (case list_for_each_end (list_nodes s) Head of
        None \<Rightarrow> Blocked
      | Some p \<Rightarrow>
          (case list_for_each_end (list_nodes s) (list_next (list_nodes s) p) of
             None \<Rightarrow> Blocked
           | Some Head \<Rightarrow> Fault
           | Some (Entry i) \<Rightarrow>
               (case strcpy (info1 (list_nodes s ! i))
                       (''byte Count='' @ dec (nat bytes_write) @ [CHR 0x0A]) of
                  None \<Rightarrow> Fault
                | Some b \<Rightarrow> Done (s\<lparr>list_nodes := (list_nodes s)[i := (list_nodes s ! i)\<lparr>info1 := b\<rparr>]\<rparr>))))"

definition seq_scull_write ::
  "(nat \<Rightarrow> nat) \<Rightarrow> kfile \<Rightarrow> char list \<Rightarrow> s64 \<Rightarrow> s64 \<Rightarrow> seq_state \<Rightarrow> (s64 \<times> s64 \<times> seq_state) outcome"
where
  "seq_scull_write left filp buff count off s =
     bind_outcome (scull_write left filp buff count off s)
       (\<lambda>(ret, off', s).
          if 0 < sint ret \<and> sint ret < int MAX_BUFF_SIZE
          then bind_outcome (update_count (sint ret) s) (\<lambda>s. Done (ret, off', s))
          else Done (ret, off', s))"

definition seq_scull_read ::
  "(nat \<Rightarrow> nat) \<Rightarrow> kfile \<Rightarrow> s64 \<Rightarrow> s64 \<Rightarrow> seq_state \<Rightarrow> (s64 \<times> char list \<times> s64 \<times> seq_state) outcome"
where
  "seq_scull_read left filp count off s = scull_read left filp count off s"

section \<open>The seq_file operations\<close>

definition mydrv_seq_start :: "seq_state \<Rightarrow> int \<Rightarrow> lpos option" where
  "mydrv_seq_start s pos =
     (case list_for_each_end (list_nodes s) Head of
        None \<Rightarrow> None
      | Some p \<Rightarrow> if pos = 0 then Some (list_next (list_nodes s) p) else None)"

definition mydrv_seq_next :: "seq_state \<Rightarrow> lpos \<Rightarrow> int \<Rightarrow> lpos option \<times> int" where
  \<comment> \<open>the position is handed back as it came\<close>
  "mydrv_seq_next s v pos =
     (let p_list_head = list_next (list_nodes s) v
      in (if p_list_head \<noteq> Head then Some p_list_head else None, pos))"

definition mydrv_seq_show :: "seq_state \<Rightarrow> lpos \<Rightarrow> string outcome" where
  "mydrv_seq_show s v =
     (case v of
        Head \<Rightarrow> Fault
      | Entry i \<Rightarrow> Done (''info:'' @ cstr (info (list_nodes s ! i)) @ cstr (info1 (list_nodes s ! i))))"

definition mydrv_seq_stop :: "seq_state \<Rightarrow> lpos option \<Rightarrow> seq_state" where
  "mydrv_seq_stop s v = s"

text \<open>The iteration the kernel makes over these operations: start, then show and next until NULL.\<close>

fun seq_iterate :: "nat \<Rightarrow> seq_state \<Rightarrow> lpos option \<Rightarrow> int \<Rightarrow> string outcome" where
  "seq_iterate 0 s v pos = Blocked"
| "seq_iterate (Suc k) s None pos = Done []"
| "seq_iterate (Suc k) s (Some v) pos =
     bind_outcome (mydrv_seq_show s v) (\<lambda>out.
       case mydrv_seq_next s v pos of
         (v', pos') \<Rightarrow> bind_outcome (seq_iterate k s v' pos') (\<lambda>rest. Done (out @ rest)))"

definition seq_dump :: "seq_state \<Rightarrow> int \<Rightarrow> string outcome" where
  "seq_dump s pos = seq_iterate (length (list_nodes s) + 2) s (mydrv_seq_start s pos) pos"

section \<open>Loading and unloading\<close>

definition node_info :: "nat \<Rightarrow> char list option" where
  \<comment> \<open>\<^verbatim>\<open>sprintf(info, ...)\<close> into the 23 bytes\<close>
  "node_info n = strcpy (replicate 23 NUL) (''List Node '' @ dec n @ [CHR 0x0A])"

definition node_info1 :: "nat \<Rightarrow> char list option" where
  "node_info1 n = strcpy (replicate 20 NUL) (''byte Count='' @ dec n @ [CHR 0x0A])"

definition seq_module_exit :: "proc_debug_struct list \<Rightarrow> kcall list" where
  "seq_module_exit ns =
     replicate (length ns) Kfree_node
     @ [Unregister_region, Cdev_del, Proc_remove, Proc_remove, Uevent_remove]"

definition seq_setup_char_module ::
  "bool \<Rightarrow> bool \<Rightarrow> bool \<Rightarrow> bool \<Rightarrow> (kcall list \<times> proc_debug_struct list) outcome"
where
  \<comment> \<open>kernels after 3.10.0: a failed \<^verbatim>\<open>proc_create\<close> is reported, then its result dereferenced;
     \<^verbatim>\<open>kmalloc\<close> is not checked\<close>
  "seq_setup_char_module alloc_ok add_ok create_ok kmalloc_ok =
     (let calls = [Alloc_region] @ (if alloc_ok then [] else seq_module_exit [])
            @ [Cdev_init, Cdev_add] @ (if add_ok then [] else seq_module_exit [])
            @ [Sema_init, Proc_mkdir, Proc_create]
      in if \<not> create_ok then Fault
         else if \<not> kmalloc_ok then Fault
         else case (node_info 1, node_info1 0) of
           (Some i, Some i1) \<Rightarrow> Done (calls @ [Kmalloc_node], [] @ [\<lparr>info = i, info1 = i1\<rparr>])
         | _ \<Rightarrow> Fault)"

definition proc_setup_char_module :: "bool \<Rightarrow> bool \<Rightarrow> bool \<Rightarrow> kcall list" where
  \<comment> \<open>the other variant: a failed \<^verbatim>\<open>proc_create\<close> is only printed\<close>
  "proc_setup_char_module alloc_ok add_ok create_ok =
     [Alloc_region] @ (if alloc_ok then [] else char_module_exit)
     @ [Cdev_init, Cdev_add] @ (if add_ok then [] else char_module_exit)
     @ [Sema_init, Proc_mkdir, Proc_create]"

definition proc_module_exit :: "kcall list" where
  "proc_module_exit = [Unregister_region, Cdev_del, Uevent_remove]"

definition seq_module_init :: "bool \<Rightarrow> bool \<Rightarrow> bool \<Rightarrow> bool \<Rightarrow> (int \<times> kcall list \<times> proc_debug_struct list) outcome" where
  "seq_module_init alloc_ok add_ok create_ok kmalloc_ok =
     bind_outcome (seq_setup_char_module alloc_ok add_ok create_ok kmalloc_ok) (\<lambda>(calls, ns). Done (0, calls, ns))"

definition proc_module_init :: "bool \<Rightarrow> bool \<Rightarrow> bool \<Rightarrow> int \<times> kcall list" where
  "proc_module_init alloc_ok add_ok create_ok = (0, proc_setup_char_module alloc_ok add_ok create_ok)"

definition mydrv_seq_open :: "int \<Rightarrow> int" where
  \<comment> \<open>hands on the result of the kernel's \<^verbatim>\<open>seq_open\<close>\<close>
  "mydrv_seq_open seq_open_result = seq_open_result"

text \<open>The remaining file operations of both have the text of those of the character driver.\<close>

definition seq_scull_open :: "nat \<Rightarrow> kfile \<Rightarrow> int \<times> kfile" where
  "seq_scull_open minor filp = scull_open minor filp"

definition seq_scull_release :: "kfile \<Rightarrow> int" where
  "seq_scull_release filp = scull_release filp"

definition proc_scull_open :: "nat \<Rightarrow> kfile \<Rightarrow> int \<times> kfile" where
  "proc_scull_open minor filp = scull_open minor filp"

definition proc_scull_release :: "kfile \<Rightarrow> int" where
  "proc_scull_release filp = scull_release filp"

definition proc_scull_read ::
  "(nat \<Rightarrow> nat) \<Rightarrow> kfile \<Rightarrow> s64 \<Rightarrow> s64 \<Rightarrow> scull_state \<Rightarrow> (s64 \<times> char list \<times> s64 \<times> scull_state) outcome"
where
  "proc_scull_read left filp count off s = scull_read left filp count off s"

definition proc_scull_write ::
  "(nat \<Rightarrow> nat) \<Rightarrow> kfile \<Rightarrow> char list \<Rightarrow> s64 \<Rightarrow> s64 \<Rightarrow> scull_state \<Rightarrow> (s64 \<times> s64 \<times> scull_state) outcome"
where
  "proc_scull_write left filp buff count off s = scull_write left filp buff count off s"

section \<open>Traversals\<close>

definition seq_wf :: "seq_state \<Rightarrow> bool" where
  "seq_wf s \<longleftrightarrow> scull_wf s \<and> list_nodes s \<noteq> []
     \<and> list_all (\<lambda>n. length (info n) = 23 \<and> length (info1 n) = 20) (list_nodes s)"

lemma for_each_to_head:
  "i \<le> length ns \<Longrightarrow> length ns - i < k \<Longrightarrow>
     for_each_from k ns Head (if i < length ns then Entry i else Head) = Some Head"
proof (induction k arbitrary: i)
  case 0
  then show ?case by simp
next
  case (Suc k)
  show ?case
  proof (cases "i < length ns")
    case True
    with Suc.prems Suc.IH [of "Suc i"] show ?thesis by simp
  qed simp
qed

lemma list_for_each_end_head [simp]: "list_for_each_end ns Head = Some Head"
proof (cases "ns = []")
  case True
  then show ?thesis by (simp add: list_for_each_end_def numeral_2_eq_2)
next
  case False
  then have "list_next ns Head = Entry 0" "0 < length ns" by simp_all
  with for_each_to_head [of 0 ns "length ns + 2"] show ?thesis
    unfolding list_for_each_end_def by (simp del: for_each_from.simps)
qed

lemma for_each_to_first:
  "ns \<noteq> [] \<Longrightarrow> 0 < i \<Longrightarrow> i \<le> length ns \<Longrightarrow> length ns - i + 1 < k \<Longrightarrow>
     for_each_from k ns (Entry 0) (if i < length ns then Entry i else Head) = Some (Entry 0)"
proof (induction k arbitrary: i)
  case 0
  then show ?case by simp
next
  case (Suc k)
  show ?case
  proof (cases "i < length ns")
    case True
    with Suc.prems Suc.IH [of "Suc i"] show ?thesis by simp
  next
    case False
    with Suc.prems show ?thesis by (cases k) simp_all
  qed
qed

lemma list_for_each_end_first:
  assumes "ns \<noteq> []"
  shows "list_for_each_end ns (Entry 0) = Some (Entry 0)"
proof -
  have "list_next ns (Entry 0) = (if 1 < length ns then Entry 1 else Head)" by simp
  moreover have "0 < length ns" using assms by simp
  ultimately show ?thesis
    using for_each_to_first [of ns 1 "length ns + 2"] assms
    unfolding list_for_each_end_def
    by (cases "1 < length ns") (simp_all add: Suc_le_eq del: for_each_from.simps list_next.simps)
qed

lemma sprintf_count_fits:
  assumes "0 \<le> n" "n < 1024" "length b = 20"
  shows "\<exists>b'. strcpy b (''byte Count='' @ dec (nat n) @ [CHR 0x0A]) = Some b'
    \<and> cstr b' = ''byte Count='' @ dec (nat n) @ [CHR 0x0A] \<and> length b' = 20"
proof -
  have "length (dec (nat n)) \<le> 4" using assms(2) length_dec_bound [of "nat n" 3] by simp
  then obtain b' where b: "strcpy b (''byte Count='' @ dec (nat n) @ [CHR 0x0A]) = Some b'"
    using strcpy_Some_iff [of b "''byte Count='' @ dec (nat n) @ [CHR 0x0A]"] assms(3) by auto
  with strcpy_SomeD [OF this] assms(3) show ?thesis by (simp add: NUL_notin_dec)
qed

lemma update_count_run:
  assumes "seq_wf s" "0 \<le> n" "n < 1024"
  shows "\<exists>b. update_count n s = Done (s\<lparr>list_nodes := (list_nodes s)[0 := (list_nodes s ! 0)\<lparr>info1 := b\<rparr>]\<rparr>)
    \<and> cstr b = ''byte Count='' @ dec (nat n) @ [CHR 0x0A] \<and> length b = 20"
proof -
  have "length (info1 (list_nodes s ! 0)) = 20"
    using assms(1) by (cases "list_nodes s") (auto simp: seq_wf_def)
  from sprintf_count_fits [OF assms(2,3) this] obtain b where
    "strcpy (info1 (list_nodes s ! 0)) (''byte Count='' @ dec (nat n) @ [CHR 0x0A]) = Some b"
    "cstr b = ''byte Count='' @ dec (nat n) @ [CHR 0x0A]" "length b = 20" by blast
  with assms(1) show ?thesis
    by (auto simp: update_count_def seq_wf_def list_for_each_end_first)
qed

definition node_text :: "proc_debug_struct \<Rightarrow> string" where
  "node_text n = ''info:'' @ cstr (info n) @ cstr (info1 n)"

lemma seq_iterate_from:
  "i < length (list_nodes s) \<Longrightarrow> length (list_nodes s) - i < k \<Longrightarrow>
     seq_iterate k s (Some (Entry i)) pos = Done (concat (map node_text (drop i (list_nodes s))))"
proof (induction k arbitrary: i)
  case 0
  then show ?case by simp
next
  case (Suc k)
  have hd: "drop i (list_nodes s) = list_nodes s ! i # drop (Suc i) (list_nodes s)"
    using Suc.prems(1) by (simp add: Cons_nth_drop_Suc)
  show ?case
  proof (cases "Suc i < length (list_nodes s)")
    case True
    with Suc.prems Suc.IH [of "Suc i"] show ?thesis
      by (simp add: mydrv_seq_show_def mydrv_seq_next_def Let_def hd node_text_def)
  next
    case False
    with Suc.prems show ?thesis
      by (cases k) (simp_all add: mydrv_seq_show_def mydrv_seq_next_def Let_def hd node_text_def)
  qed
qed

lemma seq_dump_nodes:
  "list_nodes s \<noteq> [] \<Longrightarrow> seq_dump s 0 = Done (concat (map node_text (list_nodes s)))"
  using seq_iterate_from [of 0 s "length (list_nodes s) + 2" 0]
  by (simp add: seq_dump_def mydrv_seq_start_def del: seq_iterate.simps)

text \<open>
  Reading the proc file from position 0 shows every node of the list exactly once, in order,
  for a list of any length, and ends; from every later position it shows nothing; and \<^verbatim>\<open>next\<close>
  never advances the position it is given.
\<close>

lemma seq_dump_shows_all:
  assumes "list_nodes s \<noteq> []"
  shows "seq_dump s 0 = Done (concat (map node_text (list_nodes s)))
    \<and> (pos \<noteq> 0 \<longrightarrow> seq_dump s pos = Done []) \<and> snd (mydrv_seq_next s v pos) = pos"
  using seq_dump_nodes [OF assms]
  by (simp add: seq_dump_def mydrv_seq_start_def mydrv_seq_next_def Let_def del: seq_iterate.simps)
    (simp add: numeral_2_eq_2)

definition seq_loaded :: seq_state where
  \<comment> \<open>the state after a successful load\<close>
  "seq_loaded = scull_state.extend scull_loaded
     (case seq_setup_char_module True True True True of
        Done (calls, ns) \<Rightarrow> \<lparr>list_nodes = ns\<rparr> | _ \<Rightarrow> \<lparr>list_nodes = []\<rparr>)"

lemma setup_nodes:
  "\<exists>i i1. node_info 1 = Some i \<and> node_info1 0 = Some i1 \<and> cstr i = ''List Node 1'' @ [CHR 0x0A]
     \<and> cstr i1 = ''byte Count=0'' @ [CHR 0x0A] \<and> length i = 23 \<and> length i1 = 20"
proof -
  have "dec 1 = ''1''" "dec 0 = ''0''"
    by (subst dec.simps, simp add: char_of_eq_iff)+
  moreover have "node_info 1 = Some i \<Longrightarrow> cstr i = ''List Node '' @ dec 1 @ [CHR 0x0A] \<and> length i = 23" for i
    unfolding node_info_def by (drule strcpy_SomeD) (simp_all add: NUL_notin_dec)
  moreover have "node_info1 0 = Some i \<Longrightarrow> cstr i = ''byte Count='' @ dec 0 @ [CHR 0x0A] \<and> length i = 20" for i
    unfolding node_info1_def by (drule strcpy_SomeD) (simp_all add: NUL_notin_dec)
  ultimately show ?thesis by (auto simp: node_info_def node_info1_def strcpy_def)
qed

lemma seq_loaded_nodes:
  "\<exists>i i1. list_nodes seq_loaded = [\<lparr>info = i, info1 = i1\<rparr>] \<and> cstr i = ''List Node 1'' @ [CHR 0x0A]
     \<and> cstr i1 = ''byte Count=0'' @ [CHR 0x0A] \<and> length i = 23 \<and> length i1 = 20"
proof -
  obtain i i1 where i: "node_info 1 = Some i" "node_info1 0 = Some i1" "cstr i = ''List Node 1'' @ [CHR 0x0A]"
      "cstr i1 = ''byte Count=0'' @ [CHR 0x0A]" "length i = 23" "length i1 = 20"
    using setup_nodes by blast
  then have "list_nodes seq_loaded = [\<lparr>info = i, info1 = i1\<rparr>]"
    by (simp add: seq_loaded_def seq_setup_char_module_def Let_def scull_state.extend_def)
  with i show ?thesis by blast
qed

lemma seq_wf_loaded: "seq_wf seq_loaded"
proof -
  have "drv_buff seq_loaded = replicate MAX_BUFF_SIZE NUL" "sem seq_loaded = 1"
    by (simp_all add: seq_loaded_def scull_state.extend_def scull_loaded_def)
  then show ?thesis using seq_loaded_nodes by (auto simp: seq_wf_def scull_wf_def)
qed

lemma seq_loaded_dump:
  "seq_dump seq_loaded 0 = Done (''info:List Node 1'' @ [CHR 0x0A] @ ''byte Count=0'' @ [CHR 0x0A])
   \<and> seq_dump seq_loaded 1 = Done []"
proof -
  have "list_nodes seq_loaded \<noteq> []" using seq_wf_loaded by (simp add: seq_wf_def)
  note seq_dump_shows_all [OF this, of 1]
  moreover obtain i i1 where "list_nodes seq_loaded = [\<lparr>info = i, info1 = i1\<rparr>]"
      "cstr i = ''List Node 1'' @ [CHR 0x0A]" "cstr i1 = ''byte Count=0'' @ [CHR 0x0A]"
    using seq_loaded_nodes by blast
  ultimately show ?thesis by (simp add: node_text_def)
qed

lemma seq_wf_set_info1:
  assumes "seq_wf s" "length b = 20"
  shows "seq_wf (s\<lparr>list_nodes := (list_nodes s)[0 := (list_nodes s ! 0)\<lparr>info1 := b\<rparr>]\<rparr>)"
  using assms by (cases "list_nodes s") (auto simp: seq_wf_def scull_wf_def)

text \<open>
  The byte count shown under /proc: a write of n bytes, 0 < n < 1024, puts the count n into
  the first node (the formatted text always fits its 20 bytes) and leaves the rest of the list
  alone; a write that fills the whole device, or writes nothing, leaves the old count standing.
\<close>

lemma seq_write_updates_count:
  assumes "seq_wf s" and "private_data f" and "on_device off" and "unat count \<le> length buff"
    and "n = min (unat count) (1024 - nat (sint off))"
  shows "\<exists>ret off' t. seq_scull_write (\<lambda>_. 0) f buff count off s = Done (ret, off', t) \<and> sint ret = int n
    \<and> seq_wf t \<and> tl (list_nodes t) = tl (list_nodes s)
    \<and> node_text (hd (list_nodes t)) =
        (if 0 < n \<and> n < 1024
         then ''info:'' @ cstr (info (hd (list_nodes s))) @ ''byte Count='' @ dec n @ [CHR 0x0A]
         else node_text (hd (list_nodes s)))"
proof -
  have wf: "scull_wf s" using assms(1) by (simp add: seq_wf_def)
  have n: "n = min (unat count) (room off)" by (simp add: assms(5) room_def MAX_BUFF_SIZE_def)
  define u where "u = s\<lparr>drv_buff := replicate (nat (sint off)) NUL @ take n buff @ replicate (room off - n) NUL\<rparr>"
  obtain ret off' where w: "scull_write (\<lambda>_. 0) f buff count off s = Done (ret, off', u)" "sint ret = int n"
    using scull_write_on_device [OF wf assms(2,3) residual_ok_0 assms(4)] unfolding u_def n by auto
  have len: "nat (sint off) + room off = 1024" "n \<le> room off" "n \<le> length buff"
    using assms(3,4) by (auto simp: n on_device_def room_def MAX_BUFF_SIZE_def)
  then have u: "seq_wf u" "list_nodes u = list_nodes s"
    using assms(1) by (simp_all add: u_def seq_wf_def scull_wf_def MAX_BUFF_SIZE_def)
  obtain nd ns where s: "list_nodes s = nd # ns" using assms(1) by (cases "list_nodes s") (auto simp: seq_wf_def)
  show ?thesis
  proof (cases "0 < n \<and> n < 1024")
    case True
    then obtain b where b: "update_count (int n) u = Done (u\<lparr>list_nodes := (list_nodes u)[0 := (list_nodes u ! 0)\<lparr>info1 := b\<rparr>]\<rparr>)"
        "cstr b = ''byte Count='' @ dec n @ [CHR 0x0A]" "length b = 20"
      using update_count_run [OF u(1), of "int n"] by auto
    with True w seq_wf_set_info1 [OF u(1) b(3)] show ?thesis
      by (simp add: seq_scull_write_def MAX_BUFF_SIZE_def u(2) s node_text_def)
  next
    case False
    with w u show ?thesis by (auto simp: seq_scull_write_def MAX_BUFF_SIZE_def)
  qed
qed

text \<open>
  Unloading: the seq_file variant frees every node it allocated and gives its proc entry,
  device and device numbers back; the proc variant gives back the device but never removes the
  entry it created under /proc.
\<close>

lemma proc_entry_leaks:
  "\<exists>calls ns. seq_setup_char_module True True True True = Done (calls, ns)
     \<and> count_list (calls @ seq_module_exit ns) Kmalloc_node = count_list (calls @ seq_module_exit ns) Kfree_node
     \<and> count_list (calls @ seq_module_exit ns) Proc_create \<le> count_list (calls @ seq_module_exit ns) Proc_remove
     \<and> count_list (calls @ seq_module_exit ns) Cdev_add = count_list (calls @ seq_module_exit ns) Cdev_del
     \<and> Proc_create \<in> set (proc_setup_char_module a b c) \<and> Proc_remove \<notin> set (proc_setup_char_module a b c @ proc_module_exit)"
proof -
  obtain i i1 where i: "node_info 1 = Some i" "node_info1 0 = Some i1"
    using setup_nodes by blast
  then show ?thesis
    by (simp add: seq_setup_char_module_def Let_def seq_module_exit_def proc_setup_char_module_def
        proc_module_exit_def char_module_exit_def)
qed

end
