(* ===== verification/Seq_Files.thy ===== *)
theory Seq_Files
  imports Seq_Driver
begin

text \<open>
  The seq_file variant of the character driver as a device file: its operations on a table of open files
  are those of the character driver, and beside them the first debug node keeps count of the writes.
\<close>

section \<open>The operations on open files\<close>

type_synonym seq_sys = "seq_state \<times> kfile list"

primrec seq_exec :: "nat \<Rightarrow> dev_op \<Rightarrow> seq_sys \<Rightarrow> (dev_reply \<times> seq_sys) outcome" where
  "seq_exec lim (Dev_open sig) st =
     (let (r, f) = seq_scull_open 0 new_file in Done (if r = 0 then (Re_open, (fst st, snd st @ [f])) else (Re_refused, st)))"
| "seq_exec lim (Dev_close i) st =
     Done (Re_closed (seq_scull_release (snd st ! i)), (fst st, close_file i (snd st)))"
| "seq_exec lim (Dev_read i len) st =
     (let f = snd st ! i
      in bind_outcome (seq_scull_read (\<lambda>n. n - lim) f (of_nat len) (f_pos f) (fst st))
           (\<lambda>(r, bs, off, s). Done (Re_data (nat (sint r)) bs, (s, (snd st)[i := f\<lparr>f_pos := off\<rparr>]))))"
| "seq_exec lim (Dev_write i buff) st =
     (let f = snd st ! i
      in bind_outcome (seq_scull_write (\<lambda>n. n - lim) f buff (of_nat (length buff)) (f_pos f) (fst st))
           (\<lambda>(r, off, s). Done (Re_count (nat (sint r)), (s, (snd st)[i := f\<lparr>f_pos := off\<rparr>]))))"
| "seq_exec lim (Dev_seek i offset orig) st = Done (Re_refused, st)"

definition note_count :: "dev_reply \<Rightarrow> nat option \<Rightarrow> nat option" where
  "note_count r c = (case r of Re_count n \<Rightarrow> if 0 < n \<and> n < 1024 then Some n else c | _ \<Rightarrow> c)"

definition noted :: "dev_reply \<Rightarrow> seq_state \<Rightarrow> seq_state outcome" where
  \<comment> \<open>what the driver does beside the character driver\<close>
  "noted r s = (case note_count r None of None \<Rightarrow> Done s | Some n \<Rightarrow> update_count (int n) s)"

lemma scull_count_range:
  assumes "scull_inv st" "admissible MAX_RW_COUNT (Dev_write i buff) (length (snd st))"
    and "scull_write (\<lambda>n. n - lim) (snd st ! i) buff (of_nat (length buff)) (f_pos (snd st ! i)) (fst st) = Done (ret, off, s)"
  shows "0 \<le> sint ret"
proof -
  let ?f = "snd st ! i"
  have f: "private_data ?f" "on_device (f_pos ?f)" "scull_wf (fst st)" "length buff \<le> MAX_RW_COUNT"
    using assms(1,2) by (auto simp: scull_inv_def file_ok_def list_all_length)
  then have "unat (of_nat (length buff) :: s64) \<le> length buff" by (simp add: unat_s64_of_nat MAX_RW_COUNT_def)
  from scull_write_on_device [OF f(3,1,2) residual_lim [of lim] this] assms(3) show ?thesis by auto
qed

lemma seq_exec_scull:
  assumes "scull_inv st" "admissible MAX_RW_COUNT x (length (snd st))"
  shows "seq_exec lim x st = bind_outcome (scull_exec lim x st)
    (\<lambda>(r, u). bind_outcome (noted r (fst u)) (\<lambda>s. Done (r, (s, snd u))))"
proof (cases x)
  case (Dev_open sig)
  then show ?thesis by (simp add: seq_scull_open_def scull_open_def noted_def note_count_def)
next
  case (Dev_close i)
  then show ?thesis by (simp add: seq_scull_release_def noted_def note_count_def)
next
  case (Dev_read i len)
  then show ?thesis
    by (cases "scull_read (\<lambda>n. n - lim) (snd st ! i) (of_nat len) (f_pos (snd st ! i)) (fst st)")
      (auto simp: seq_scull_read_def noted_def note_count_def Let_def)
next
  case (Dev_write i buff)
  show ?thesis
  proof (cases "scull_write (\<lambda>n. n - lim) (snd st ! i) buff (of_nat (length buff)) (f_pos (snd st ! i)) (fst st)")
    case (Done res)
    obtain ret off s where res: "res = (ret, off, s)" by (cases res)
    with scull_count_range [OF assms(1) assms(2) [unfolded Dev_write] Done [unfolded res]] Done Dev_write show ?thesis
      by (cases "update_count (sint ret) s")
        (auto simp: seq_scull_write_def noted_def note_count_def Let_def MAX_BUFF_SIZE_def zless_nat_eq_int_zless)
  qed (use Dev_write in \<open>simp_all add: seq_scull_write_def Let_def\<close>)
next
  case (Dev_seek i off orig)
  then show ?thesis by (simp add: noted_def note_count_def)
qed

section \<open>The device is the file of the character driver\<close>

definition seq_inv :: "seq_sys \<Rightarrow> bool" where
  "seq_inv st \<longleftrightarrow> scull_inv st \<and> seq_wf (fst st)"

definition count_shown :: "seq_state \<Rightarrow> nat option \<Rightarrow> seq_state \<Rightarrow> bool" where
  \<comment> \<open>since \<open>s0\<close> only the count in the first node has changed, to the one given\<close>
  "count_shown s0 c s \<longleftrightarrow> list_nodes s \<noteq> [] \<and> tl (list_nodes s) = tl (list_nodes s0)
     \<and> info (hd (list_nodes s)) = info (hd (list_nodes s0))
     \<and> cstr (info1 (hd (list_nodes s))) =
         (case c of None \<Rightarrow> cstr (info1 (hd (list_nodes s0))) | Some n \<Rightarrow> ''byte Count='' @ dec n @ [CHR 0x0A])"

lemma noted_run:
  assumes "seq_wf s"
  shows "\<exists>t. noted r s = Done t \<and> seq_wf t \<and> drv_buff t = drv_buff s \<and> sem t = sem s
    \<and> (count_shown s0 c s \<longrightarrow> count_shown s0 (note_count r c) t)"
proof (cases "note_count r None")
  case None
  then have "note_count r c = c" by (auto simp: note_count_def split: dev_reply.splits if_splits)
  with None assms show ?thesis by (simp add: noted_def)
next
  case (Some n)
  then have n: "0 < n" "n < 1024" "note_count r c = Some n"
    by (auto simp: note_count_def split: dev_reply.splits if_splits)
  obtain b where b: "update_count (int n) s = Done (s\<lparr>list_nodes := (list_nodes s)[0 := (list_nodes s ! 0)\<lparr>info1 := b\<rparr>]\<rparr>)"
    "cstr b = ''byte Count='' @ dec n @ [CHR 0x0A]" "length b = 20"
    using update_count_run [OF assms, of "int n"] n by auto
  then show ?thesis
    using Some n(3) seq_wf_set_info1 [OF assms b(3)]
    by (cases "list_nodes s") (simp_all add: noted_def count_shown_def)
qed

lemma scull_exec_nodes:
  "scull_exec lim x st = Done (r, u) \<Longrightarrow> list_nodes (fst u) = list_nodes (fst st)"
  by (cases x) (auto simp: scull_open_def scull_read_def scull_write_def down_def up_def Let_def copy_to_user_def copy_from_user_def
      split: if_splits)

lemma seq_exec_step:
  assumes inv: "seq_inv st" and ok: "admissible MAX_RW_COUNT x (length (snd st))"
  shows "case seq_exec lim x st of
      Done (r, u) \<Rightarrow> seq_inv u \<and> store_exec scull_kind lim x (scull_file st) = Some (r, scull_file u)
        \<and> (count_shown s0 c (fst st) \<longrightarrow> count_shown s0 (note_count r c) (fst u))
    | Blocked \<Rightarrow> store_exec scull_kind lim x (scull_file st) = None
    | Fault \<Rightarrow> False"
proof -
  have si: "scull_inv st" and wf: "seq_wf (fst st)" using inv by (simp_all add: seq_inv_def)
  note e = scull_exec_file [OF si ok, of lim]
  show ?thesis
  proof (cases "scull_exec lim x st")
    case (Done ru)
    obtain r u where ru: "ru = (r, u)" by (cases ru)
    with e Done have u: "scull_inv u" "store_exec scull_kind lim x (scull_file st) = Some (r, scull_file u)" by simp_all
    have nodes: "list_nodes (fst u) = list_nodes (fst st)" using scull_exec_nodes Done ru by blast
    with u(1) wf have "seq_wf (fst u)" by (simp add: seq_wf_def scull_inv_def)
    from noted_run [OF this, of r s0 c] obtain t where
      t: "noted r (fst u) = Done t" "seq_wf t" "drv_buff t = drv_buff (fst u)" "sem t = sem (fst u)"
        "count_shown s0 c (fst u) \<longrightarrow> count_shown s0 (note_count r c) t" by blast
    moreover have "seq_inv (t, snd u)" using u(1) t(2-4) by (simp add: seq_inv_def scull_inv_def scull_wf_def)
    moreover have "scull_file (t, snd u) = scull_file u" using t(3) by (simp add: scull_file_def)
    ultimately show ?thesis
      using Done ru u(2) nodes by (simp add: seq_exec_scull [OF si ok] count_shown_def)
  qed (use e in \<open>simp_all add: seq_exec_scull [OF si ok]\<close>)
qed

interpretation seq_dev: stored_device seq_exec scull_kind scull_file seq_inv
proof
  fix st :: seq_sys and x lim
  assume "seq_inv st" "admissible (max_request scull_kind) x (length (snd st))"
  then have ok: "seq_inv st" "admissible MAX_RW_COUNT x (length (snd st))" by (simp_all add: scull_kind_def)
  show "case seq_exec lim x st of
      Done (r, u) \<Rightarrow> seq_inv u \<and> store_exec scull_kind lim x (scull_file st) = Some (r, scull_file u)
    | Blocked \<Rightarrow> store_exec scull_kind lim x (scull_file st) = None
    | Fault \<Rightarrow> False"
  proof (cases "seq_exec lim x st")
    case (Done ru)
    then show ?thesis using seq_exec_step [OF ok, of lim] by (cases ru) simp
  qed (use seq_exec_step [OF ok, of lim] in simp_all)
qed (simp_all add: scull_file_def scull_kind_def)

lemma calls_count:
  "dev_calls seq_exec MAX_RW_COUNT xs st = Some (rs, u) \<Longrightarrow> seq_inv st \<Longrightarrow> count_shown s0 c (fst st)
   \<Longrightarrow> count_shown s0 (fold note_count rs c) (fst u)"
proof (induction xs arbitrary: st rs c)
  case Nil
  then show ?case by simp
next
  case (Cons y xs)
  obtain lim x where y: "y = (lim, x)" by fastforce
  with Cons.prems(1) obtain r v rs' where x: "admissible MAX_RW_COUNT x (length (snd st))" "seq_exec lim x st = Done (r, v)"
    "dev_calls seq_exec MAX_RW_COUNT xs v = Some (rs', u)" "rs = r # rs'"
    by (auto split: if_splits outcome.splits)
  with seq_exec_step [OF Cons.prems(2) x(1), of lim s0 c] Cons.prems(3) have
    "seq_inv v" "count_shown s0 (note_count r c) (fst v)" by simp_all
  from Cons.IH [OF x(3) this] x(4) show ?case by simp
qed

text \<open>
  C17. The seq_file variant is the same file with a record of it: every sequence of opens, closes, reads
  and writes is answered as by the file of the character driver, and afterwards /proc shows the list of
  nodes as it was, with the count in the first node replaced by that of the last write that stored
  between 1 and 1023 bytes, if there was one.
\<close>

theorem seq_refines_file:
  assumes "seq_wf s"
  shows "map_option (\<lambda>(rs, d). (rs, scull_file d)) (dev_calls seq_exec MAX_RW_COUNT xs (s, []))
      = store_calls scull_kind xs (scull_file (s, []))
    \<and> (\<forall>rs t fs. dev_calls seq_exec MAX_RW_COUNT xs (s, []) = Some (rs, t, fs) \<longrightarrow>
        seq_dump t 0 = Done (''info:'' @ cstr (info (hd (list_nodes s)))
          @ (case fold note_count rs None of
               None \<Rightarrow> cstr (info1 (hd (list_nodes s))) | Some n \<Rightarrow> ''byte Count='' @ dec n @ [CHR 0x0A])
          @ concat (map node_text (tl (list_nodes s)))))"
proof -
  have inv: "seq_inv (s, [])" using assms by (simp add: seq_inv_def seq_wf_def scull_inv_def)
  have ne: "list_nodes s \<noteq> []" using assms by (simp add: seq_wf_def)
  then have c0: "count_shown s None s" by (simp add: count_shown_def)
  have "seq_dump t 0 = Done (''info:'' @ cstr (info (hd (list_nodes s)))
        @ (case fold note_count rs None of
             None \<Rightarrow> cstr (info1 (hd (list_nodes s))) | Some n \<Rightarrow> ''byte Count='' @ dec n @ [CHR 0x0A])
        @ concat (map node_text (tl (list_nodes s))))"
    if "dev_calls seq_exec MAX_RW_COUNT xs (s, []) = Some (rs, t, fs)" for rs t fs
  proof -
    have c: "count_shown s (fold note_count rs None) t" using calls_count [OF that inv, of s None] c0 by simp
    then have "list_nodes t = hd (list_nodes t) # tl (list_nodes t)" unfolding count_shown_def by (metis list.collapse)
    then have "map node_text (list_nodes t) = node_text (hd (list_nodes t)) # map node_text (tl (list_nodes t))"
      by (metis list.simps(9))
    with c seq_dump_nodes [of t] show ?thesis by (simp add: count_shown_def node_text_def)
  qed
  with seq_dev.calls_abs [OF inv, of xs] show ?thesis by (simp add: scull_kind_def)
qed

theorem seq_refines_file_witness:
  "\<exists>t fs. dev_calls seq_exec MAX_RW_COUNT [(0, Dev_open False), (9, Dev_write 0 ''abc'')] (seq_loaded, [])
      = Some ([Re_open, Re_count 3], t, fs)
    \<and> seq_dump t 0 = Done (''info:List Node 1'' @ [CHR 0x0A] @ ''byte Count=3'' @ [CHR 0x0A])"
proof -
  let ?xs = "[(0, Dev_open False), (9, Dev_write 0 ''abc'')]"
  obtain i i1 where i: "list_nodes seq_loaded = [\<lparr>info = i, info1 = i1\<rparr>]" "cstr i = ''List Node 1'' @ [CHR 0x0A]"
    using seq_loaded_nodes by blast
  have b: "drv_buff seq_loaded = replicate 1024 NUL"
    by (simp add: seq_loaded_def scull_state.extend_def scull_loaded_def MAX_BUFF_SIZE_def)
  note r = seq_refines_file [OF seq_wf_loaded, of ?xs]
  have "\<exists>u. store_calls scull_kind ?xs (scull_file (seq_loaded, [])) = Some ([Re_open, Re_count 3], u)"
    by (simp add: scull_file_def b scull_kind_def MAX_RW_COUNT_def Let_def room_at_def move_place_def)
  with r obtain t fs where c: "dev_calls seq_exec MAX_RW_COUNT ?xs (seq_loaded, []) = Some ([Re_open, Re_count 3], t, fs)"
    by auto
  have "dec 3 = ''3''" by (subst dec.simps) (simp add: char_of_eq_iff)
  with r c i show ?thesis by (auto simp: note_count_def)
qed

end
