(* ===== verification/Online_Driver.thy ===== *)
theory Online_Driver
  imports Device_Files
begin

text \<open>
  The character driver of \<^verbatim>\<open>driver/online_char_driver/online_char_driver.c\<close> (the same code is in
  \<^verbatim>\<open>driver/online_sample/online_driver.c\<close>), built for 32-bit ARM: \<^verbatim>\<open>size_t\<close>, \<^verbatim>\<open>ssize_t\<close> and
  \<^verbatim>\<open>int\<close> are 32 bits, \<^verbatim>\<open>loff_t\<close> is 64.  A semaphore taken in \<^verbatim>\<open>open\<close> and given back in
  \<^verbatim>\<open>close\<close> is meant to admit one user at a time; \<open>online_exec\<close> runs the operations on a table of
  open files.
\<close>

section \<open>The operations\<close>

definition BUFFER_SIZE :: nat where
  "BUFFER_SIZE = 1024"

record online_state =
  device_buffer :: "char list"
  osem :: nat
  oret :: int     \<comment> \<open>the global \<^verbatim>\<open>ret\<close>\<close>

definition device_open :: "bool \<Rightarrow> online_state \<Rightarrow> (int \<times> online_state) outcome" where
  \<comment> \<open>\<open>signalled\<close>: a signal ends the sleep on the semaphore\<close>
  "device_open signalled s =
     (if 0 < osem s then Done (0, s\<lparr>osem := osem s - 1\<rparr>)
      else if signalled then Done (-1, s) else Blocked)"

definition online_count :: "s32 \<Rightarrow> s64 \<Rightarrow> s32" where
  \<comment> \<open>\<^verbatim>\<open>maxbytes > length\<close> compares an \<^verbatim>\<open>int\<close> with an unsigned \<^verbatim>\<open>size_t\<close> of the same width\<close>
  "online_count len ppos =
     (let maxbytes = (ucast ((1024 :: s64) - ppos) :: s32) in if maxbytes > len then len else maxbytes)"

definition device_read ::
  "(nat \<Rightarrow> nat) \<Rightarrow> s32 \<Rightarrow> s64 \<Rightarrow> online_state \<Rightarrow> (s32 \<times> char list \<times> s64) outcome"
where
  "device_read left len ppos s =
     (let bytes_to_read = online_count len ppos
      in bind_outcome
           (copy_to_user left (device_buffer s) (sint (ucast ppos :: s32)) (unat bytes_to_read))
           (\<lambda>(rest, data).
              let bytes_read = bytes_to_read - of_nat rest
              in Done (bytes_read, data, ppos + scast bytes_read)))"

definition device_write ::
  "(nat \<Rightarrow> nat) \<Rightarrow> char list \<Rightarrow> s32 \<Rightarrow> s64 \<Rightarrow> online_state \<Rightarrow> (s32 \<times> s64 \<times> online_state) outcome"
where
  "device_write left buff len ppos s =
     (let bytes_to_write = online_count len ppos
      in bind_outcome
           (copy_from_user left (device_buffer s) (sint (ucast ppos :: s32)) buff (unat bytes_to_write))
           (\<lambda>(rest, b).
              let bytes_writen = bytes_to_write - of_nat rest
              in Done (bytes_writen, ppos + scast bytes_writen, s\<lparr>device_buffer := b\<rparr>)))"

definition device_lseek :: "s64 \<Rightarrow> s64 \<Rightarrow> int \<Rightarrow> s64" where
  \<comment> \<open>arguments \<^verbatim>\<open>file->f_pos\<close>, \<open>offset\<close>, \<open>orig\<close>; the result is returned and stored in \<^verbatim>\<open>f_pos\<close>\<close>
  "device_lseek fpos offset orig =
     (let new_pos = (if orig = 0 then offset else if orig = 1 then fpos + offset
            else if orig = 2 then 1024 - offset else 0);
          new_pos = (if sint new_pos > 1024 then 1024 else new_pos);
          new_pos = (if sint new_pos < 0 then 0 else new_pos)
      in new_pos)"

definition device_close :: "online_state \<Rightarrow> int \<times> online_state" where
  "device_close s = (oret s, s\<lparr>osem := osem s + 1\<rparr>)"

definition chardev_init :: "int \<Rightarrow> bool \<Rightarrow> int \<Rightarrow> online_state \<Rightarrow> (int \<times> kcall list \<times> online_state) outcome" where
  \<comment> \<open>the results of \<^verbatim>\<open>alloc_chrdev_region\<close>, \<^verbatim>\<open>cdev_alloc\<close> (not checked) and \<^verbatim>\<open>cdev_add\<close>; the
     semaphore is set up last\<close>
  "chardev_init alloc_ret cdev_ok add_ret s =
     (let s = s\<lparr>oret := alloc_ret\<rparr>
      in if oret s < 0 then Done (oret s, [Alloc_region], s)
         else if \<not> cdev_ok then Fault
         else (let s = s\<lparr>oret := add_ret\<rparr>
               in if oret s < 0 then Done (oret s, [Alloc_region, Cdev_init, Cdev_add], s)
                  else Done (0, [Alloc_region, Cdev_init, Cdev_add, Sema_init], s\<lparr>osem := 1\<rparr>)))"

definition chardev_exit :: "kcall list" where
  "chardev_exit = [Cdev_del, Unregister_region]"

section \<open>Arithmetic\<close>

definition opos :: "s64 \<Rightarrow> bool" where
  "opos p \<longleftrightarrow> 0 \<le> sint p \<and> sint p \<le> 1024"

lemma ppos_pointer: "opos p \<Longrightarrow> sint (ucast p :: s32) = sint p"
  using ucast_s32_of_int [of "sint p"] sint_s32_of_int [of "sint p"] by (simp add: opos_def)

lemma uint_s32_of_int: "0 \<le> k \<Longrightarrow> k < 2 ^ 32 \<Longrightarrow> uint (of_int k :: s32) = k"
  by (simp add: unsigned_of_int take_bit_int_eq_self)

lemma unat_s32_of_nat: "n < 2 ^ 32 \<Longrightarrow> unat (of_nat n :: s32) = n"
  by (simp add: unsigned_of_nat take_bit_nat_eq_self)

lemma online_count_eq:
  assumes "opos p"
  shows "unat (online_count len p) = min (unat len) (1024 - nat (sint p))"
proof -
  define m where "m = nat (1024 - sint p)"
  have m: "int m = 1024 - sint p" "m \<le> 1024" "1024 - nat (sint p) = m"
    using assms unfolding m_def opos_def by linarith+
  have "(1024 :: s64) - p = of_int (int m)" unfolding m(1) by simp
  then have "(ucast ((1024 :: s64) - p) :: s32) = of_nat m"
    using ucast_s32_of_int [of "int m"] by simp
  moreover have "unat (of_nat m :: s32) = m" using m(2) by (intro unat_s32_of_nat) simp
  ultimately show ?thesis
    using m(3) by (simp add: online_count_def Let_def word_less_nat_alt)
qed

lemma online_result:
  assumes "opos p" and "r \<le> unat (online_count len p)"
  shows "unat (online_count len p - of_nat r) = unat (online_count len p) - r"
    and "sint (p + scast (online_count len p - of_nat r)) = sint p + int (unat (online_count len p) - r)"
proof -
  define n where "n = unat (online_count len p)"
  have n: "n \<le> 1024" "int n + sint p \<le> 1024"
    using online_count_eq [OF assms(1), of len] assms(1) by (auto simp: n_def opos_def)
  have "online_count len p = of_nat n" by (simp add: n_def)
  then have e: "online_count len p - of_nat r = of_nat (n - r)"
    using assms(2) by (simp add: n_def of_nat_diff)
  show "unat (online_count len p - of_nat r) = unat (online_count len p) - r"
    unfolding e n_def [symmetric] using n by (intro unat_s32_of_nat) simp
  have "(scast (of_int (int (n - r)) :: s32) :: s64) = of_int (int (n - r))"
    using n by (intro scast_s64_of_int) auto
  then have "p + scast (of_nat (n - r) :: s32) = of_int (sint p + int (n - r))" by simp
  moreover have "0 \<le> sint p + int (n - r)" "sint p + int (n - r) \<le> 1024"
    using n assms(1) by (auto simp: opos_def)
  ultimately show "sint (p + scast (online_count len p - of_nat r)) = sint p + int (unat (online_count len p) - r)"
    unfolding e n_def [symmetric] by (simp add: sint_s64_of_int del: of_int_add)
qed

lemma lseek_on_device: "opos (device_lseek fpos offset orig)"
proof -
  have "sint (1024 :: s64) = 1024" using sint_s64_of_int [of 1024] by simp
  then show ?thesis by (simp add: device_lseek_def opos_def Let_def)
qed

section \<open>Effect of read and write\<close>

lemma device_read_run:
  fixes len :: s32
  assumes "length (device_buffer s) = 1024" "opos p" "residual_ok left"
  defines "n \<equiv> unat (online_count len p)"
  shows "\<exists>ret p'. device_read left len p s = Done (ret, take (n - left n) (drop (nat (sint p)) (device_buffer s)), p')
    \<and> unat ret = n - left n \<and> sint p' = sint p + int (n - left n) \<and> opos p'"
proof -
  have r: "left n \<le> n" using assms(3) by (simp add: residual_ok_def)
  have n: "n \<le> 1024" "int n + sint p \<le> 1024"
    using online_count_eq [OF assms(2), of len] assms(2) by (auto simp: n_def opos_def)
  then have "in_range (device_buffer s) (sint p) (n - left n)"
    using assms(1,2) by (auto simp: in_range_def opos_def)
  then show ?thesis
    using online_result [OF assms(2) r [unfolded n_def]] n r assms(2)
    by (auto simp: device_read_def Let_def ppos_pointer copy_to_user_def n_def [symmetric] opos_def)
qed

lemma device_write_run:
  fixes len :: s32
  assumes "length (device_buffer s) = 1024" "opos p" "residual_ok left" "unat len \<le> length buff"
  defines "n \<equiv> unat (online_count len p)"
  shows "\<exists>ret p' b. device_write left buff len p s = Done (ret, p', s\<lparr>device_buffer := b\<rparr>)
    \<and> unat ret = n - left n \<and> sint p' = sint p + int (n - left n) \<and> opos p' \<and> length b = 1024
    \<and> b = take (nat (sint p)) (device_buffer s) @ take (n - left n) buff @ replicate (left n) NUL
          @ drop (nat (sint p) + n) (device_buffer s)"
proof -
  have r: "left n \<le> n" using assms(3) by (simp add: residual_ok_def)
  have n: "n \<le> 1024" "int n + sint p \<le> 1024" "n \<le> length buff"
    using online_count_eq [OF assms(2), of len] assms(2,4) by (auto simp: n_def opos_def)
  then have "in_range (device_buffer s) (sint p) n"
    using assms(1,2) by (auto simp: in_range_def opos_def)
  moreover have "nat (sint p) + n \<le> 1024" using n(2) assms(2) by (simp add: opos_def)
  ultimately show ?thesis
    using online_result [OF assms(2) r [unfolded n_def]] n r assms(1,2)
    by (auto simp: device_write_def Let_def ppos_pointer copy_from_user_def n_def [symmetric] opos_def)
qed

section \<open>Open files\<close>

type_synonym online_sys = "online_state \<times> s64 list"   \<comment> \<open>driver state and \<^verbatim>\<open>f_pos\<close> of the open files\<close>

primrec online_exec :: "nat \<Rightarrow> dev_op \<Rightarrow> online_sys \<Rightarrow> (dev_reply \<times> online_sys) outcome" where
  \<comment> \<open>the first argument: how many bytes the copies move at most\<close>
  "online_exec lim (Dev_open sig) st =
     bind_outcome (device_open sig (fst st))
       (\<lambda>(r, s). Done (if r = 0 then (Re_open, (s, snd st @ [0])) else (Re_refused, (s, snd st))))"
| "online_exec lim (Dev_close i) st =
     Done (Re_closed (fst (device_close (fst st))), (snd (device_close (fst st)), close_file i (snd st)))"
| "online_exec lim (Dev_read i len) st =
     bind_outcome (device_read (\<lambda>n. n - lim) (of_nat len) (snd st ! i) (fst st))
       (\<lambda>(r, bs, p). Done (Re_data (unat r) bs, (fst st, (snd st)[i := p])))"
| "online_exec lim (Dev_write i buff) st =
     bind_outcome (device_write (\<lambda>n. n - lim) buff (of_nat (length buff)) (snd st ! i) (fst st))
       (\<lambda>(r, p, s). Done (Re_count (unat r), (s, (snd st)[i := p])))"
| "online_exec lim (Dev_seek i offset orig) st =
     (let p = device_lseek (snd st ! i) offset orig in Done (Re_pos (nat (sint p)), (fst st, (snd st)[i := p])))"

definition SIZE_MAX :: nat where
  "SIZE_MAX = 2 ^ 32 - 1"

abbreviation op_ok :: "dev_op \<Rightarrow> online_sys \<Rightarrow> bool" where
  \<comment> \<open>the file is open; a request fits \<^verbatim>\<open>size_t\<close>\<close>
  "op_ok x st \<equiv> admissible SIZE_MAX x (length (snd st))"

definition online_loaded :: "online_state \<Rightarrow> bool" where
  \<comment> \<open>the state a successful \<^verbatim>\<open>insmod\<close> leaves\<close>
  "online_loaded s \<longleftrightarrow> (\<exists>s0 calls. length (device_buffer s0) = BUFFER_SIZE
     \<and> chardev_init 0 True 0 s0 = Done (0, calls, s))"

inductive online_reach :: "online_sys \<Rightarrow> bool" where
  load: "online_loaded s \<Longrightarrow> online_reach (s, [])"
| op: "online_reach st \<Longrightarrow> op_ok x st \<Longrightarrow> online_exec lim x st = Done (r, st') \<Longrightarrow> online_reach st'"

definition online_inv :: "online_sys \<Rightarrow> bool" where
  "online_inv st \<longleftrightarrow> length (device_buffer (fst st)) = 1024 \<and> osem (fst st) + length (snd st) = 1
     \<and> oret (fst st) = 0 \<and> list_all opos (snd st)"

lemma opos_0 [simp]: "opos 0"
  by (simp add: opos_def)

lemma op_len: "n \<le> SIZE_MAX \<Longrightarrow> unat (of_nat n :: s32) = n"
  by (rule unat_s32_of_nat) (simp add: SIZE_MAX_def)

lemma sem_free: "a + length fs = Suc 0 \<Longrightarrow> 0 < a \<longleftrightarrow> fs = []"
  by (cases fs) auto

section \<open>The device is a file\<close>

definition online_kind :: file_kind where
  \<comment> \<open>a write replaces the bytes it covers\<close>
  "online_kind = \<lparr>put = (\<lambda>c p w. take p c @ w @ drop (p + length w) c), exclusive = True, seekable = True,
     max_request = SIZE_MAX\<rparr>"

definition online_file :: "online_sys \<Rightarrow> store" where
  "online_file st = \<lparr>bytes = device_buffer (fst st), places = map (\<lambda>p. nat (sint p)) (snd st)\<rparr>"

lemma sint_wrap:
  assumes "- (2 ^ 63) \<le> k" "k < 2 ^ 64"
  shows "sint (of_int k :: s64) = (if k < 2 ^ 63 then k else k - 2 ^ 64)"
proof (cases "k < 2 ^ 63")
  case False
  have "(of_int k :: s64) = of_int (k - 2 ^ 64)" by simp
  then show ?thesis using False assms sint_s64_of_int [of "k - 2 ^ 64"] by (simp del: of_int_diff)
qed (use assms in \<open>simp add: sint_s64_of_int\<close>)

lemma lseek_target:
  assumes "opos fpos"
  shows "sint (device_lseek fpos off orig) = int (seek_to 1024 (seek_target 1024 (nat (sint fpos)) (sint off) orig))"
proof -
  define k where "k = seek_target 1024 (nat (sint fpos)) (sint off) orig"
  have b: "- (2 ^ 63) \<le> sint off" "sint off < 2 ^ 63" using sint_range_size [of off] by (simp_all add: word_size)
  then have k: "- (2 ^ 63) \<le> k" "k < 2 ^ 64" using assms by (auto simp: k_def seek_target_def opos_def)
  have c: "sint (1024 :: s64) = 1024" using sint_s64_of_int [of 1024] by simp
  have "(if orig = 0 then off else if orig = 1 then fpos + off else if orig = 2 then 1024 - off else 0) = of_int k"
    using assms by (simp add: k_def seek_target_def opos_def)
  then show ?thesis
    using sint_wrap [OF k] c k unfolding k_def [symmetric]
    by (simp add: device_lseek_def Let_def seek_to_def)
qed

lemma online_room: "opos p \<Longrightarrow> len \<le> SIZE_MAX \<Longrightarrow> unat (online_count (of_nat len) p) = min len (1024 - nat (sint p))"
  by (simp add: online_count_eq op_len)

lemma moved_place: "sint p' = sint p + int k \<Longrightarrow> opos p \<Longrightarrow> nat (sint p') = nat (sint p) + k" for p p' :: s64
  by (simp add: opos_def nat_add_distrib)

lemma online_read_file:
  assumes inv: "online_inv (s, fs)" and i: "i < length fs" "len' \<le> SIZE_MAX"
  shows "agrees online_exec online_kind online_file online_inv lim (Dev_read i len') (s, fs)"
proof -
  have len: "length (device_buffer s) = 1024" and pos: "opos (fs ! i)"
    using inv i(1) by (simp_all add: online_inv_def list_all_length)
  define k where "k = min lim (min len' (1024 - nat (sint (fs ! i))))"
  have e: "unat (online_count (of_nat len') (fs ! i)) - (unat (online_count (of_nat len') (fs ! i)) - lim) = k"
    unfolding online_room [OF pos i(2)] k_def by (rule moved_bytes)
  obtain ret p' where
    r: "device_read (\<lambda>n. n - lim) (of_nat len') (fs ! i) s = Done (ret, take k (drop (nat (sint (fs ! i))) (device_buffer s)), p')"
      "unat ret = k" "sint p' = sint (fs ! i) + int k" "opos p'"
    using device_read_run [OF len pos residual_lim [of lim], of "of_nat len'", unfolded e] by blast
  have "online_exec lim (Dev_read i len') (s, fs) = Done (Re_data k (take k (drop (nat (sint (fs ! i))) (device_buffer s))), (s, fs[i := p']))"
    using r(1,2) by simp
  moreover have "online_inv (s, fs[i := p'])" using inv r(4) by (simp add: online_inv_def list_all_update)
  moreover have "online_file (s, fs[i := p']) = move_place i k (online_file (s, fs))"
    using i(1) moved_place [OF r(3) pos] by (simp add: online_file_def move_place_def map_update)
  ultimately show ?thesis
    using i(1) len by (simp add: online_file_def room_at_def k_def Let_def)
qed

lemma online_write_file:
  assumes inv: "online_inv (s, fs)" and i: "i < length fs" "length buff \<le> SIZE_MAX"
  shows "agrees online_exec online_kind online_file online_inv lim (Dev_write i buff) (s, fs)"
proof -
  have len: "length (device_buffer s) = 1024" and pos: "opos (fs ! i)"
    using inv i(1) by (simp_all add: online_inv_def list_all_length)
  have "unat (of_nat (length buff) :: s32) \<le> length buff" using i(2) by (simp add: op_len)
  note w = device_write_run [OF len pos residual_lim [of lim] this]
  define n where "n = min (length buff) (1024 - nat (sint (fs ! i)))"
  define k where "k = min lim n"
  have n: "unat (online_count (of_nat (length buff)) (fs ! i)) = n" "n - (n - lim) = k" "n - lim = n - k" "k \<le> n"
    unfolding online_room [OF pos i(2)] n_def k_def by (simp, rule moved_bytes, rule moved_bytes, auto)
  obtain ret p' b where
    w: "device_write (\<lambda>n. n - lim) buff (of_nat (length buff)) (fs ! i) s = Done (ret, p', s\<lparr>device_buffer := b\<rparr>)"
      "unat ret = k" "sint p' = sint (fs ! i) + int k" "opos p'" "length b = 1024"
      "b = take (nat (sint (fs ! i))) (device_buffer s) @ take k buff @ replicate (n - k) NUL
        @ drop (nat (sint (fs ! i)) + n) (device_buffer s)"
    using w [unfolded n(1), unfolded n(2), unfolded n(3)] by blast
  have "online_exec lim (Dev_write i buff) (s, fs) = Done (Re_count k, (s\<lparr>device_buffer := b\<rparr>, fs[i := p']))"
    using w(1,2) by simp
  moreover have "online_inv (s\<lparr>device_buffer := b\<rparr>, fs[i := p'])"
    using inv w(4,5) by (simp add: online_inv_def list_all_update)
  moreover have "online_file (s\<lparr>device_buffer := b\<rparr>, fs[i := p']) = move_place i k ((online_file (s, fs))\<lparr>bytes := b\<rparr>)"
    using i(1) moved_place [OF w(3) pos] by (simp add: online_file_def move_place_def map_update)
  moreover have "length (take k buff @ replicate (n - k) NUL) = n" using n(4) by (simp add: n_def)
  then have "b = put online_kind (device_buffer s) (nat (sint (fs ! i))) (take k buff @ replicate (n - k) NUL)"
    unfolding w(6) by (simp add: online_kind_def)
  ultimately show ?thesis
    using i(1) len by (simp add: online_file_def room_at_def k_def n_def Let_def)
qed

lemma online_open_file:
  assumes inv: "online_inv (s, fs)"
  shows "agrees online_exec online_kind online_file online_inv lim (Dev_open sig) (s, fs)"
proof (cases "fs = []")
  case True
  with inv show ?thesis by (simp add: device_open_def online_inv_def online_kind_def online_file_def)
next
  case False
  with inv have "osem s = 0" by (cases fs) (auto simp: online_inv_def)
  with False inv show ?thesis by (simp add: device_open_def online_kind_def online_file_def)
qed

lemma online_exec_file:
  assumes inv: "online_inv st" and ok: "op_ok x st"
  shows "agrees online_exec online_kind online_file online_inv lim x st"
proof (cases x)
  case (Dev_open sig)
  with inv show ?thesis using online_open_file [of "fst st" "snd st"] by (simp only: prod.collapse)
next
  case (Dev_close i)
  obtain s fs where st: "st = (s, fs)" by fastforce
  with Dev_close ok have "Suc (length (close_file i fs)) = length fs" by (intro length_close) simp
  moreover have "osem s + length fs = 1" using inv by (simp add: st online_inv_def)
  ultimately have "osem s = 0" "length (close_file i fs) = 0" by linarith+
  with Dev_close st inv show ?thesis
    by (simp add: device_close_def online_inv_def online_file_def map_close [symmetric])
next
  case (Dev_read i len)
  with inv ok show ?thesis using online_read_file [of "fst st" "snd st"] by (simp only: admissible.simps prod.collapse)
next
  case (Dev_write i buff)
  with inv ok show ?thesis using online_write_file [of "fst st" "snd st"] by (simp only: admissible.simps prod.collapse)
next
  case (Dev_seek i off orig)
  obtain s fs where st: "st = (s, fs)" by fastforce
  with Dev_seek ok inv have i: "i < length fs" "opos (fs ! i)" by (simp_all add: online_inv_def list_all_length)
  with Dev_seek st inv lseek_on_device lseek_target [OF i(2)] show ?thesis
    by (simp add: online_inv_def online_file_def online_kind_def Let_def list_all_update map_update)
qed

interpretation online_dev: stored_device online_exec online_kind online_file online_inv
  by unfold_locales (use online_exec_file in \<open>simp_all add: online_file_def online_kind_def\<close>)

lemma online_exec_inv:
  "online_inv st \<Longrightarrow> op_ok x st \<Longrightarrow> online_exec lim x st = Done (r, u) \<Longrightarrow> online_inv u"
  using online_exec_file [of st x lim] by simp

lemma online_reach_inv: "online_reach st \<Longrightarrow> online_inv st"
proof (induction rule: online_reach.induct)
  case (load s)
  then show ?case
    by (auto simp: online_loaded_def online_inv_def chardev_init_def Let_def BUFFER_SIZE_def)
next
  case (op st x lim r st')
  then show ?case using online_exec_inv by blast
qed

text \<open>
  One user at a time: after a successful load, whatever opens, closes, reads, writes and
  seeks follow, at most one file is open on the device, and the next open succeeds exactly when
  none is.
\<close>

lemma online_exclusive_open:
  assumes "online_reach (s, files)"
  shows "length files \<le> 1 \<and> ((\<exists>s'. device_open sig s = Done (0, s')) \<longleftrightarrow> files = [])"
  using online_reach_inv [OF assms] by (auto simp: online_inv_def device_open_def sem_free)

text \<open>
  C22. No operation through an open file leaves the 1024 bytes of the device: the file position
  always stays between 0 and 1024, also under seeks with overflowing arguments and partial copies,
  and no read or write faults.
\<close>

theorem online_no_fault:
  assumes "online_reach (s, files)" and "op_ok x (s, files)"
  shows "online_exec lim x (s, files) \<noteq> Fault \<and> (\<forall>p \<in> set files. 0 \<le> sint p \<and> sint p \<le> 1024)"
  using online_dev.calls_no_fault [of "(s, files)" x lim] online_reach_inv [OF assms(1)] assms(2)
  by (auto simp: online_inv_def list_all_iff opos_def online_kind_def)

definition online_sample :: online_state where
  "online_sample = \<lparr>device_buffer = replicate 1024 NUL, osem = 1, oret = 0\<rparr>"

lemma online_sample_reach: "online_reach (online_sample, [])"
proof (rule online_reach.load)
  have "chardev_init 0 True 0 online_sample = Done (0, [Alloc_region, Cdev_init, Cdev_add, Sema_init], online_sample)"
    by (simp add: chardev_init_def online_sample_def)
  moreover have "length (device_buffer online_sample) = BUFFER_SIZE"
    by (simp add: online_sample_def BUFFER_SIZE_def)
  ultimately show "online_loaded online_sample" unfolding online_loaded_def by blast
qed

lemma online_opened_reach: "online_reach (online_sample\<lparr>osem := 0\<rparr>, [0])"
  by (rule online_reach.op [OF online_sample_reach, of "Dev_open False" 0])
    (simp_all add: device_open_def online_sample_def)

text \<open>
  C18. The driver is a file: from every reachable state every sequence of opens, closes, reads, writes and
  seeks, with whatever partial copies, is answered as by a file of 1024 bytes that only one user has open
  at a time, reply by reply, and leaves the bytes and positions that file has; and a sequence the driver
  does not answer is one on which a second user of the file waits or which uses no open descriptor.
\<close>

theorem online_refines_file:
  assumes "online_reach (s, files)"
  shows "map_option (\<lambda>(rs, d). (rs, online_file d)) (dev_calls online_exec SIZE_MAX xs (s, files))
    = store_calls online_kind xs (online_file (s, files))"
  using online_dev.calls_abs [OF online_reach_inv [OF assms]] by (simp add: online_kind_def)

theorem online_refines_file_witness:
  "\<exists>d. dev_calls online_exec SIZE_MAX
      [(0, Dev_open False), (9, Dev_write 0 ''data''), (0, Dev_seek 0 1 0), (2, Dev_read 0 3)] (online_sample, [])
    = Some ([Re_open, Re_count 4, Re_pos 1, Re_data 2 ''at''], d)"
proof -
  have "store_calls online_kind [(0, Dev_open False), (9, Dev_write 0 ''data''), (0, Dev_seek 0 1 0), (2, Dev_read 0 3)]
      (online_file (online_sample, []))
    = Some ([Re_open, Re_count 4, Re_pos 1, Re_data 2 ''at''], \<lparr>bytes = ''data'' @ replicate 1020 NUL, places = [3]\<rparr>)"
    by (simp add: online_file_def online_sample_def online_kind_def SIZE_MAX_def Let_def room_at_def move_place_def
        seek_to_def seek_target_def)
  with online_refines_file [OF online_sample_reach,
      of "[(0, Dev_open False), (9, Dev_write 0 ''data''), (0, Dev_seek 0 1 0), (2, Dev_read 0 3)]"]
  show ?thesis by auto
qed

theorem online_no_fault_witness:
  "online_exec 0 (Dev_seek 0 (- 1) 2) (online_sample\<lparr>osem := 0\<rparr>, [0]) \<noteq> Fault"
  using online_no_fault [OF online_opened_reach, of "Dev_seek 0 (- 1) 2"] by simp

section \<open>Stored data\<close>

text \<open>
  Data written at a position inside the device is what a read of the same length at that
  position returns, and every other byte of the device is unchanged; a write that does not fit
  stores the part that fits and says so.
\<close>

lemma online_write_read_back:
  assumes "length (device_buffer s) = 1024" and "0 \<le> sint p" and "sint p \<le> 1024"
    and "length buff \<le> SIZE_MAX" and "n = min (length buff) (1024 - nat (sint p))"
  shows "\<exists>ret p' t. device_write (\<lambda>_. 0) buff (of_nat (length buff)) p s = Done (ret, p', t) \<and> unat ret = n
    \<and> (\<exists>r q. device_read (\<lambda>_. 0) (of_nat (length buff)) p t = Done (r, take n buff, q))
    \<and> (\<forall>i < 1024. i < nat (sint p) \<or> nat (sint p) + n \<le> i \<longrightarrow> device_buffer t ! i = device_buffer s ! i)"
proof -
  have p: "opos p" using assms(2,3) by (simp add: opos_def)
  have n: "unat (online_count (of_nat (length buff)) p) = n" "nat (sint p) + n \<le> 1024" "n \<le> length buff"
    using online_count_eq [OF p] assms(2,3,5) by (simp_all add: op_len [OF assms(4)])
  obtain ret p' b where w: "device_write (\<lambda>_. 0) buff (of_nat (length buff)) p s = Done (ret, p', s\<lparr>device_buffer := b\<rparr>)"
      "unat ret = n" "length b = 1024"
      "b = take (nat (sint p)) (device_buffer s) @ take n buff @ drop (nat (sint p) + n) (device_buffer s)"
    using device_write_run [OF assms(1) p residual_ok_0, of "of_nat (length buff)" buff] n
    by (auto simp: op_len [OF assms(4)])
  have k: "length (take (nat (sint p)) (device_buffer s)) = nat (sint p)" using assms(1,3) by simp
  have "take n (drop (nat (sint p)) b) = take n buff"
    unfolding w(4) using k n(3) by simp
  moreover obtain r q where "device_read (\<lambda>_. 0) (of_nat (length buff)) p (s\<lparr>device_buffer := b\<rparr>)
      = Done (r, take n (drop (nat (sint p)) b), q)"
    using device_read_run [OF _ p residual_ok_0, of "s\<lparr>device_buffer := b\<rparr>" "of_nat (length buff)"] w(3) n(1)
    by auto
  moreover have "\<forall>i < 1024. i < nat (sint p) \<or> nat (sint p) + n \<le> i \<longrightarrow> b ! i = device_buffer s ! i"
    unfolding w(4) using k n assms(1) by (auto simp: nth_append)
  ultimately show ?thesis using w(1,2) by auto
qed

text \<open>
  Seeking from the end runs the wrong way: for every offset from 0 to 1024, SEEK_END with the
  negative offset that \<^verbatim>\<open>lseek(2)\<close> documents for a place before the end yields the end of the
  device, and the positive offset, which should lie beyond the end, yields the place before it.
\<close>

lemma online_seek_end_inverted:
  assumes "0 \<le> k" and "k \<le> 1024"
  shows "sint (device_lseek p (of_int (- k)) 2) = 1024 \<and> sint (device_lseek p (of_int k) 2) = 1024 - k"
proof -
  have c: "sint (1024 :: s64) = 1024" using sint_s64_of_int [of 1024] by simp
  have "(1024 :: s64) - of_int (- k) = of_int (1024 + k)" "(1024 :: s64) - of_int k = of_int (1024 - k)" by simp_all
  moreover have "sint (of_int (1024 + k) :: s64) = 1024 + k" "sint (of_int (1024 - k) :: s64) = 1024 - k"
    using assms by (intro sint_s64_of_int; simp)+
  ultimately show ?thesis using assms c by (simp add: device_lseek_def Let_def del: of_int_add of_int_diff of_int_minus)
qed

definition online_dread :: "nat \<Rightarrow> nat \<Rightarrow> online_state \<Rightarrow> char list \<times> nat" where
  "online_dread pos n s =
     (case device_read (\<lambda>_. 0) (of_nat n) (of_nat pos) s of
        Done (ret, data, p) \<Rightarrow> (data, nat (sint p)) | _ \<Rightarrow> ([], pos))"

interpretation online: char_device online_dread device_buffer "\<lambda>s. length (device_buffer s) = 1024"
proof
  fix d :: online_state and pos n :: nat
  assume len: "length (device_buffer d) = 1024" and pos: "pos \<le> length (device_buffer d)" and n: "n \<le> MAX_RW_COUNT"
  have s: "sint (of_nat pos :: s64) = int pos"
    using sint_s64_of_int [of "int pos"] pos len by simp
  then have p: "opos (of_nat pos)" using pos len by (simp add: opos_def)
  have "unat (of_nat n :: s32) = n" using n by (intro unat_s32_of_nat) (simp add: MAX_RW_COUNT_def)
  then have c: "unat (online_count (of_nat n) (of_nat pos)) = min n (1024 - pos)"
    by (simp add: online_count_eq [OF p] s)
  obtain ret p' where r: "device_read (\<lambda>_. 0) (of_nat n) (of_nat pos) d
      = Done (ret, take (min n (1024 - pos)) (drop pos (device_buffer d)), p')"
      "sint p' = int pos + int (min n (1024 - pos))"
    using device_read_run [OF len p residual_ok_0, of "of_nat n"] s c by auto
  have "nat (sint p') = pos + length (take n (drop pos (device_buffer d)))"
    unfolding r(2) using len by (simp add: min.commute)
  then show "online_dread pos n d =
      (take n (drop pos (device_buffer d)), pos + length (take n (drop pos (device_buffer d))))"
    using r(1) len by (simp add: online_dread_def min_def)
qed

end
