(* ===== verification/Shared_Memory.thy ===== *)
theory Shared_Memory
  imports Machine
begin

text \<open>
  Threads and processes that count in shared variables.  A thread is the straight-line list of
  the machine steps its loop performs: \<^verbatim>\<open>x++\<close> is a load into a register, an addition and a store, so
  that other threads can run in between; taking and releasing a lock are steps of their own.  The
  operations of the lock are parameters (\<open>acquire\<close>, \<open>release\<close>) and their contract is the locale
  \<open>mutual_exclusion\<close>: under it every interleaving of lock-protected counters is deadlock free, ends,
  and ends with the sum of all increments.  Values are elements of a commutative ring; the programs use 32- and 64-bit machine words, which wrap around.
\<close>

section \<open>The machine\<close>

datatype 'v instr = Acquire | Release | Load nat | Add "'v" | Store nat

type_synonym 'v thread = "'v \<times> 'v instr list"    \<comment> \<open>register and remaining steps\<close>

record ('v, 'l) shared =
  mem :: "nat \<Rightarrow> 'v"
  lock :: 'l
  threads :: "'v thread list"

definition set_thread :: "nat \<Rightarrow> 'v thread \<Rightarrow> ('v, 'l) shared \<Rightarrow> ('v, 'l) shared" where
  "set_thread i t c = c\<lparr>threads := (threads c)[i := t]\<rparr>"

fun shared_step ::
  "(nat \<Rightarrow> 'l \<Rightarrow> 'l option) \<Rightarrow> (nat \<Rightarrow> 'l \<Rightarrow> 'l) \<Rightarrow> nat \<Rightarrow> ('v::comm_ring_1, 'l) shared \<Rightarrow> ('v, 'l) shared option"
where
  \<comment> \<open>the next step of thread \<open>i\<close>; \<open>None\<close>: it has finished or has to wait\<close>
  "shared_step acquire release i c =
     (if i \<ge> length (threads c) then None
      else case threads c ! i of
        (r, []) \<Rightarrow> None
      | (r, Acquire # is) \<Rightarrow>
          map_option (\<lambda>l. set_thread i (r, is) (c\<lparr>lock := l\<rparr>)) (acquire i (lock c))
      | (r, Release # is) \<Rightarrow> Some (set_thread i (r, is) (c\<lparr>lock := release i (lock c)\<rparr>))
      | (r, Load v # is) \<Rightarrow> Some (set_thread i (mem c v, is) c)
      | (r, Add d # is) \<Rightarrow> Some (set_thread i (r + d, is) c)
      | (r, Store v # is) \<Rightarrow> Some (set_thread i (r, is) (c\<lparr>mem := (mem c)(v := r)\<rparr>)))"

fun shared_run ::
  "(nat \<Rightarrow> 'l \<Rightarrow> 'l option) \<Rightarrow> (nat \<Rightarrow> 'l \<Rightarrow> 'l) \<Rightarrow> nat list \<Rightarrow> ('v::comm_ring_1, 'l) shared \<Rightarrow> ('v, 'l) shared option"
where
  "shared_run acquire release [] c = Some c"
| "shared_run acquire release (i # is) c =
     (case shared_step acquire release i c of None \<Rightarrow> None | Some d \<Rightarrow> shared_run acquire release is d)"

declare shared_step.simps [simp del]

interpretation shared: machine "shared_step acquire release" "shared_run acquire release" for acquire release
  by unfold_locales simp_all

definition finished :: "('v, 'l) shared \<Rightarrow> bool" where
  "finished c \<longleftrightarrow> list_all (\<lambda>t. snd t = []) (threads c)"

definition stuck ::
  "(nat \<Rightarrow> 'l \<Rightarrow> 'l option) \<Rightarrow> (nat \<Rightarrow> 'l \<Rightarrow> 'l) \<Rightarrow> ('v::comm_ring_1, 'l) shared \<Rightarrow> bool" where
  "stuck acquire release c \<longleftrightarrow> (\<forall>i. shared_step acquire release i c = None)"

lemma finished_no_step:
  assumes "finished c"
  shows "shared_step acquire release i c = None"
proof (cases "i < length (threads c)")
  case True
  with assms have "snd (threads c ! i) = []" by (simp add: finished_def list_all_length)
  then show ?thesis by (cases "threads c ! i") (simp add: shared_step.simps)
qed (simp add: shared_step.simps)

lemma shared_eta [simp]: "\<lparr>mem = mem c, lock = lock c, threads = threads c\<rparr> = c"
  by (cases c) simp

section \<open>Programs\<close>

definition bump :: "nat \<Rightarrow> 'v::comm_ring_1 \<Rightarrow> 'v instr list" where
  \<comment> \<open>\<^verbatim>\<open>v++\<close> (\<open>d = 1\<close>), \<^verbatim>\<open>v--\<close> (\<open>d = - 1\<close>)\<close>
  "bump v d = [Load v, Add d, Store v]"

definition bumps :: "(nat \<times> 'v::comm_ring_1) list \<Rightarrow> 'v instr list" where
  "bumps us = concat (map (\<lambda>(v, d). bump v d) us)"

definition section_code :: "(nat \<times> 'v::comm_ring_1) list \<Rightarrow> 'v instr list" where
  "section_code us = Acquire # bumps us @ [Release]"

definition sections :: "(nat \<times> 'v::comm_ring_1) list list \<Rightarrow> 'v instr list" where
  "sections bs = concat (map section_code bs)"

definition updates :: "(nat \<times> 'v::comm_ring_1) list \<Rightarrow> nat \<Rightarrow> 'v" where
  "updates us v = sum_list (map snd (filter (\<lambda>u. fst u = v) us))"

lemma bumps_simps [simp]: "bumps [] = []" "bumps ((v, d) # us) = Load v # Add d # Store v # bumps us"
  by (simp_all add: bumps_def bump_def)

lemma bumps_Cons: "bumps ((v, d) # us) = bump v d @ bumps us"
  by (simp add: bump_def)

lemma bumps_append: "bumps (us @ vs) = bumps us @ bumps vs"
  by (simp add: bumps_def)

lemma sections_simps [simp]:
  "sections [] = []" "sections (us # bs) = Acquire # bumps us @ Release # sections bs"
  by (simp_all add: sections_def section_code_def)

lemma updates_simps [simp]:
  "updates [] v = 0" "updates (u # us) v = (if fst u = v then snd u else 0) + updates us v"
  by (simp_all add: updates_def)

lemma updates_append [simp]: "updates (us @ vs) v = updates us v + updates vs v"
  by (induction us) (simp_all add: ac_simps)

lemma updates_replicate: "updates (concat (replicate n us)) v = of_nat n * updates us v"
  by (induction n) (simp_all add: algebra_simps)

text \<open>Steps of one thread with nobody else running, up to its next release.\<close>

fun alone :: "'v::comm_ring_1 \<Rightarrow> 'v instr list \<Rightarrow> (nat \<Rightarrow> 'v) \<Rightarrow> (nat \<Rightarrow> 'v)" where
  "alone r (Load v # is) m = alone (m v) is m"
| "alone r (Add d # is) m = alone (r + d) is m"
| "alone r (Store v # is) m = alone r is (m(v := r))"
| "alone r _ m = m"

lemma alone_stores: "Store v \<notin> set code \<Longrightarrow> alone r code m v = m v"
  by (induction r code m rule: alone.induct) auto

lemma alone_bumps: "alone r (bumps us) m v = m v + updates us v"
  by (induction us arbitrary: r m) (auto simp: ac_simps)

definition is_data :: "'v instr \<Rightarrow> bool" where
  "is_data x \<longleftrightarrow> x \<noteq> Acquire \<and> x \<noteq> Release"

lemma bumps_data: "list_all is_data (bumps us)"
  by (induction us) (auto simp: is_data_def)

definition todo :: "(nat \<times> 'v::comm_ring_1) list list list \<Rightarrow> nat \<Rightarrow> 'v" where
  \<comment> \<open>the sum of all increments of variable \<open>v\<close> in the given critical sections of every thread\<close>
  "todo bss v = sum_list (map (\<lambda>bs. updates (concat bs) v) bss)"

lemma todo_simps [simp]: "todo [] v = 0" "todo (bs # bss) v = updates (concat bs) v + todo bss v"
  by (simp_all add: todo_def)

lemma todo_append: "todo (bss @ css) v = todo bss v + todo css v"
  by (simp add: todo_def)

lemma todo_none: "set bss \<subseteq> {[]} \<Longrightarrow> todo bss v = 0"
  by (induction bss) auto

lemma todo_update:
  "i < length bss \<Longrightarrow> bss ! i = us # bs \<Longrightarrow> todo bss v = updates us v + todo (bss[i := bs]) v"
  using sum_list_update [of i bss "\<lambda>bs. updates (concat bs) v" bs] by (simp add: todo_def algebra_simps)

lemma sections_eq_Nil: "sections bs = [] \<longleftrightarrow> bs = []"
  by (cases bs) simp_all

section \<open>Every run ends\<close>

definition steps_left :: "('v, 'l) shared \<Rightarrow> nat" where
  "steps_left c = sum_list (map (\<lambda>t. length (snd t)) (threads c))"

lemma sum_length_update:
  "i < length ts \<Longrightarrow> length (snd (ts ! i)) = Suc (length (snd t)) \<Longrightarrow>
     sum_list (map (\<lambda>t. length (snd t)) ts) = Suc (sum_list (map (\<lambda>t. length (snd t)) (ts[i := t])))"
  using sum_list_update [of i ts "\<lambda>t. length (snd t)" t] by simp

lemma step_steps_left:
  assumes "shared_step acquire release i c = Some d"
  shows "steps_left c = Suc (steps_left d)"
proof -
  have i: "i < length (threads c)" using assms by (auto simp: shared_step.simps split: if_splits)
  obtain r code where t: "threads c ! i = (r, code)" by (cases "threads c ! i")
  with assms i obtain x "is" where x: "code = x # is" by (cases code) (auto simp: shared_step.simps)
  have "\<exists>r'. threads d = (threads c)[i := (r', is)]"
    using assms i t x by (cases x) (auto simp: shared_step.simps set_thread_def)
  then obtain r' where "threads d = (threads c)[i := (r', is)]" ..
  with sum_length_update [of i "threads c" "(r', is)"] i t x show ?thesis
    by (simp add: steps_left_def)
qed

lemma run_steps_left:
  "shared_run acquire release is c = Some d \<Longrightarrow> steps_left c = length is + steps_left d"
  by (erule shared.run_exact) (rule step_steps_left)

lemma steps_left_0: "steps_left c = 0 \<longleftrightarrow> finished c"
  by (auto simp: steps_left_def finished_def list_all_iff)

section \<open>What a program computes\<close>

definition counts_to ::
  "(nat \<Rightarrow> 'l \<Rightarrow> 'l option) \<Rightarrow> (nat \<Rightarrow> 'l \<Rightarrow> 'l) \<Rightarrow> ('v::comm_ring_1, 'l) shared \<Rightarrow> (nat \<Rightarrow> 'v) \<Rightarrow> bool"
where
  \<comment> \<open>every interleaving ends (its length is the number of steps of the threads), waits for ever
     nowhere, and leaves the memory \<open>m\<close>\<close>
  "counts_to acquire release c m \<longleftrightarrow>
     (\<forall>sched d. shared_run acquire release sched c = Some d \<longrightarrow>
        (stuck acquire release d \<longleftrightarrow> finished d) \<and> (finished d \<longrightarrow> mem d = m)
        \<and> length sched \<le> steps_left c \<and> (finished d \<longleftrightarrow> length sched = steps_left c))"

definition may_end ::
  "(nat \<Rightarrow> 'l \<Rightarrow> 'l option) \<Rightarrow> (nat \<Rightarrow> 'l \<Rightarrow> 'l) \<Rightarrow> ('v::comm_ring_1, 'l) shared \<Rightarrow> (nat \<Rightarrow> 'v) \<Rightarrow> bool"
where
  \<comment> \<open>some interleaving in which all threads finish leaves the memory \<open>m\<close>\<close>
  "may_end acquire release c m \<longleftrightarrow>
     (\<exists>sched d. shared_run acquire release sched c = Some d \<and> finished d \<and> mem d = m)"

section \<open>Atomic sections\<close>

text \<open>
  The specification of a program whose threads do nothing but critical sections: each section is one
  step.  A state is the memory and the sections every thread has still to do.
\<close>

fun bump_all :: "(nat \<times> 'v::comm_ring_1) list \<Rightarrow> (nat \<Rightarrow> 'v) \<Rightarrow> nat \<Rightarrow> 'v" where
  "bump_all [] m = m"
| "bump_all ((v, d) # us) m = bump_all us (m(v := m v + d))"

type_synonym 'v sections_state = "(nat \<Rightarrow> 'v) \<times> (nat \<times> 'v) list list list"

definition atomic_step :: "nat \<Rightarrow> 'v::comm_ring_1 sections_state \<Rightarrow> 'v sections_state option" where
  "atomic_step i a =
     (if i < length (snd a)
      then case snd a ! i of [] \<Rightarrow> None | us # bs \<Rightarrow> Some (bump_all us (fst a), (snd a)[i := bs])
      else None)"

fun atomic_run :: "nat list \<Rightarrow> 'v::comm_ring_1 sections_state \<Rightarrow> 'v sections_state option" where
  "atomic_run [] a = Some a"
| "atomic_run (i # is) a = (case atomic_step i a of None \<Rightarrow> None | Some b \<Rightarrow> atomic_run is b)"

interpretation atomic: machine atomic_step atomic_run
  by unfold_locales simp_all

lemma alone_bump_all: "alone r (bumps us) m = bump_all us m"
  by (induction us m arbitrary: r rule: bump_all.induct) auto

lemma bump_all_apply: "bump_all us m v = m v + updates us v"
  by (metis alone_bump_all alone_bumps)

lemma atomic_todo:
  assumes "atomic_step i a = Some b"
  shows "fst b v + todo (snd b) v = fst a v + todo (snd a) v"
proof -
  obtain us bs where "i < length (snd a)" "snd a ! i = us # bs" "b = (bump_all us (fst a), (snd a)[i := bs])"
    using assms by (auto simp: atomic_step_def split: if_splits list.splits)
  with todo_update [of i "snd a" us bs v] show ?thesis by (simp add: bump_all_apply algebra_simps)
qed

section \<open>The contract of a lock\<close>

locale mutual_exclusion =
  fixes acquire :: "nat \<Rightarrow> 'l \<Rightarrow> 'l option"
    and release :: "nat \<Rightarrow> 'l \<Rightarrow> 'l"
    and holder :: "'l \<Rightarrow> nat option"
    and lock_ok :: "'l \<Rightarrow> bool"
  assumes acquire_None: "lock_ok l \<Longrightarrow> acquire i l = None \<longleftrightarrow> holder l \<noteq> None"
    and acquire_Some: "lock_ok l \<Longrightarrow> acquire i l = Some l' \<Longrightarrow> lock_ok l' \<and> holder l' = Some i"
    and release_holder: "lock_ok l \<Longrightarrow> holder l = Some i \<Longrightarrow> lock_ok (release i l) \<and> holder (release i l) = None"
begin

definition serial :: "('v::comm_ring_1, 'l) shared \<Rightarrow> 'v sections_state \<Rightarrow> bool" where
  \<comment> \<open>a section counts as done from its acquire on: what its holder has still to do is anticipated\<close>
  "serial c a \<longleftrightarrow> lock_ok (lock c) \<and> length (snd a) = length (threads c) \<and>
     (case holder (lock c) of
        None \<Rightarrow> map snd (threads c) = map sections (snd a) \<and> mem c = fst a
      | Some h \<Rightarrow> h < length (threads c) \<and>
          (\<exists>body. list_all is_data body
            \<and> map snd (threads c) = (map sections (snd a))[h := body @ Release # sections (snd a ! h)]
            \<and> alone (fst (threads c ! h)) body (mem c) = fst a))"

lemma serial_start:
  assumes "lock_ok l" "holder l = None"
  shows "serial \<lparr>mem = m, lock = l, threads = map (\<lambda>bs. (0, sections bs)) bss\<rparr> (m, bss)"
  using assms by (simp add: serial_def comp_def)

lemma serial_freeD:
  assumes "serial c a" "holder (lock c) = None"
  shows "lock_ok (lock c)" "length (snd a) = length (threads c)" "mem c = fst a"
    and "i < length (threads c) \<Longrightarrow> snd (threads c ! i) = sections (snd a ! i)"
  using assms nth_map [of i "threads c" snd] by (auto simp: serial_def)

lemma serial_heldE:
  assumes "serial c a" "holder (lock c) = Some h"
  obtains body where "lock_ok (lock c)" "length (snd a) = length (threads c)" "h < length (threads c)"
    "list_all is_data body" "snd (threads c ! h) = body @ Release # sections (snd a ! h)"
    "\<forall>i<length (threads c). i \<noteq> h \<longrightarrow> snd (threads c ! i) = sections (snd a ! i)"
    "map snd (threads c) = (map sections (snd a))[h := body @ Release # sections (snd a ! h)]"
    "alone (fst (threads c ! h)) body (mem c) = fst a"
proof -
  obtain body where b: "lock_ok (lock c)" "length (snd a) = length (threads c)" "h < length (threads c)"
    "list_all is_data body" "alone (fst (threads c ! h)) body (mem c) = fst a"
    and m: "map snd (threads c) = (map sections (snd a))[h := body @ Release # sections (snd a ! h)]"
    using assms by (auto simp: serial_def)
  have "snd (threads c ! i) = (if i = h then body @ Release # sections (snd a ! h) else sections (snd a ! i))"
    if "i < length (threads c)" for i
    using that b(2) arg_cong [OF m, of "\<lambda>xs. xs ! i"] by simp
  with b(3) show thesis by (intro that [OF b(1-4) _ _ m b(5)]) simp_all
qed

lemma serial_add_thread:
  assumes "serial c a"
  shows "serial (c\<lparr>threads := threads c @ [(r, sections bs)]\<rparr>) (fst a, snd a @ [bs])"
proof (cases "holder (lock c)")
  case None
  with assms show ?thesis by (auto simp: serial_def)
next
  case (Some h)
  from assms Some obtain body where "lock_ok (lock c)" "length (snd a) = length (threads c)" "h < length (threads c)"
    "list_all is_data body" "map snd (threads c) = (map sections (snd a))[h := body @ Release # sections (snd a ! h)]"
    "alone (fst (threads c ! h)) body (mem c) = fst a"
    by (rule serial_heldE) blast
  with Some show ?thesis by (auto simp: serial_def nth_append list_update_append intro!: exI [of _ body])
qed

lemma serial_step_free:
  assumes s: "serial c a" and free: "holder (lock c) = None"
    and step: "shared_step acquire release i c = Some d"
  shows "\<exists>b. atomic_step i a = Some b \<and> serial d b"
proof -
  note c = serial_freeD [OF s free]
  have i: "i < length (threads c)" using step by (auto simp: shared_step.simps split: if_splits)
  obtain r code where t: "threads c ! i = (r, code)" by (cases "threads c ! i")
  obtain us bs where b: "snd a ! i = us # bs" "code = Acquire # bumps us @ Release # sections bs"
    using c(4) [OF i] step i t by (cases "snd a ! i") (auto simp: shared_step.simps)
  then obtain l where l: "acquire i (lock c) = Some l"
      "d = set_thread i (r, bumps us @ Release # sections bs) (c\<lparr>lock := l\<rparr>)"
    using step i t by (auto simp: shared_step.simps)
  have "lock_ok l" "holder l = Some i" using acquire_Some [OF c(1) l(1)] by auto
  moreover have "map snd (threads c) = map sections (snd a)" using s free by (simp add: serial_def)
  ultimately have "serial d (bump_all us (fst a), (snd a)[i := bs])"
    using i c(2,3) bumps_data [of us] by (auto simp: serial_def l(2) set_thread_def map_update alone_bump_all)
  moreover have "atomic_step i a = Some (bump_all us (fst a), (snd a)[i := bs])"
    using i c(2) b(1) by (simp add: atomic_step_def)
  ultimately show ?thesis by blast
qed

lemma data_step:
  assumes "i < length (threads c)" "threads c ! i = (r, x # code)" "is_data x"
  obtains r' m' where "shared_step acquire release i c = Some (set_thread i (r', code) (c\<lparr>mem := m'\<rparr>))"
    "\<And>body. alone r' body m' = alone r (x # body) (mem c)"
  using assms that [of "mem c (case x of Load v \<Rightarrow> v)" "mem c"] that [of "r + (case x of Add d \<Rightarrow> d)" "mem c"]
    that [of r "(mem c)(case x of Store v \<Rightarrow> v := r)"]
  by (cases x) (auto simp: shared_step.simps is_data_def)

lemma serial_mover:
  assumes s: "serial c a" and held: "holder (lock c) = Some h"
    and step: "shared_step acquire release i c = Some d"
  shows "i = h"
proof (rule ccontr)
  assume "i \<noteq> h"
  from s held have c: "lock_ok (lock c)" "\<forall>i<length (threads c). i \<noteq> h \<longrightarrow> snd (threads c ! i) = sections (snd a ! i)"
    by (rule serial_heldE; blast)+
  have i: "i < length (threads c)" using step by (auto simp: shared_step.simps split: if_splits)
  with c(2) \<open>i \<noteq> h\<close> have "snd (threads c ! i) = sections (snd a ! i)" by blast
  moreover have "acquire i (lock c) = None" using acquire_None [OF c(1)] held by simp
  ultimately show False using step i
    by (cases "threads c ! i"; cases "snd a ! i") (auto simp: shared_step.simps)
qed

lemma serial_step_held:
  assumes s: "serial c a" and held: "holder (lock c) = Some h"
    and step: "shared_step acquire release i c = Some d"
  shows "serial d a"
proof -
  from s held obtain body where c: "lock_ok (lock c)" "length (snd a) = length (threads c)" "h < length (threads c)"
    "list_all is_data body" "snd (threads c ! h) = body @ Release # sections (snd a ! h)"
    "\<forall>i<length (threads c). i \<noteq> h \<longrightarrow> snd (threads c ! i) = sections (snd a ! i)"
    "map snd (threads c) = (map sections (snd a))[h := body @ Release # sections (snd a ! h)]"
    "alone (fst (threads c ! h)) body (mem c) = fst a"
    by (rule serial_heldE)
  have i: "i < length (threads c)" using step by (auto simp: shared_step.simps split: if_splits)
  obtain r code where t: "threads c ! i = (r, code)" by (cases "threads c ! i")
  have "i = h" by (rule serial_mover [OF s held step])
  with c(5) t have code: "code = body @ Release # sections (snd a ! h)" by simp
  show ?thesis
  proof (cases body)
    case Nil
    with code step i t \<open>i = h\<close> have d: "d = set_thread h (r, sections (snd a ! h)) (c\<lparr>lock := release h (lock c)\<rparr>)"
      by (simp add: shared_step.simps)
    have "map snd (threads d) = map sections (snd a)"
      using c(2,3,7) unfolding d by (simp add: set_thread_def map_update) (metis list_update_id nth_map)
    with release_holder [OF c(1) held] c(2,8) Nil show ?thesis by (auto simp: serial_def d set_thread_def)
  next
    case (Cons x body')
    with c(4) have x: "is_data x" "list_all is_data body'" by simp_all
    have "threads c ! i = (r, x # body' @ Release # sections (snd a ! h))" using t code Cons by simp
    from i this x(1) obtain r' m' where
      "shared_step acquire release i c = Some (set_thread i (r', body' @ Release # sections (snd a ! h)) (c\<lparr>mem := m'\<rparr>))"
      and al: "\<And>body. alone r' body m' = alone r (x # body) (mem c)"
      by (rule data_step) blast
    with step \<open>i = h\<close> have d: "d = set_thread h (r', body' @ Release # sections (snd a ! h)) (c\<lparr>mem := m'\<rparr>)" by simp
    moreover from al have "alone r' body' m' = alone r body (mem c)" by (simp add: Cons)
    moreover have "map snd (threads d) = (map sections (snd a))[h := body' @ Release # sections (snd a ! h)]"
      using c(7) by (simp add: d set_thread_def map_update)
    ultimately show ?thesis using c(1-3,8) held t \<open>i = h\<close> x(2)
      by (auto simp: serial_def set_thread_def intro!: exI [of _ body'])
  qed
qed

lemma serial_sim:
  "serial c a \<Longrightarrow> shared_step acquire release i c = Some d \<Longrightarrow> \<exists>is b. atomic_run is a = Some b \<and> serial d b"
proof (cases "holder (lock c)")
  case None
  assume "serial c a" "shared_step acquire release i c = Some d"
  with serial_step_free [OF _ None] obtain b where "atomic_step i a = Some b" "serial d b" by blast
  then show ?thesis by (intro exI [of _ "[i]"] exI [of _ b]) simp
next
  case (Some h)
  assume "serial c a" "shared_step acquire release i c = Some d"
  with serial_step_held [OF _ Some] show ?thesis by (intro exI [of _ "[]"] exI [of _ a]) auto
qed

lemma serial_progress:
  assumes s: "serial c a"
  shows "stuck acquire release c \<longleftrightarrow> finished c"
proof
  assume "finished c"
  then show "stuck acquire release c" by (simp add: stuck_def finished_no_step)
next
  assume "stuck acquire release c"
  then have stuck: "shared_step acquire release i c = None" for i by (simp add: stuck_def)
  show "finished c"
  proof (cases "holder (lock c)")
    case None
    note c = serial_freeD [OF s None]
    have "snd (threads c ! i) = []" if i: "i < length (threads c)" for i
      using c(4) [OF i] stuck [of i] i acquire_None [OF c(1)] None
      by (cases "threads c ! i"; cases "snd a ! i") (auto simp: shared_step.simps)
    then show ?thesis by (simp add: finished_def list_all_length)
  next
    case (Some h)
    with s obtain body where "h < length (threads c)" "list_all is_data body"
      "snd (threads c ! h) = body @ Release # sections (snd a ! h)"
      by (rule serial_heldE) blast
    with stuck [of h] show ?thesis
      by (cases "threads c ! h"; cases body) (auto simp: shared_step.simps is_data_def split: instr.splits)
  qed
qed

lemma serial_final:
  assumes s: "serial c a" and f: "finished c"
  shows "mem c = fst a \<and> set (snd a) \<subseteq> {[]}"
proof (cases "holder (lock c)")
  case None
  note c = serial_freeD [OF s None]
  have "snd a ! i = []" if "i < length (threads c)" for i
    using c(4) [OF that] f that sections_eq_Nil [of "snd a ! i"] by (simp add: finished_def list_all_length)
  with c(2,3) show ?thesis by (auto simp: in_set_conv_nth)
next
  case (Some h)
  with s obtain body where "h < length (threads c)" "snd (threads c ! h) = body @ Release # sections (snd a ! h)"
    by (rule serial_heldE) blast
  with f show ?thesis by (auto simp: finished_def list_all_length)
qed

text \<open>For counters the order of the sections does not matter: what is there and what is to come add up.\<close>

definition protected :: "(nat \<Rightarrow> 'v::comm_ring_1) \<Rightarrow> ('v, 'l) shared \<Rightarrow> bool" where
  "protected goal c \<longleftrightarrow> (\<exists>a. serial c a \<and> (\<forall>v. fst a v + todo (snd a) v = goal v))"

lemma protected_start:
  assumes "lock_ok l" "holder l = None"
  shows "protected (\<lambda>v. m v + todo bss v)
    \<lparr>mem = m, lock = l, threads = map (\<lambda>bs. (0, sections bs)) bss\<rparr>"
  using serial_start [OF assms] by (force simp: protected_def)

lemma protected_add_thread:
  assumes "protected goal c"
  shows "protected (\<lambda>v. goal v + updates (concat bs) v) (c\<lparr>threads := threads c @ [(r, sections bs)]\<rparr>)"
proof -
  from assms obtain a where a: "serial c a" "\<forall>v. fst a v + todo (snd a) v = goal v" by (auto simp: protected_def)
  from a(2) have "fst a v + todo (snd a @ [bs]) v = goal v + updates (concat bs) v" for v
    by (simp add: todo_append add.assoc [symmetric])
  with serial_add_thread [OF a(1), of r bs] show ?thesis by (force simp: protected_def)
qed

lemma step_protected:
  assumes "protected goal c" "shared_step acquire release i c = Some d"
  shows "protected goal d"
proof -
  from assms(1) obtain a where a: "serial c a" "\<forall>v. fst a v + todo (snd a) v = goal v" by (auto simp: protected_def)
  from serial_sim [OF a(1) assms(2)] obtain "is" b where b: "atomic_run is a = Some b" "serial d b" by blast
  have "fst b v + todo (snd b) v = fst a v + todo (snd a) v" for v
    using atomic.run_const [OF b(1), of "\<lambda>a. fst a v + todo (snd a) v"] atomic_todo by blast
  with a(2) b(2) show ?thesis unfolding protected_def by (intro exI [of _ b]) simp
qed

lemma run_protected:
  "protected goal c \<Longrightarrow> shared_run acquire release is c = Some d \<Longrightarrow> protected goal d"
  by (erule (1) shared.run_inv) (rule step_protected)

lemma protected_progress: "protected goal c \<Longrightarrow> stuck acquire release c \<longleftrightarrow> finished c"
  using serial_progress by (auto simp: protected_def)

lemma protected_final:
  assumes "protected goal c" "finished c"
  shows "mem c v = goal v"
proof -
  from assms(1) obtain a where a: "serial c a" "fst a v + todo (snd a) v = goal v" by (auto simp: protected_def)
  from serial_final [OF a(1) assms(2)] have "mem c = fst a" "set (snd a) \<subseteq> {[]}" by auto
  with a(2) todo_none [of "snd a" v] show ?thesis by simp
qed

lemma protected_mover:
  "protected goal c \<Longrightarrow> holder (lock c) = Some h \<Longrightarrow> shared_step acquire release i c = Some d \<Longrightarrow> i = h"
  using serial_mover by (auto simp: protected_def)

lemma protected_lock: "protected goal c \<Longrightarrow> lock_ok (lock c)"
  by (auto simp: protected_def serial_def)

lemma protected_free:
  assumes "protected goal c" "finished c"
  shows "lock_ok (lock c)" "holder (lock c) = None"
proof -
  from assms(1) obtain a where a: "serial c a" by (auto simp: protected_def)
  show "lock_ok (lock c)" using a by (simp add: serial_def)
  show "holder (lock c) = None"
  proof (rule ccontr)
    assume "holder (lock c) \<noteq> None"
    then obtain h where "holder (lock c) = Some h" by blast
    with a obtain body where "h < length (threads c)" "snd (threads c ! h) = body @ Release # sections (snd a ! h)"
      by (rule serial_heldE) blast
    with assms(2) show False by (auto simp: finished_def list_all_length)
  qed
qed

lemma counters_exact:
  assumes "lock_ok l" "holder l = None"
  shows "counts_to acquire release
    \<lparr>mem = m, lock = l, threads = map (\<lambda>bs. (0, sections bs)) bss\<rparr> (\<lambda>v. m v + todo bss v)"
  unfolding counts_to_def
proof (intro allI impI)
  fix sched d
  assume run: "shared_run acquire release sched
      \<lparr>mem = m, lock = l, threads = map (\<lambda>bs. (0, sections bs)) bss\<rparr> = Some d"
      (is "shared_run _ _ _ ?c = _")
  have p: "protected (\<lambda>v. m v + todo bss v) d" by (rule run_protected [OF protected_start [OF assms] run])
  have n: "steps_left ?c = length sched + steps_left d" by (rule run_steps_left [OF run])
  have "finished d \<Longrightarrow> mem d = (\<lambda>v. m v + todo bss v)" using protected_final [OF p] by blast
  then show "(stuck acquire release d \<longleftrightarrow> finished d) \<and> (finished d \<longrightarrow> mem d = (\<lambda>v. m v + todo bss v))
      \<and> length sched \<le> steps_left ?c \<and> (finished d \<longleftrightarrow> length sched = steps_left ?c)"
    using protected_progress [OF p] n steps_left_0 [of d] by auto
qed

end

text \<open>
  Without a lock: a thread that is preempted between its load and its store wipes out what the others do
  in between.  Threads that update the same variables in the same order can be scheduled in lockstep, so
  that the updates of a single one of them remain.
\<close>

lemma prefix_run:
  "i < length (threads c) \<Longrightarrow> threads c ! i = (r, code @ post) \<Longrightarrow> list_all is_data code \<Longrightarrow>
     \<exists>r'. shared_run acquire release (replicate (length code) i) c
       = Some (set_thread i (r', post) (c\<lparr>mem := alone r code (mem c)\<rparr>))"
proof (induction code arbitrary: r c)
  case Nil
  then have "(threads c)[i := (r, post)] = threads c" by (metis append_Nil list_update_id)
  then have "set_thread i (r, post) (c\<lparr>mem := mem c\<rparr>) = c" by (cases c) (simp add: set_thread_def)
  then show ?case by (intro exI [of _ r]) simp
next
  case (Cons x code)
  obtain r' m' where s: "shared_step acquire release i c = Some (set_thread i (r', code @ post) (c\<lparr>mem := m'\<rparr>))"
      "alone r' code m' = alone r (x # code) (mem c)"
  proof (cases x)
    case (Store v)
    with Cons.prems show ?thesis by (intro that) (auto simp: shared_step.simps)
  next
    case (Load v)
    with Cons.prems show ?thesis by (intro that [of "mem c v" "mem c"]) (auto simp: shared_step.simps)
  next
    case (Add a)
    with Cons.prems show ?thesis by (intro that [of "r + a" "mem c"]) (auto simp: shared_step.simps)
  qed (use Cons.prems in \<open>auto simp: is_data_def\<close>)
  have "i < length (threads (set_thread i (r', code @ post) (c\<lparr>mem := m'\<rparr>)))"
    "threads (set_thread i (r', code @ post) (c\<lparr>mem := m'\<rparr>)) ! i = (r', code @ post)" "list_all is_data code"
    using Cons.prems by (simp_all add: set_thread_def)
  from Cons.IH [OF this] s show ?case by (auto simp: set_thread_def)
qed

lemma alone_run:
  "i < length (threads c) \<Longrightarrow> threads c ! i = (r, code) \<Longrightarrow> list_all is_data code \<Longrightarrow>
     \<exists>r'. shared_run acquire release (replicate (length code) i) c
       = Some (set_thread i (r', []) (c\<lparr>mem := alone r code (mem c)\<rparr>))"
  using prefix_run [of i c r code "[]"] by simp

lemma others_run:
  "distinct ks \<Longrightarrow>
   \<forall>k \<in> set ks. k < length (threads c) \<and> snd (threads c ! k) = code k @ post k \<and> list_all is_data (code k) \<Longrightarrow>
     \<exists>sched d. shared_run acquire release sched c = Some d \<and> length (threads d) = length (threads c) \<and> lock d = lock c
       \<and> (\<forall>k \<in> set ks. snd (threads d ! k) = post k) \<and> (\<forall>k. k \<notin> set ks \<longrightarrow> threads d ! k = threads c ! k)
       \<and> (\<forall>v. (\<forall>k \<in> set ks. Store v \<notin> set (code k)) \<longrightarrow> mem d v = mem c v)"
proof (induction ks arbitrary: c)
  case Nil
  then show ?case by (intro exI [of _ "[]"] exI [of _ c]) simp
next
  case (Cons k ks)
  have k: "k < length (threads c)" "list_all is_data (code k)" using Cons.prems(2) by simp_all
  obtain r where t: "threads c ! k = (r, code k @ post k)" using Cons.prems(2) by (cases "threads c ! k") simp
  obtain r' where
    s: "shared_run acquire release (replicate (length (code k)) k) c
      = Some (set_thread k (r', post k) (c\<lparr>mem := alone r (code k) (mem c)\<rparr>))" (is "_ = Some ?e")
    using prefix_run [OF k(1) t k(2)] by blast
  have ks: "\<forall>j \<in> set ks. j \<noteq> k" "distinct ks" using Cons.prems(1) by auto
  then have "\<forall>j \<in> set ks. j < length (threads ?e) \<and> snd (threads ?e ! j) = code j @ post j \<and> list_all is_data (code j)"
    using Cons.prems(2) by (auto simp: set_thread_def nth_list_update)
  from Cons.IH [OF ks(2) this] obtain sched d where
    d: "shared_run acquire release sched ?e = Some d" "length (threads d) = length (threads ?e)" "lock d = lock ?e"
      "\<forall>j \<in> set ks. snd (threads d ! j) = post j" "\<forall>j. j \<notin> set ks \<longrightarrow> threads d ! j = threads ?e ! j"
      "\<forall>v. (\<forall>j \<in> set ks. Store v \<notin> set (code j)) \<longrightarrow> mem d v = mem ?e v"
    by blast
  have "shared_run acquire release (replicate (length (code k)) k @ sched) c = Some d"
    using s d(1) by (simp add: shared.run_append)
  moreover have "snd (threads d ! k) = post k" using d(5) ks(1) k(1) by (auto simp: set_thread_def)
  moreover have "mem d v = mem c v" if "\<forall>j \<in> set (k # ks). Store v \<notin> set (code j)" for v
    using that d(6) alone_stores [of v "code k" r "mem c"] by (simp add: set_thread_def)
  ultimately show ?case using d(2-5)
    by (intro exI [of _ "replicate (length (code k)) k @ sched"] exI [of _ d]) (auto simp: set_thread_def)
qed

lemma lockstep_round:
  assumes w: "w < length (threads c)"
    and code: "\<forall>k<length (threads c). snd (threads c ! k) = bump v (d k) @ post k"
  shows "\<exists>sched e. shared_run acquire release sched c = Some e \<and> length (threads e) = length (threads c)
     \<and> lock e = lock c \<and> (\<forall>k<length (threads c). snd (threads e ! k) = post k)
     \<and> mem e = (mem c)(v := mem c v + d w)"
proof -
  define c1 where "c1 = set_thread w (mem c v, Add (d w) # Store v # post w) c"
  have "snd (threads c ! w) = Load v # Add (d w) # Store v # post w" using w code by (simp add: bump_def)
  then have s1: "shared_run acquire release [w] c = Some c1"
    using w by (cases "threads c ! w") (simp add: c1_def shared_step.simps)
  let ?ks = "filter (\<lambda>k. k \<noteq> w) [0..<length (threads c)]"
  have "\<forall>k \<in> set ?ks. k < length (threads c1) \<and> snd (threads c1 ! k) = bump v (d k) @ post k \<and> list_all is_data (bump v (d k))"
    using code by (auto simp: c1_def set_thread_def bump_def is_data_def)
  from others_run [OF _ this, of acquire release] obtain sched e where
    e: "shared_run acquire release sched c1 = Some e" "length (threads e) = length (threads c1)" "lock e = lock c1"
      "\<forall>k \<in> set ?ks. snd (threads e ! k) = post k" "\<forall>k. k \<notin> set ?ks \<longrightarrow> threads e ! k = threads c1 ! k"
      "\<forall>x. (\<forall>k \<in> set ?ks. Store x \<notin> set (bump v (d k))) \<longrightarrow> mem e x = mem c1 x"
    by auto
  have ew: "w < length (threads e)" "threads e ! w = (mem c v, [Add (d w), Store v] @ post w)"
    using e(2,5) w by (simp_all add: c1_def set_thread_def)
  obtain r where f: "shared_run acquire release (replicate (length [Add (d w), Store v]) w) e
      = Some (set_thread w (r, post w) (e\<lparr>mem := alone (mem c v) [Add (d w), Store v] (mem e)\<rparr>))" (is "_ = Some ?f")
    using prefix_run [OF ew] by (auto simp: is_data_def)
  have "mem e x = mem c x" if "x \<noteq> v" for x using that e(6) by (auto simp: bump_def c1_def set_thread_def)
  then have "mem ?f = (mem c)(v := mem c v + d w)" by (auto simp: set_thread_def)
  moreover have "snd (threads ?f ! k) = post k" if "k < length (threads c)" for k
    using that e(4) ew(1) by (cases "k = w") (simp_all add: set_thread_def)
  moreover have "length (threads ?f) = length (threads c)" "lock ?f = lock c"
    using e(2,3) by (simp_all add: set_thread_def c1_def)
  moreover have "shared_run acquire release ([w] @ sched @ replicate (length [Add (d w), Store v]) w) c = Some ?f"
    by (simp only: shared.run_append s1 e(1) f option.case)
  ultimately show ?thesis by blast
qed

lemma lockstep_run:
  \<comment> \<open>only the updates of thread \<open>w\<close> remain\<close>
  "w < length (threads c) \<Longrightarrow>
   \<forall>k<length (threads c). snd (threads c ! k) = bumps (us k) @ post k \<and> map fst (us k) = vs \<Longrightarrow>
     \<exists>sched e. shared_run acquire release sched c = Some e \<and> length (threads e) = length (threads c)
       \<and> lock e = lock c \<and> (\<forall>k<length (threads c). snd (threads e ! k) = post k) \<and> mem e = bump_all (us w) (mem c)"
proof (induction vs arbitrary: c us)
  case Nil
  then show ?case by (intro exI [of _ "[]"] exI [of _ c]) auto
next
  case (Cons v vs)
  have us: "us k = (v, snd (hd (us k))) # tl (us k) \<and> map fst (tl (us k)) = vs" if "k < length (threads c)" for k
    using Cons.prems(2) that by (cases "us k") auto
  have "snd (threads c ! k) = bump v (snd (hd (us k))) @ bumps (tl (us k)) @ post k" if "k < length (threads c)" for k
    using Cons.prems(2) us [OF that] that by (metis append.assoc bumps_Cons)
  then have "\<forall>k<length (threads c). snd (threads c ! k) = bump v (snd (hd (us k))) @ bumps (tl (us k)) @ post k" by blast
  from lockstep_round [OF Cons.prems(1) this, of acquire release] obtain s e where
    e: "shared_run acquire release s c = Some e" "length (threads e) = length (threads c)" "lock e = lock c"
      "\<forall>k<length (threads c). snd (threads e ! k) = bumps (tl (us k)) @ post k"
      "mem e = (mem c)(v := mem c v + snd (hd (us w)))"
    by blast
  have "w < length (threads e)"
    "\<forall>k<length (threads e). snd (threads e ! k) = bumps (tl (us k)) @ post k \<and> map fst (tl (us k)) = vs"
    using Cons.prems(1) e(2,4) us by simp_all
  from Cons.IH [OF this] obtain t f where
    f: "shared_run acquire release t e = Some f" "length (threads f) = length (threads e)" "lock f = lock e"
      "\<forall>k<length (threads e). snd (threads f ! k) = post k" "mem f = bump_all (tl (us w)) (mem e)"
    by blast
  have "bump_all (us w) (mem c) = bump_all (tl (us w)) (mem e)"
    using us [OF Cons.prems(1)] e(5) by (metis bump_all.simps(2))
  with e f have "shared_run acquire release (s @ t) c = Some f \<and> length (threads f) = length (threads c) \<and> lock f = lock c
      \<and> (\<forall>k<length (threads c). snd (threads f ! k) = post k) \<and> mem f = bump_all (us w) (mem c)"
    by (simp add: shared.run_append)
  then show ?case by blast
qed

lemma lost_updates:
  assumes "w < length bss" "\<forall>us \<in> set bss. map fst us = vs"
  shows "may_end acquire release \<lparr>mem = m, lock = l, threads = map (\<lambda>us. (0, bumps us)) bss\<rparr>
    (\<lambda>v. m v + updates (bss ! w) v)"
proof -
  let ?c = "\<lparr>mem = m, lock = l, threads = map (\<lambda>us. (0, bumps us)) bss\<rparr>"
  have "w < length (threads ?c)" "\<forall>k<length (threads ?c). snd (threads ?c ! k) = bumps (bss ! k) @ [] \<and> map fst (bss ! k) = vs"
    using assms by simp_all
  from lockstep_run [OF this, of acquire release] obtain sched e where
    e: "shared_run acquire release sched ?c = Some e" "length (threads e) = length (threads ?c)"
      "\<forall>k<length (threads ?c). snd (threads e ! k) = []" "mem e = bump_all (bss ! w) m"
    by auto
  have "finished e" using e(2,3) by (simp add: finished_def list_all_length)
  moreover have "mem e = (\<lambda>v. m v + updates (bss ! w) v)" using e(4) by (auto simp: bump_all_apply)
  ultimately show ?thesis unfolding may_end_def using e(1) by blast
qed

end
