(* ===== verification/Lock_Programs.thy ===== *)
theory Lock_Programs
  imports Shared_Memory
begin

text \<open>
  The programs that count under a lock: with a POSIX mutex
  (\<^verbatim>\<open>ipc_mechanisms/mutex/mutex_demo.c\<close>, \<^verbatim>\<open>linux_task/thread_mutex_lock_avoid_race_condition/main.c\<close>,
  \<^verbatim>\<open>thread/thread1.c\<close> and its copy \<^verbatim>\<open>thread/thread_mutex.c\<close>, the open count of the driver
  \<^verbatim>\<open>driver/online_sample/online_char.c\<close>) and with a System V semaphore (\<^verbatim>\<open>other/semaphore.c\<close>,
  \<^verbatim>\<open>ipc_mechanisms/semaphore/sema_proc1.c\<close> and \<^verbatim>\<open>sema_proc2.c\<close>).  Both locks are interpretations of
  \<open>mutual_exclusion\<close>, so each program ends, from every interleaving, with the values it means to have.
  A program that exits before it has started its threads is the left summand.
\<close>

section \<open>Loops\<close>

definition for_loop :: "nat \<Rightarrow> 'a list \<Rightarrow> 'a list" where
  \<comment> \<open>\<^verbatim>\<open>for (i = 0; i < n; i++) body\<close>\<close>
  "for_loop n body = concat (map (\<lambda>i. body) [0..<n])"

fun while_postdec :: "nat \<Rightarrow> 'a list \<Rightarrow> 'a list" where
  \<comment> \<open>\<^verbatim>\<open>while (i--) body\<close>\<close>
  "while_postdec i body = (if i = 0 then [] else body @ while_postdec (i - 1) body)"

fun while_predec :: "nat \<Rightarrow> 'a list \<Rightarrow> 'a list" where
  \<comment> \<open>\<^verbatim>\<open>while (--i) body\<close>, started with \<open>i > 0\<close>\<close>
  "while_predec i body = (if i \<le> 1 then [] else body @ while_predec (i - 1) body)"

declare while_postdec.simps [simp del] while_predec.simps [simp del]

lemma for_loop_replicate: "for_loop n body = concat (replicate n body)"
  by (simp add: for_loop_def map_replicate_const)

lemma while_postdec_replicate: "while_postdec n body = concat (replicate n body)"
  by (induction n) (subst while_postdec.simps, simp)+

lemma while_predec_replicate: "while_predec (Suc n) body = concat (replicate n body)"
  by (induction n) (subst while_predec.simps, simp)+

lemma sections_replicate: "concat (replicate n (section_code us)) = sections (replicate n us)"
  by (simp add: sections_def)

lemma bumps_replicate: "concat (replicate n (bumps us)) = bumps (concat (replicate n us))"
  by (induction n) (simp_all add: bumps_def)

definition vars :: "'v::comm_ring_1 list \<Rightarrow> nat \<Rightarrow> 'v" where
  "vars xs v = (if v < length xs then xs ! v else 0)"

definition create_threads ::
  "bool list \<Rightarrow> 'v::comm_ring_1 instr list list \<Rightarrow> 'l \<Rightarrow> (nat \<Rightarrow> 'v) \<Rightarrow> int + ('v, 'l) shared"
where
  \<comment> \<open>one outcome per \<^verbatim>\<open>pthread_create\<close>; a failure ends the process with \<^verbatim>\<open>EXIT_FAILURE\<close>\<close>
  "create_threads oks codes l m =
     (if False \<in> set oks then Inl 1 else Inr \<lparr>mem = m, lock = l, threads = map (Pair 0) codes\<rparr>)"

section \<open>The POSIX mutex\<close>

type_synonym mutex = "nat option"   \<comment> \<open>the thread that holds it\<close>

definition mutex_lock :: "nat \<Rightarrow> mutex \<Rightarrow> mutex option" where
  "mutex_lock i m = (if m = None then Some (Some i) else None)"

definition mutex_unlock :: "nat \<Rightarrow> mutex \<Rightarrow> mutex" where
  "mutex_unlock i m = None"

interpretation posix_mutex: mutual_exclusion mutex_lock mutex_unlock "\<lambda>m. m" "\<lambda>_. True"
  by unfold_locales (auto simp: mutex_lock_def mutex_unlock_def split: if_splits)

definition inc_thread :: "s64 instr list" where
  "inc_thread = for_loop 60000 (section_code [(0, 1), (1, 1), (2, 1)])"

definition dec_thread :: "s64 instr list" where
  "dec_thread = for_loop 60000 (section_code [(0, - 1), (1, - 1), (2, - 1)])"

definition mutex_demo_main :: "bool \<Rightarrow> bool list \<Rightarrow> int + (s64, mutex) shared" where
  \<comment> \<open>a failed \<^verbatim>\<open>pthread_mutex_init\<close> is only printed, the statically zeroed mutex is used\<close>
  "mutex_demo_main init_ok oks = create_threads oks [inc_thread, dec_thread] None (vars [5, 10, 15])"

definition thread_increment :: "s64 instr list" where
  "thread_increment = for_loop 65500 (section_code [(0, 1), (1, 1), (2, 1)])"

definition thread_decrement :: "s64 instr list" where
  "thread_decrement = for_loop 65500 (section_code [(0, - 1), (1, - 1), (2, - 1)])"

definition avoid_race_main :: "bool \<Rightarrow> bool list \<Rightarrow> bool list \<Rightarrow> int + (s64, mutex) shared" where
  \<comment> \<open>outcomes of \<^verbatim>\<open>pthread_mutex_init\<close>, of the attribute calls and of the four creations\<close>
  "avoid_race_main init_ok attrs oks =
     (if \<not> init_ok then Inl 1
      else if False \<in> set attrs then Inl 1
      else create_threads oks
        (map (\<lambda>i. if i mod 2 \<noteq> 0 then thread_decrement else thread_increment) [0..<4]) None (vars [1, 2, 3]))"

definition thread1_f1 :: "s32 instr list" where
  "thread1_f1 = while_postdec 60000 (section_code [(0, 1), (1, 1)])"

definition thread1_f2 :: "s32 instr list" where
  "thread1_f2 = while_postdec 60000 (section_code [(0, - 1), (1, - 1)])"

definition thread1_main :: "(s32, mutex) shared" where
  \<comment> \<open>the results of \<^verbatim>\<open>pthread_create\<close> are not looked at; this is the run with both threads\<close>
  "thread1_main = \<lparr>mem = vars [], lock = None, threads = map (Pair 0) [thread1_f1, thread1_f2]\<rparr>"

lemma todo_opposite:
  "todo [replicate n us, replicate n (map (\<lambda>(v, d). (v, - d)) us)] v = 0"
proof -
  have "updates (map (\<lambda>(v, d). (v, - d)) us) v = - updates us v"
    by (induction us) (auto simp: algebra_simps)
  then show ?thesis by (simp add: updates_replicate)
qed

lemma mutex_counts:
  assumes "codes = map sections bss" and "\<And>v. todo bss v = 0"
  shows "counts_to mutex_lock mutex_unlock \<lparr>mem = m, lock = None, threads = map (Pair 0) codes\<rparr> m"
  using posix_mutex.counters_exact [of None m bss] assms by (simp add: comp_def)

text \<open>
  C23. The mutex programs compute what they announce: in every interleaving of their threads no
  thread waits for ever, all of them finish after a fixed number of steps, and the counters end
  with their initial values (5, 10, 15), (1, 2, 3) and (0, 0), for two threads and for four.
\<close>

theorem mutex_programs_exact:
  "(\<exists>c. mutex_demo_main ok [True, True] = Inr c \<and> counts_to mutex_lock mutex_unlock c (vars [5, 10, 15]))
   \<and> (\<exists>c. avoid_race_main True [True, True] [True, True, True, True] = Inr c
        \<and> counts_to mutex_lock mutex_unlock c (vars [1, 2, 3]))
   \<and> counts_to mutex_lock mutex_unlock thread1_main (vars [])"
proof -
  let ?u = "[(0, 1), (1, 1), (2, 1)] :: (nat \<times> s64) list" and ?d = "[(0, - 1), (1, - 1), (2, - 1)] :: (nat \<times> s64) list"
  have a: "[inc_thread, dec_thread] = map sections [replicate 60000 ?u, replicate 60000 ?d]"
    by (simp only: inc_thread_def dec_thread_def for_loop_replicate sections_replicate list.map)
  have b: "map (\<lambda>i. if i mod 2 \<noteq> 0 then thread_decrement else thread_increment) [0..<4]
      = map sections [replicate 65500 ?u, replicate 65500 ?d, replicate 65500 ?u, replicate 65500 ?d]"
    by (simp only: upt_conv_Cons thread_increment_def thread_decrement_def for_loop_replicate sections_replicate list.map) (simp add: upt_conv_Cons)
  have e: "todo [replicate n ?u, replicate n ?d] v = 0" for n v using todo_opposite [of n ?u v] by simp
  have f: "todo [replicate n ?u, replicate n ?d, replicate n ?u, replicate n ?d] v = 0" for n v
    using e [of n v] by (simp add: algebra_simps)
  have g: "[thread1_f1, thread1_f2]
      = map sections [replicate 60000 ([(0, 1), (1, 1)] :: (nat \<times> s32) list), replicate 60000 [(0, - 1), (1, - 1)]]"
    by (simp only: thread1_f1_def thread1_f2_def while_postdec_replicate sections_replicate list.map)
  have h: "todo [replicate n ([(0, 1), (1, 1)] :: (nat \<times> s32) list), replicate n [(0, - 1), (1, - 1)]] v = 0" for n v
    using todo_opposite [of n "[(0, 1), (1, 1)] :: (nat \<times> s32) list" v] by simp
  show ?thesis
    using mutex_counts [OF a e] mutex_counts [OF b f] mutex_counts [OF g h]
    by (simp add: mutex_demo_main_def avoid_race_main_def create_threads_def thread1_main_def)
qed

section \<open>Seen from outside, a section is one step\<close>

interpretation mutex_sections: refinement "shared_step mutex_lock mutex_unlock" "shared_run mutex_lock mutex_unlock"
    atomic_step atomic_run posix_mutex.serial
  by unfold_locales (rule posix_mutex.serial_sim)

definition up3 :: "(nat \<times> s64) list" where
  "up3 = [(0, 1), (1, 1), (2, 1)]"

definition down3 :: "(nat \<times> s64) list" where
  "down3 = [(0, - 1), (1, - 1), (2, - 1)]"

definition sections_left :: "(nat \<times> s64) list \<Rightarrow> (nat \<times> s64) list list list \<Rightarrow> int" where
  "sections_left x bss = sum_list (map (\<lambda>bs. int (count_list bs x)) bss)"

definition in_step :: "int \<Rightarrow> int \<Rightarrow> (nat \<Rightarrow> s64) \<Rightarrow> s64 sections_state \<Rightarrow> bool" where
  \<comment> \<open>the three counters have moved by the sections done so far, \<open>nu\<close> upwards and \<open>nd\<close> downwards in all\<close>
  "in_step nu nd m a \<longleftrightarrow> (\<forall>bs \<in> set (snd a). set bs \<subseteq> {up3, down3})
     \<and> sections_left up3 (snd a) \<le> nu \<and> sections_left down3 (snd a) \<le> nd
     \<and> fst a = (\<lambda>v. m v + (if v < 3 then of_int ((nu - sections_left up3 (snd a)) - (nd - sections_left down3 (snd a))) else 0))"

lemma up3_not_down3: "up3 \<noteq> down3"
  by (simp add: up3_def down3_def)

lemma bump_all_up3: "bump_all up3 m = (\<lambda>v. m v + (if v < 3 then 1 else 0))"
  and bump_all_down3: "bump_all down3 m = (\<lambda>v. m v + (if v < 3 then - 1 else 0))"
  by (auto simp: up3_def down3_def fun_eq_iff numeral_3_eq_3 less_Suc_eq)

lemma sections_left_nonneg: "0 \<le> sections_left x bss"
  by (auto simp: sections_left_def intro!: sum_list_nonneg)

lemma sections_left_update:
  "i < length bss \<Longrightarrow> bss ! i = us # bs \<Longrightarrow>
   sections_left x bss = sections_left x (bss[i := bs]) + (if us = x then 1 else 0)"
  using sum_list_update [of i bss "\<lambda>bs. int (count_list bs x)" bs] by (simp add: sections_left_def split: if_splits)

lemma in_step_step:
  assumes "in_step nu nd m a" "atomic_step i a = Some b"
  shows "in_step nu nd m b"
proof -
  obtain us bs where b: "i < length (snd a)" "snd a ! i = us # bs" "b = (bump_all us (fst a), (snd a)[i := bs])"
    using assms(2) by (auto simp: atomic_step_def split: if_splits list.splits)
  have "us # bs \<in> set (snd a)" using b(1,2) nth_mem by metis
  then have "set (us # bs) \<subseteq> {up3, down3}" using assms(1) by (simp only: in_step_def)
  then have us: "us = up3 \<or> us = down3" and bs: "set bs \<subseteq> {up3, down3}" by auto
  have "\<forall>bs' \<in> set ((snd a)[i := bs]). set bs' \<subseteq> {up3, down3}"
    using assms(1) bs by (auto simp: in_step_def dest!: set_update_subset_insert [THEN subsetD])
  with us show ?thesis
    using assms(1) sections_left_update [OF b(1,2), of up3] sections_left_update [OF b(1,2), of down3] up3_not_down3
    by (auto simp: in_step_def b(3) bump_all_up3 bump_all_down3 fun_eq_iff)
qed

lemma counters_in_step:
  assumes "shared_run mutex_lock mutex_unlock sched
      \<lparr>mem = m, lock = None, threads = map (\<lambda>bs. (0, sections bs)) bss\<rparr> = Some d" "lock d = None"
    and "\<forall>bs \<in> set bss. set bs \<subseteq> {up3, down3}"
  shows "\<exists>k. - sections_left down3 bss \<le> k \<and> k \<le> sections_left up3 bss
    \<and> mem d = (\<lambda>v. m v + (if v < 3 then of_int k else 0))"
proof -
  have "posix_mutex.serial \<lparr>mem = m, lock = None, threads = map (\<lambda>bs. (0, sections bs)) bss\<rparr> (m, bss)"
    by (rule posix_mutex.serial_start) simp_all
  from mutex_sections.run_refines [OF assms(1) this] obtain "is" a where
    a: "atomic_run is (m, bss) = Some a" "posix_mutex.serial d a" by blast
  have "in_step (sections_left up3 bss) (sections_left down3 bss) m (m, bss)"
    using assms(3) by (simp add: in_step_def fun_eq_iff)
  with a(1) have i: "in_step (sections_left up3 bss) (sections_left down3 bss) m a"
    by (rule atomic.run_inv) (rule in_step_step)
  then show ?thesis
    using posix_mutex.serial_freeD(3) [OF a(2) assms(2)] sections_left_nonneg [of up3 "snd a"] sections_left_nonneg [of down3 "snd a"]
    by (intro exI [of _ "(sections_left up3 bss - sections_left up3 (snd a)) - (sections_left down3 bss - sections_left down3 (snd a))"])
      (simp add: in_step_def)
qed

lemma vars_shift: "(\<lambda>v. vars [x, y, z] v + (if v < 3 then k else 0)) = vars [x + k, y + k, z + k]"
  by (auto simp: vars_def fun_eq_iff numeral_3_eq_3 less_Suc_eq nth_Cons split: nat.splits)

lemma inc_dec_sections: "map (Pair 0) [inc_thread, dec_thread]
   = map (\<lambda>bs. (0, sections bs)) [replicate 60000 up3, replicate 60000 down3]"
  by (simp only: inc_thread_def dec_thread_def for_loop_replicate sections_replicate list.map up3_def down3_def)

lemma count_list_replicate: "count_list (replicate n x) y = (if x = y then n else 0)"
  by (induction n) auto

text \<open>
  C24. Whoever looks at the counters of \<^verbatim>\<open>mutex_demo.c\<close> while the mutex is free sees whole sections only:
  in every interleaving of the two threads, whenever no thread is inside, the three counters have moved
  by one and the same amount, which is at most 60000 either way, as if every section were one step.
\<close>

theorem counters_agree:
  assumes "mutex_demo_main ok [True, True] = Inr c" "shared_run mutex_lock mutex_unlock sched c = Some d" "lock d = None"
  shows "\<exists>k. \<bar>k\<bar> \<le> 60000 \<and> mem d = vars [5 + of_int k, 10 + of_int k, 15 + of_int k]"
proof -
  let ?bss = "[replicate 60000 up3, replicate 60000 down3]"
  have "c = \<lparr>mem = vars [5, 10, 15], lock = None, threads = map (\<lambda>bs. (0, sections bs)) ?bss\<rparr>"
    using assms(1) unfolding inc_dec_sections [symmetric] by (simp add: mutex_demo_main_def create_threads_def)
  moreover have "sections_left up3 ?bss = 60000" "sections_left down3 ?bss = 60000"
    using up3_not_down3 by (simp_all add: sections_left_def count_list_replicate)
  ultimately obtain k where "- 60000 \<le> k" "k \<le> 60000" "mem d = (\<lambda>v. vars [5, 10, 15] v + (if v < 3 then of_int k else 0))"
    using counters_in_step [of sched "vars [5, 10, 15]" ?bss d] assms(2,3) by auto
  then show ?thesis unfolding vars_shift by (intro exI [of _ k]) auto
qed

lemma inc_thread_first: "\<exists>rest. inc_thread = section_code up3 @ rest"
proof -
  have "(60000 :: nat) = Suc 59999" by simp
  then show ?thesis by (simp only: inc_thread_def for_loop_replicate replicate_Suc concat.simps up3_def) blast
qed

theorem counters_agree_witness:
  "\<exists>c d k. mutex_demo_main True [True, True] = Inr c \<and> shared_run mutex_lock mutex_unlock (replicate 11 0) c = Some d
     \<and> mem d = vars [5 + of_int k, 10 + of_int k, 15 + of_int k] \<and> mem d 2 = 16"
proof -
  obtain c where c: "mutex_demo_main True [True, True] = Inr c" by (simp add: mutex_demo_main_def create_threads_def)
  obtain rest where r: "inc_thread = section_code up3 @ rest" using inc_thread_first by blast
  have "c = \<lparr>mem = vars [5, 10, 15], lock = None, threads = [(0, section_code up3 @ rest), (0, dec_thread)]\<rparr>"
    using c by (simp add: mutex_demo_main_def create_threads_def r)
  then obtain d where d: "shared_run mutex_lock mutex_unlock (replicate 11 0) c = Some d" "lock d = None" "mem d 2 = 16"
    by (simp add: numeral_eq_Suc shared_step.simps set_thread_def section_code_def up3_def mutex_lock_def mutex_unlock_def vars_def)
  with counters_agree [OF c d(1,2)] c show ?thesis by blast
qed

section \<open>The open count of a driver\<close>

definition hello_open :: "s32 instr list" where
  \<comment> \<open>\<^verbatim>\<open>mutex_lock(&lock); count++; mutex_unlock(&lock);\<close>\<close>
  "hello_open = section_code [(0, 1)]"

definition hello_release :: "s32 instr list" where
  "hello_release = section_code [(0, - 1)]"

definition hello_init :: "bool \<Rightarrow> s32 instr list list \<Rightarrow> int \<times> (s32, mutex) shared" where
  \<comment> \<open>the count starts at 0; failures of the registration are only printed.  The second argument
     is what the processes using the device will do\<close>
  "hello_init alloc_ok users = (0, \<lparr>mem = vars [0], lock = None, threads = map (Pair 0) users\<rparr>)"

definition hello_read :: "char list \<Rightarrow> nat \<Rightarrow> int \<times> char list" where
  \<comment> \<open>the code that would copy a byte is commented out: 1 is returned, the caller's buffer stays\<close>
  "hello_read buf count = (1, buf)"

definition hello_write :: "char list \<Rightarrow> nat \<Rightarrow> int" where
  "hello_write buf count = 1"

definition hello_exit :: "s32 instr list" where
  \<comment> \<open>unregisters the device under the lock; it touches no variable\<close>
  "hello_exit = section_code []"

fun hello_cat :: "nat \<Rightarrow> char list \<Rightarrow> nat option" where
  \<comment> \<open>a reader that reads until it gets 0, at most so many times: the number of bytes it was told\<close>
  "hello_cat 0 buf = None"
| "hello_cat (Suc k) buf =
     (case hello_read buf 1 of (r, b) \<Rightarrow> if r = 0 then Some 0 else map_option (\<lambda>n. n + nat r) (hello_cat k b))"

lemma hello_cat_never_ends: "hello_cat k buf = None"
  by (induction k arbitrary: buf) (simp_all add: hello_read_def)

definition user_code :: "bool list \<Rightarrow> s32 instr list" where
  \<comment> \<open>a process that opens (\<open>True\<close>) and closes the device\<close>
  "user_code ops = concat (map (\<lambda>b. if b then hello_open else hello_release) ops)"

definition opens :: "bool list \<Rightarrow> int" where
  "opens ops = int (count_list ops True) - int (count_list ops False)"

lemma user_code_sections: "user_code ops = sections (map (\<lambda>b. if b then [(0, 1)] else [(0, - 1)]) ops)"
  by (induction ops) (simp_all add: user_code_def hello_open_def hello_release_def section_code_def sections_def)

lemma todo_users:
  "todo (map (\<lambda>ops. map (\<lambda>b. if b then [(0, 1)] else [(0, - 1 :: s32)]) ops) opss) v
     = (if v = 0 then of_int (sum_list (map opens opss)) else 0)"
proof (induction opss)
  case Nil
  then show ?case by simp
next
  case (Cons ops opss)
  have "updates (concat (map (\<lambda>b. if b then [(0, 1)] else [(0, - 1 :: s32)]) ops)) v
      = (if v = 0 then of_int (opens ops) else 0)"
    by (induction ops) (auto simp: opens_def)
  with Cons show ?case by simp
qed

text \<open>
  The driver's count of open files is exact under concurrency: whatever processes open and
  close the device in whatever interleaving, none waits for ever, and when all are done the count
  is the number of opens minus the number of closes.
\<close>

lemma hello_count_exact:
  "fst (hello_init ok (map user_code opss)) = 0
   \<and> counts_to mutex_lock mutex_unlock (snd (hello_init ok (map user_code opss)))
        (vars [of_int (sum_list (map opens opss))])"
proof -
  define bss :: "(nat \<times> s32) list list list" where
    "bss = map (\<lambda>ops. map (\<lambda>b. if b then [(0, 1)] else [(0, - 1)]) ops) opss"
  have "map (Pair (0 :: s32)) (map user_code opss) = map (\<lambda>bs. (0, sections bs)) bss"
    by (simp add: bss_def user_code_sections comp_def)
  moreover have "(\<lambda>v. vars [0] v + todo bss v) = vars [of_int (sum_list (map opens opss))]"
    by (rule ext) (simp add: bss_def todo_users vars_def)
  ultimately show ?thesis
    using posix_mutex.counters_exact [of None "vars [0]" bss] by (simp add: hello_init_def)
qed

section \<open>The System V semaphore\<close>

record sysv_sem =
  semval :: nat
  semadj :: "nat \<Rightarrow> int"        \<comment> \<open>adjustments the kernel applies when a process exits\<close>
  taken_by :: "nat option"      \<comment> \<open>the process whose decrement has not been undone (not in the code)\<close>

definition semop :: "bool \<Rightarrow> nat \<Rightarrow> int \<Rightarrow> sysv_sem \<Rightarrow> sysv_sem option" where
  \<comment> \<open>\<^verbatim>\<open>semop\<close> of process \<open>i\<close> with \<^verbatim>\<open>sem_op\<close> = \<open>n\<close>; \<open>undo\<close>: the flag \<^verbatim>\<open>SEM_UNDO\<close>; \<open>None\<close>: it waits\<close>
  "semop undo i n s =
     (if int (semval s) + n < 0 then None
      else Some (s\<lparr>semval := nat (int (semval s) + n),
                   semadj := (if undo then (semadj s)(i := semadj s i - n) else semadj s),
                   taken_by := (if n < 0 then Some i else None)\<rparr>))"

definition sem_down :: "bool \<Rightarrow> nat \<Rightarrow> sysv_sem \<Rightarrow> sysv_sem option" where
  "sem_down undo i s = semop undo i (- 1) s"

definition sem_up :: "bool \<Rightarrow> nat \<Rightarrow> sysv_sem \<Rightarrow> sysv_sem" where
  "sem_up undo i s = (case semop undo i 1 s of None \<Rightarrow> s | Some t \<Rightarrow> t)"

definition sem_binary :: "sysv_sem \<Rightarrow> bool" where
  "sem_binary s \<longleftrightarrow> semval s = (if taken_by s = None then 1 else 0)"

interpretation sysv: mutual_exclusion "sem_down undo" "sem_up undo" taken_by sem_binary for undo
  by unfold_locales (auto simp: sem_down_def sem_up_def semop_def sem_binary_def split: if_splits)

definition sem_setval :: "nat \<Rightarrow> sysv_sem" where
  \<comment> \<open>\<^verbatim>\<open>semctl(id, 0, SETVAL, val)\<close> sets the value and clears all adjustments\<close>
  "sem_setval val = \<lparr>semval = val, semadj = (\<lambda>_. 0), taken_by = None\<rparr>"

definition semaphore_parent :: "s32 instr list" where
  "semaphore_parent = while_predec 60000 (section_code [(0, 1), (1, 1)])"

definition semaphore_child :: "s32 instr list" where
  "semaphore_child = while_predec 60000 (section_code [(0, - 1), (1, - 1)])"

definition semaphore_main ::
  "bool \<Rightarrow> bool \<Rightarrow> bool \<Rightarrow> sysv_sem \<Rightarrow> (nat \<Rightarrow> s32) \<Rightarrow> int + (s32, sysv_sem) shared"
where
  \<comment> \<open>results of \<^verbatim>\<open>semget\<close>, \<^verbatim>\<open>SETVAL\<close> (a failure is only printed) and \<^verbatim>\<open>fork\<close> (after a failure neither
     branch is taken); the semaphore and the segment, taken to be attached, hold what an earlier run left\<close>
  "semaphore_main semget_ok setval_ok fork_ok old m =
     (if \<not> semget_ok then Inl 1
      else Inr \<lparr>mem = m, lock = (if setval_ok then sem_setval 1 else old),
                threads = map (Pair 0) (if fork_ok then [semaphore_parent, semaphore_child] else [])\<rparr>)"

definition sema_proc1_section :: "s32 instr list" where
  "sema_proc1_section = Acquire # for_loop 65300 (bumps [(0, 1), (1, 1), (2, 1)]) @ [Release]"

definition sema_proc2_section :: "s32 instr list" where
  "sema_proc2_section = Acquire # for_loop 65300 (bumps [(0, - 1), (1, - 1), (2, - 1)]) @ [Release]"

definition sema_procs_main :: "bool \<Rightarrow> bool \<Rightarrow> bool \<Rightarrow> (nat \<Rightarrow> s32) \<Rightarrow> int + (s32, sysv_sem) shared" where
  \<comment> \<open>process 1 creates the shared memory and the semaphore and sets it to 1 before process 2, which
     does not set it, is started\<close>
  "sema_procs_main shm_ok semget_ok setval_ok m =
     (if \<not> shm_ok then Inl 1 else if \<not> semget_ok then Inl 1 else if \<not> setval_ok then Inl 1
      else Inr \<lparr>mem = m, lock = sem_setval 1, threads = map (Pair 0) [sema_proc1_section, sema_proc2_section]\<rparr>)"

lemma sem_binary_setval [simp]: "sem_binary (sem_setval 1)" "taken_by (sem_setval 1) = None"
  by (simp_all add: sem_binary_def sem_setval_def)

lemma section_replicate:
  "Acquire # for_loop n (bumps us) @ [Release] = sections [concat (replicate n us)]"
  by (simp add: for_loop_replicate bumps_replicate)

lemma sysv_counts:
  assumes "codes = map sections bss" and "\<And>v. todo bss v = 0"
  shows "counts_to (sem_down undo) (sem_up undo) \<lparr>mem = m, lock = sem_setval 1, threads = map (Pair 0) codes\<rparr> m"
  using sysv.counters_exact [OF sem_binary_setval, of undo m bss] assms by (simp add: comp_def)

text \<open>
  C25. The semaphore programs leave the shared memory as they found it: parent and child of
  \<^verbatim>\<open>semaphore.c\<close> (59999 updates each under a semaphore operation without undo) and the processes
  \<^verbatim>\<open>sema_proc1\<close> and \<^verbatim>\<open>sema_proc2\<close> (65300 updates in one section, with undo) never block each other
  for ever, and whatever values the variables start with they end with, in every interleaving.
\<close>

theorem semaphore_programs_exact:
  "(\<exists>c. semaphore_main True True True old m = Inr c \<and> counts_to (sem_down False) (sem_up False) c m)
   \<and> (\<exists>c. sema_procs_main True True True m = Inr c \<and> counts_to (sem_down True) (sem_up True) c m)"
proof -
  let ?u = "[(0, 1), (1, 1)] :: (nat \<times> s32) list" and ?w = "[(0, 1), (1, 1), (2, 1)] :: (nat \<times> s32) list"
  have n: "(60000 :: nat) = Suc 59999" by simp
  have a: "[semaphore_parent, semaphore_child] = map sections [replicate 59999 ?u, replicate 59999 [(0, - 1), (1, - 1)]]"
    by (simp only: semaphore_parent_def semaphore_child_def n while_predec_replicate sections_replicate list.map)
  have b: "todo [replicate k ?u, replicate k [(0, - 1), (1, - 1)]] v = 0" for k v
    using todo_opposite [of k ?u v] by simp
  have c: "[sema_proc1_section, sema_proc2_section]
      = map sections [[concat (replicate 65300 ?w)], [concat (replicate 65300 [(0, - 1), (1, - 1), (2, - 1)])]]"
    by (simp only: sema_proc1_section_def sema_proc2_section_def section_replicate list.map)
  have d: "todo [[concat (replicate k ?w)], [concat (replicate k [(0, - 1), (1, - 1), (2, - 1)])]] v = 0" for k v
    using todo_opposite [of k ?w v] by simp
  show ?thesis
    using sysv_counts [OF a b, of False m] sysv_counts [OF c d, of True m]
    by (simp add: semaphore_main_def sema_procs_main_def)
qed

end
