(* ===== verification/Race_Programs.thy ===== *)
theory Race_Programs
  imports Lock_Programs
begin

text \<open>
  The programs that count in shared variables without a lock, to show that updates get lost:
  \<^verbatim>\<open>linux_task/race_condition_thread/main.c\<close>, \<^verbatim>\<open>other/sharedMem.c\<close>, \<^verbatim>\<open>thread/thread.c\<close>,
  \<^verbatim>\<open>thread/thread_attr.c\<close>, \<^verbatim>\<open>linux_task/shared_memory_process/process1.c\<close> and \<^verbatim>\<open>process2.c\<close>.
  The lock of the machine is not used; its operations are those of the mutex.
\<close>

abbreviation no_lock_may_end :: "('v::comm_ring_1, mutex) shared \<Rightarrow> (nat \<Rightarrow> 'v) \<Rightarrow> bool" where
  "no_lock_may_end \<equiv> may_end mutex_lock mutex_unlock"

section \<open>Threads\<close>

definition race_increment :: "s64 instr list" where
  "race_increment = for_loop 65500 (bumps [(0, 1), (1, 1), (2, 1)])"

definition race_decrement :: "s64 instr list" where
  "race_decrement = for_loop 65500 (bumps [(0, - 1), (1, - 1), (2, - 1)])"

definition race_main :: "bool list \<Rightarrow> int + (s64, mutex) shared" where
  "race_main oks =
     create_threads oks (map (\<lambda>i. if i mod 2 \<noteq> 0 then race_decrement else race_increment) [0..<4])
       None (vars [0, 0, 0])"

definition attr_f1 :: "s32 instr list" where
  "attr_f1 = while_postdec 60000 (bumps [(0, 1), (1, 1)])"

definition attr_f2 :: "s32 instr list" where
  "attr_f2 = while_postdec 60000 (bumps [(0, - 1), (1, - 1)])"

definition attr_main :: "(s32, mutex) shared" where
  \<comment> \<open>run with both threads created (as root, for their real-time policy)\<close>
  "attr_main = \<lparr>mem = vars [], lock = None, threads = map (Pair 0) [attr_f1, attr_f2]\<rparr>"

definition thread_w1 :: "s32 instr list" where
  "thread_w1 = while_postdec 10000 (bumps [(0, 1)])"

definition thread_w2 :: "s32 instr list" where
  "thread_w2 = while_postdec 10000 (bumps [(0, 1)])"

definition thread_main :: "bool \<Rightarrow> bool \<Rightarrow> bool \<Rightarrow> int + (s32, mutex) shared" where
  \<comment> \<open>a failed \<^verbatim>\<open>pthread_attr_init\<close> of the second attributes ends the program; a thread that cannot be
     created (the priority of the second one needs privileges) is only reported\<close>
  "thread_main attr_ok first_ok second_ok =
     (if \<not> attr_ok then Inl 1
      else Inr \<lparr>mem = vars [0], lock = None,
        threads = map (Pair 0) ((if first_ok then [thread_w1] else []) @ (if second_ok then [thread_w2] else []))\<rparr>)"

section \<open>Processes\<close>

definition sharedMem_parent :: "s32 instr list" where
  "sharedMem_parent = while_predec 10000 (bumps [(0, 1), (1, 1)])"

definition sharedMem_child :: "s32 instr list" where
  "sharedMem_child = while_predec 10000 (bumps [(0, - 1), (1, - 1)])"

definition sharedMem_main :: "bool \<Rightarrow> bool \<Rightarrow> (nat \<Rightarrow> s32) \<Rightarrow> (s32, mutex) shared option" where
  \<comment> \<open>the segment is attached, \<^verbatim>\<open>fork\<close> succeeds; the segment is that an earlier run left.  The error tests
     only print, and \<^verbatim>\<open>shmat\<close> fails with -1, not with \<^verbatim>\<open>NULL\<close>: then the program crashes (\<open>None\<close>).  After a
     failed \<^verbatim>\<open>fork\<close> nobody counts\<close>
  "sharedMem_main shm_ok fork_ok m =
     (if \<not> shm_ok then None
      else Some \<lparr>mem = m, lock = None,
        threads = map (Pair 0) (if fork_ok then [sharedMem_parent, sharedMem_child] else [])\<rparr>)"

definition process1 :: "s64 instr list" where
  "process1 = for_loop 65530 (bumps [(0, 1), (1, 1), (2, 1)]) @ for_loop 65530 (bumps [(0, - 1), (1, - 1), (2, - 1)])"

definition process2 :: "s64 instr list" where
  "process2 = for_loop 65530 (bumps [(0, 1), (1, 1), (2, 1)]) @ for_loop 65530 (bumps [(0, - 1), (1, - 1), (2, - 1)])"

definition process_main :: "bool \<Rightarrow> bool \<Rightarrow> 'v::comm_ring_1 instr list \<Rightarrow> int + 'v instr list" where
  \<comment> \<open>what one of the two processes runs once \<^verbatim>\<open>shmget\<close> and \<^verbatim>\<open>shmat\<close> succeeded\<close>
  "process_main shmget_ok shmat_ok code = (if \<not> shmget_ok then Inl 1 else if \<not> shmat_ok then Inl 1 else Inr code)"

definition both_processes :: "(nat \<Rightarrow> s64) \<Rightarrow> s64 instr list list \<Rightarrow> (s64, mutex) shared" where
  "both_processes m codes = \<lparr>mem = m, lock = None, threads = map (Pair 0) codes\<rparr>"

section \<open>Lost updates\<close>

lemma in_order_run:
  "map snd (threads c) = replicate k [] @ map bumps uss \<Longrightarrow>
     \<exists>sched d. shared_run acquire release sched c = Some d \<and> finished d
       \<and> (\<forall>v. mem d v = mem c v + sum_list (map (\<lambda>us. updates us v) uss))"
proof (induction uss arbitrary: c k)
  case Nil
  then have "map snd (threads c) = replicate k []" by simp
  then have "finished c" unfolding finished_def list_all_iff by (metis image_set imageI in_set_replicate)
  then show ?case by (intro exI [of _ "[]"] exI [of _ c]) simp
next
  case (Cons us uss)
  have k: "k < length (threads c)" using arg_cong [OF Cons.prems, of length] by simp
  have "snd (threads c ! k) = bumps us"
    using Cons.prems k by (metis length_replicate list.simps(9) nth_append_length nth_map)
  then obtain r where t: "threads c ! k = (r, bumps us)" by (cases "threads c ! k") simp
  obtain r' where r: "shared_run acquire release (replicate (length (bumps us)) k) c
      = Some (set_thread k (r', []) (c\<lparr>mem := alone r (bumps us) (mem c)\<rparr>))" (is "_ = Some ?e")
    using alone_run [OF k t bumps_data] by blast
  have "map snd (threads ?e) = replicate (Suc k) [] @ map bumps uss"
    using Cons.prems
    by (simp add: set_thread_def map_update list_update_append replicate_append_same [symmetric])
  from Cons.IH [OF this] obtain sched d where
    d: "shared_run acquire release sched ?e = Some d" "finished d"
      "\<forall>v. mem d v = mem ?e v + sum_list (map (\<lambda>us. updates us v) uss)" by blast
  have "shared_run acquire release (replicate (length (bumps us)) k @ sched) c = Some d"
    using r d(1) by (simp add: shared.run_append)
  moreover have "mem d v = mem c v + sum_list (map (\<lambda>us. updates us v) (us # uss))" for v
    using d(3) by (simp add: set_thread_def alone_bumps algebra_simps)
  ultimately show ?case using d(2) by blast
qed

lemma may_end_in_order:
  assumes "codes = map bumps uss"
  shows "no_lock_may_end \<lparr>mem = m, lock = None, threads = map (Pair 0) codes\<rparr>
    (\<lambda>v. m v + sum_list (map (\<lambda>us. updates us v) uss))"
proof -
  have "map snd (threads \<lparr>mem = m, lock = None, threads = map (Pair 0) codes\<rparr>) = replicate 0 [] @ map bumps uss"
    using assms by (simp add: comp_def)
  from in_order_run [OF this, of mutex_lock mutex_unlock] show ?thesis unfolding may_end_def by (auto simp: fun_eq_iff)
qed

text \<open>
  Threads that repeat their updates \<open>n\<close> times each, of the same variables: nothing may be lost, and everything
  but the updates of one thread \<open>w\<close>.
\<close>

definition repeated :: "nat \<Rightarrow> (nat \<times> 'v::comm_ring_1) list list \<Rightarrow> 'v instr list list" where
  "repeated n us = map (\<lambda>u. bumps (concat (replicate n u))) us"

lemma nothing_lost:
  assumes codes: "codes = repeated n us" and f: "\<And>v. f v = m v + of_nat n * sum_list (map (\<lambda>u. updates u v) us)"
  shows "no_lock_may_end \<lparr>mem = m, lock = None, threads = map (Pair 0) codes\<rparr> f"
proof -
  define uss where "uss = map (\<lambda>u. concat (replicate n u)) us"
  have uss: "codes = map bumps uss" by (simp add: codes uss_def repeated_def)
  have "sum_list (map (\<lambda>u. updates u v) uss) = of_nat n * sum_list (map (\<lambda>u. updates u v) us)" for v
    unfolding uss_def by (induction us) (simp_all add: updates_replicate algebra_simps)
  with f have "f = (\<lambda>v. m v + sum_list (map (\<lambda>u. updates u v) uss))" by auto
  with may_end_in_order [OF uss, of m] show ?thesis by simp
qed

lemma one_remains:
  assumes codes: "codes = repeated n us" and w: "w < length us" "list_all (\<lambda>u. map fst u = vs) us"
    and f: "\<And>v. f v = m v + of_nat n * updates (us ! w) v"
  shows "no_lock_may_end \<lparr>mem = m, lock = None, threads = map (Pair 0) codes\<rparr> f"
proof -
  define uss where "uss = map (\<lambda>u. concat (replicate n u)) us"
  have "w < length uss" "\<forall>u \<in> set uss. map fst u = concat (replicate n vs)"
    using w by (auto simp: uss_def list_all_iff map_concat)
  note lost_updates [OF this, of mutex_lock mutex_unlock m None]
  moreover have "f = (\<lambda>v. m v + updates (uss ! w) v)" using f w(1) by (auto simp: uss_def updates_replicate)
  moreover have "codes = map bumps uss" by (simp add: codes repeated_def uss_def)
  ultimately show ?thesis by (simp add: comp_def)
qed

lemma race_codes:
  "map (\<lambda>i. if i mod 2 \<noteq> 0 then race_decrement else race_increment) [0..<4]
     = repeated 65500 [[(0, 1), (1, 1), (2, 1)], [(0, - 1), (1, - 1), (2, - 1)],
                       [(0, 1), (1, 1), (2, 1)], [(0, - 1), (1, - 1), (2, - 1)]]"
proof -
  have "map (\<lambda>i. if i mod 2 \<noteq> 0 then race_decrement else race_increment) [0..<4]
      = [race_increment, race_decrement, race_increment, race_decrement]"
    by (simp add: upt_conv_Cons)
  then show ?thesis
    by (simp only: race_increment_def race_decrement_def for_loop_replicate bumps_replicate list.map repeated_def)
qed

lemma attr_codes: "[attr_f1, attr_f2] = repeated 60000 [[(0, 1), (1, 1)], [(0, - 1), (1, - 1)]]"
  by (simp only: attr_f1_def attr_f2_def while_postdec_replicate bumps_replicate list.map repeated_def)

lemma sharedMem_codes: "[sharedMem_parent, sharedMem_child] = repeated 9999 [[(0, 1), (1, 1)], [(0, - 1), (1, - 1)]]"
proof -
  have "(10000 :: nat) = Suc 9999" by simp
  then show ?thesis
    by (simp only: sharedMem_parent_def sharedMem_child_def while_predec_replicate bumps_replicate list.map repeated_def)
qed

lemma thread_codes: "[thread_w1, thread_w2] = repeated 10000 [[(0, 1)], [(0, 1)]]"
  by (simp only: thread_w1_def thread_w2_def while_postdec_replicate bumps_replicate list.map repeated_def)

text \<open>
  C28. The unprotected programs have no definite result.  Some run of the four threads of the race demo, of
  the two of \<^verbatim>\<open>thread_attr\<close>, of the parent and child of \<^verbatim>\<open>sharedMem\<close> and of the two incrementing threads of
  \<^verbatim>\<open>thread.c\<close> ends with the sum of all updates in every counter (0; 0; unchanged; 20000); but some run also
  ends with every counter at what one thread alone makes of it, the updates of all others being lost:
  an incrementing thread (65500; 60000; 9999 more; 10000) as well as a decrementing one.  The whole memory
  at the end of the run is given, of the three, two, two and one shared counters.
\<close>

theorem race_programs_lose_updates:
  "(\<exists>c. race_main [True, True, True, True] = Inr c \<and> no_lock_may_end c (vars [0, 0, 0])
      \<and> no_lock_may_end c (vars [65500, 65500, 65500]) \<and> no_lock_may_end c (vars [- 65500, - 65500, - 65500]))
   \<and> no_lock_may_end attr_main (vars [0, 0]) \<and> no_lock_may_end attr_main (vars [60000, 60000])
   \<and> no_lock_may_end attr_main (vars [- 60000, - 60000])
   \<and> (\<exists>c. sharedMem_main True True m = Some c \<and> no_lock_may_end c m
        \<and> no_lock_may_end c (m(0 := m 0 + 9999, 1 := m 1 + 9999)) \<and> no_lock_may_end c (m(0 := m 0 - 9999, 1 := m 1 - 9999)))
   \<and> (\<exists>c. thread_main True True True = Inr c \<and> no_lock_may_end c (vars [20000]) \<and> no_lock_may_end c (vars [10000]))"
proof -
  note [simp] = vars_def less_Suc_eq
  have race: "\<exists>c. race_main [True, True, True, True] = Inr c \<and> no_lock_may_end c (vars [0, 0, 0])
      \<and> no_lock_may_end c (vars [65500, 65500, 65500]) \<and> no_lock_may_end c (vars [- 65500, - 65500, - 65500])"
  proof (intro exI conjI)
    show "race_main [True, True, True, True] = Inr \<lparr>mem = vars [0, 0, 0], lock = None,
        threads = map (Pair 0) (map (\<lambda>i. if i mod 2 \<noteq> 0 then race_decrement else race_increment) [0..<4])\<rparr>"
      by (simp add: race_main_def create_threads_def)
  qed (rule nothing_lost [OF race_codes] one_remains [OF race_codes, of 0 "[0, 1, 2]"]
        one_remains [OF race_codes, of 1 "[0, 1, 2]"]; auto; fail)+
  have attr: "no_lock_may_end attr_main (vars [0, 0]) \<and> no_lock_may_end attr_main (vars [60000, 60000])
      \<and> no_lock_may_end attr_main (vars [- 60000, - 60000])"
    unfolding attr_main_def
    by (intro conjI; rule nothing_lost [OF attr_codes] one_remains [OF attr_codes, of 0 "[0, 1]"]
        one_remains [OF attr_codes, of 1 "[0, 1]"]; auto; fail)
  have shared: "\<exists>c. sharedMem_main True True m = Some c \<and> no_lock_may_end c m
      \<and> no_lock_may_end c (m(0 := m 0 + 9999, 1 := m 1 + 9999)) \<and> no_lock_may_end c (m(0 := m 0 - 9999, 1 := m 1 - 9999))"
  proof (intro exI conjI)
    show "sharedMem_main True True m = Some \<lparr>mem = m, lock = None,
        threads = map (Pair 0) [sharedMem_parent, sharedMem_child]\<rparr>"
      by (simp add: sharedMem_main_def)
  qed (rule nothing_lost [OF sharedMem_codes] one_remains [OF sharedMem_codes, of 0 "[0, 1]"]
        one_remains [OF sharedMem_codes, of 1 "[0, 1]"]; auto; fail)+
  have thread: "\<exists>c. thread_main True True True = Inr c \<and> no_lock_may_end c (vars [20000]) \<and> no_lock_may_end c (vars [10000])"
  proof (intro exI conjI)
    show "thread_main True True True = Inr \<lparr>mem = vars [0], lock = None, threads = map (Pair 0) [thread_w1, thread_w2]\<rparr>"
      by (simp add: thread_main_def)
  qed (rule nothing_lost [OF thread_codes] one_remains [OF thread_codes, of 0 "[0]"]; auto; fail)+
  show ?thesis using race attr shared thread by blast
qed

text \<open>
  Two processes that each add 65530 and take it away again, on shared memory without a lock,
  may leave all three variables 65530 below their start, although each process alone restores them:
  they add in lockstep and subtract one after the other.
\<close>

lemma processes_lose_updates:
  "\<exists>p1 p2. process_main True True process1 = Inr p1 \<and> process_main True True process2 = Inr p2
     \<and> no_lock_may_end (both_processes m [p1, p2]) m
     \<and> no_lock_may_end (both_processes m [p1, p2]) (\<lambda>v. m v - (if v < 3 then 65530 else 0))"
proof -
  define U where "U = concat (replicate 65530 ([(0, 1), (1, 1), (2, 1)] :: (nat \<times> s64) list))"
  define D where "D = concat (replicate 65530 ([(0, - 1), (1, - 1), (2, - 1)] :: (nat \<times> s64) list))"
  have p: "process1 = bumps U @ bumps D" "process2 = bumps U @ bumps D"
    unfolding U_def D_def process1_def process2_def for_loop_replicate bumps_replicate by simp_all
  have u: "updates U v = (if v < 3 then 65530 else 0)" "updates D v = - (if v < 3 then 65530 else 0)" for v
    by (simp_all add: U_def D_def updates_replicate less_Suc_eq numeral_3_eq_3)
  let ?c = "both_processes m [process1, process2]"
  have "[process1, process2] = map bumps [U @ D, U @ D]" by (simp add: p bumps_append)
  from may_end_in_order [OF this, of m] have 1: "no_lock_may_end ?c m"
    by (simp add: both_processes_def u)
  have "0 < length (threads ?c)"
    "\<forall>k<length (threads ?c). snd (threads ?c ! k) = bumps U @ bumps D \<and> map fst U = map fst U"
    by (auto simp: both_processes_def p less_Suc_eq)
  from lockstep_run [OF this, of mutex_lock mutex_unlock] obtain s e where
    e: "shared_run mutex_lock mutex_unlock s ?c = Some e" "length (threads e) = 2"
      "\<forall>k<2. snd (threads e ! k) = bumps D" "mem e = bump_all U m"
    by (auto simp: both_processes_def)
  have "map snd (threads e) = replicate 0 [] @ map bumps [D, D]"
    using e(2,3) by (intro nth_equalityI) (auto simp: less_Suc_eq numeral_2_eq_2)
  from in_order_run [OF this, of mutex_lock mutex_unlock] obtain t f where
    f: "shared_run mutex_lock mutex_unlock t e = Some f" "finished f" "\<forall>v. mem f v = mem e v + (updates D v + updates D v)"
    by auto
  have "mem f = (\<lambda>v. m v - (if v < 3 then 65530 else 0))"
    using f(3) by (auto simp: e(4) bump_all_apply u)
  then have "no_lock_may_end ?c (\<lambda>v. m v - (if v < 3 then 65530 else 0))"
    unfolding may_end_def using e(1) f(1,2) by (intro exI [of _ "s @ t"] exI [of _ f]) (simp add: shared.run_append)
  with 1 show ?thesis by (simp add: process_main_def)
qed

end
