(* ===== verification/Semaphore_Reset.thy ===== *)
theory Semaphore_Reset
  imports Lock_Programs
begin

text \<open>
  The start of \<^verbatim>\<open>ipc_mechanisms/semaphore/sema_proc1.c\<close> while \<^verbatim>\<open>sema_proc2.c\<close> is already counting:
  process 1 sets the semaphore to 1 whatever its value is.  Process 1 is thread 0 and process 2 is
  thread 1 of the shared machine.
\<close>

definition sema_proc1_start :: "bool \<Rightarrow> (s32, sysv_sem) shared \<Rightarrow> (s32, sysv_sem) shared" where
  \<comment> \<open>\<^verbatim>\<open>semctl(sem_set_identifier, 0, SETVAL, sem_union)\<close> and its result\<close>
  "sema_proc1_start setval_ok c = (if setval_ok then c\<lparr>lock := sem_setval 1\<rparr> else c)"

definition sema_procs_idle :: "(nat \<Rightarrow> s32) \<Rightarrow> (s32, sysv_sem) shared" where
  \<comment> \<open>the semaphore exists and is free; process 1 has not been started yet\<close>
  "sema_procs_idle m =
     \<lparr>mem = m, lock = sem_setval 1, threads = map (Pair 0) [sema_proc1_section, sema_proc2_section]\<rparr>"

lemma setval_loses:
  fixes m :: "nat \<Rightarrow> 'v::comm_ring_1"
  assumes c: "c = \<lparr>mem = m, lock = sem_setval 1,
      threads = [(0, Acquire # bumps ws @ [Release]), (0, Acquire # bumps vs @ [Release])]\<rparr>"
    and same: "map fst ws = map fst vs"
  shows "\<exists>e sched f.
    shared_run (sem_down True) (sem_up True) [1] c = Some e \<and> taken_by (lock e) = Some 1
    \<and> shared_run (sem_down True) (sem_up True) sched (e\<lparr>lock := sem_setval 1\<rparr>) = Some f \<and> finished f
    \<and> mem f = bump_all vs m"
proof -
  let ?run = "shared_run (sem_down True) (sem_up True)"
  obtain l where l: "sem_down True 1 (sem_setval 1) = Some l" "taken_by l = Some 1"
    by (auto simp: sem_down_def semop_def sem_setval_def)
  define e where "e = \<lparr>mem = m, lock = l, threads = [(0, Acquire # bumps ws @ [Release]), (0, bumps vs @ [Release])]\<rparr>"
  have e: "?run [1] c = Some e"
    using l by (simp add: c e_def shared_step.simps set_thread_def)
  obtain k where k: "sem_down True 0 (sem_setval 1) = Some k"
    by (auto simp: sem_down_def semop_def sem_setval_def)
  define c1 where "c1 = \<lparr>mem = m, lock = k, threads = [(0, bumps ws @ [Release]), (0, bumps vs @ [Release])]\<rparr>"
  have s1: "?run [0] (e\<lparr>lock := sem_setval 1\<rparr>) = Some c1"
    using k by (simp add: e_def c1_def shared_step.simps set_thread_def)
  define us where "us = (\<lambda>k::nat. if k = 0 then ws else vs)"
  have "1 < length (threads c1)"
    "\<forall>k<length (threads c1). snd (threads c1 ! k) = bumps (us k) @ [Release] \<and> map fst (us k) = map fst vs"
    using same by (auto simp: c1_def us_def less_Suc_eq)
  from lockstep_run [OF this, of "sem_down True" "sem_up True"] obtain s2 d where
    d: "?run s2 c1 = Some d" "length (threads d) = 2" "\<forall>k<2. snd (threads d ! k) = [Release]" "mem d = bump_all vs m"
    by (auto simp: c1_def us_def)
  then have "snd (threads d ! 0) = [Release]" "snd (threads d ! 1) = [Release]" by simp_all
  then obtain r0 r1 where t: "threads d ! 0 = (r0, [Release])" "threads d ! 1 = (r1, [Release])"
    by (metis prod.collapse)
  define f where "f = set_thread 1 (r1, []) (set_thread 0 (r0, [])
      (d\<lparr>lock := sem_up True 1 (sem_up True 0 (lock d))\<rparr>))"
  have s3: "?run [0, 1] d = Some f"
    using t d(2) by (simp add: f_def shared_step.simps set_thread_def)
  have "finished f" using d(2) by (auto simp: f_def finished_def set_thread_def list_all_length less_2_cases_iff)
  moreover have "mem f = bump_all vs m" by (simp add: f_def set_thread_def d(4))
  moreover have "?run ([0] @ s2 @ [0, 1]) (e\<lparr>lock := sem_setval 1\<rparr>) = Some f"
    by (simp only: shared.run_append s1 d(1) s3 option.case)
  moreover have "taken_by (lock e) = Some 1" using l by (simp add: e_def)
  ultimately show ?thesis using e by blast
qed

text \<open>
  C27. Starting process 1 while process 2 holds the semaphore lets both into their sections: there is a
  run in which process 2 has taken the semaphore, process 1 sets it to 1 and counts as well, and when
  both are done all 65300 increments of process 1 are lost in all three variables, which end 65300 below
  where they began.
\<close>

theorem setval_breaks_exclusion:
  "\<exists>s1 e s2 f. shared_run (sem_down True) (sem_up True) s1 (sema_procs_idle m) = Some e \<and> set s1 \<subseteq> {1}
     \<and> taken_by (lock e) = Some 1
     \<and> shared_run (sem_down True) (sem_up True) s2 (sema_proc1_start True e) = Some f \<and> finished f
     \<and> mem f = (\<lambda>v. m v - (if v < 3 then 65300 else 0))"
proof -
  define ws where "ws = concat (replicate 65300 ([(0, 1), (1, 1), (2, 1)] :: (nat \<times> s32) list))"
  define vs where "vs = concat (replicate 65300 ([(0, - 1), (1, - 1), (2, - 1)] :: (nat \<times> s32) list))"
  have idle: "sema_procs_idle m = \<lparr>mem = m, lock = sem_setval 1,
      threads = [(0, Acquire # bumps ws @ [Release]), (0, Acquire # bumps vs @ [Release])]\<rparr>"
    by (simp only: sema_procs_idle_def sema_proc1_section_def sema_proc2_section_def ws_def vs_def
        for_loop_replicate bumps_replicate list.map)
  have "map fst ws = map fst vs" by (simp add: ws_def vs_def map_concat)
  from setval_loses [OF idle this]
  obtain e sched f where
    r: "shared_run (sem_down True) (sem_up True) [1] (sema_procs_idle m) = Some e" "taken_by (lock e) = Some 1"
      "shared_run (sem_down True) (sem_up True) sched (e\<lparr>lock := sem_setval 1\<rparr>) = Some f" "finished f"
      "mem f = bump_all vs m"
    by blast
  have "updates vs v = - (if v < 3 then 65300 else 0)" for v
    by (simp add: vs_def updates_replicate less_Suc_eq numeral_3_eq_3)
  then have "mem f = (\<lambda>v. m v - (if v < 3 then 65300 else 0))" using r(5) by (auto simp: bump_all_apply)
  moreover have "sema_proc1_start True e = e\<lparr>lock := sem_setval 1\<rparr>" by (simp add: sema_proc1_start_def)
  ultimately show ?thesis
    using r(1-4) by (intro exI [of _ "[1]"] exI [of _ e] exI [of _ sched] exI [of _ f]) (simp only: list.set, simp)
qed

end
