(* ===== verification/Segments.thy ===== *)
theory Segments
  imports Kernel_IO
begin

text \<open>
  System V shared memory segments as the kernel keeps them: the bytes, the number of attaches and the
  mark that \<^verbatim>\<open>IPC_RMID\<close> leaves.  A segment exists until it has been removed and nobody is attached to it.
\<close>

record segment =
  seg_bytes :: "char list"
  nattch :: nat
  seg_removed :: bool

definition SEG_SIZE :: nat where
  "SEG_SIZE = 4096"

definition segment_of :: "nat \<Rightarrow> segment" where
  "segment_of n = \<lparr>seg_bytes = replicate n NUL, nattch = 0, seg_removed = False\<rparr>"

definition new_segment :: segment where
  "new_segment = segment_of SEG_SIZE"

definition shmget :: "segment option \<Rightarrow> segment" where
  \<comment> \<open>with \<^verbatim>\<open>IPC_CREAT\<close>; a removed segment no longer has the key\<close>
  "shmget seg = (case seg of None \<Rightarrow> new_segment | Some s \<Rightarrow> if seg_removed s then new_segment else s)"

definition shmat :: "segment \<Rightarrow> segment" where
  "shmat s = s\<lparr>nattch := nattch s + 1\<rparr>"

definition collect :: "segment \<Rightarrow> segment option" where
  "collect s = (if seg_removed s \<and> nattch s = 0 then None else Some s)"

definition shmdt :: "segment \<Rightarrow> segment option" where
  "shmdt s = collect (s\<lparr>nattch := nattch s - 1\<rparr>)"

definition shm_rmid :: "segment \<Rightarrow> segment option" where
  "shm_rmid s = collect (s\<lparr>seg_removed := True\<rparr>)"

lemma collect_attached: "0 < nattch s \<Longrightarrow> collect s = Some s"
  by (simp add: collect_def)

lemma shmdt_shmat: "\<not> seg_removed s \<Longrightarrow> shmdt (shmat s) = Some s"
  by (cases s) (simp add: shmdt_def shmat_def collect_def)

lemma shmdt_many: "1 < nattch s \<Longrightarrow> shmdt s = Some (s\<lparr>nattch := nattch s - 1\<rparr>)"
  by (simp add: shmdt_def collect_def)

end
