(* ===== verification/Shm_Programs.thy ===== *)
theory Shm_Programs
  imports Segments
begin

text \<open>
  The pair \<^verbatim>\<open>ipc_mechanisms/shared_memory/ipc_shared_process1.c\<close> and \<^verbatim>\<open>ipc_shared_process2.c\<close>: the
  first writes a number and a text into a shared memory segment, the second prints and removes it.
  The first program declares the text as \<^verbatim>\<open>char arr[100]\<close>, the second as \<^verbatim>\<open>int arr[100]\<close>; both start
  at byte 4, and the second prints it with \<^verbatim>\<open>%s\<close>.
\<close>

section \<open>The programs\<close>

definition write_at :: "nat \<Rightarrow> char list \<Rightarrow> char list \<Rightarrow> char list" where
  "write_at off d b = take off b @ d @ drop (off + length d) b"

definition ipc_shared_process1 :: "bool \<Rightarrow> bool \<Rightarrow> bool \<Rightarrow> segment option \<Rightarrow> int \<times> segment option" where
  \<comment> \<open>results of \<^verbatim>\<open>shmget\<close>, \<^verbatim>\<open>shmat\<close> and \<^verbatim>\<open>shmdt\<close>; the exit status; the exit of a process detaches too\<close>
  "ipc_shared_process1 get_ok at_ok dt_ok seg =
     (if \<not> get_ok then (1, seg)
      else let s = shmget seg in
        if \<not> at_ok then (1, Some s)
        else let s = shmat s;
                 b = write_at 0 (le32 10) (seg_bytes s);
                 b = write_at 4 (strncpy (take 100 (drop 4 b)) ''Hi Are you there..'' 100) b;
                 s = s\<lparr>seg_bytes := b\<rparr>
             in (if dt_ok then 0 else 1, shmdt s))"

datatype shm_line = Get_error | At_error | Value s32 | Arr string | Detach_error | Rmid_error

definition ipc_shared_process2 ::
  "bool \<Rightarrow> bool \<Rightarrow> bool \<Rightarrow> bool \<Rightarrow> segment option \<Rightarrow> (shm_line list \<times> int \<times> segment option) outcome"
where
  \<comment> \<open>after a failed \<^verbatim>\<open>shmget\<close> or \<^verbatim>\<open>shmat\<close>, which are only printed, it reads at the address -1\<close>
  "ipc_shared_process2 get_ok at_ok dt_ok rm_ok seg =
     (if \<not> get_ok \<or> \<not> at_ok then Fault
      else let s = shmat (shmget seg) in
        if \<not> terminated (drop 4 (seg_bytes s)) then Fault
        else let out = [Value (of_le32 (seg_bytes s)), Arr (cstr (drop 4 (seg_bytes s)))]
             in if \<not> dt_ok then Done (out @ [Detach_error], 1, shmdt s)
                else case shmdt s of
                  None \<Rightarrow> Done (out @ [Rmid_error], 1, None)
                | Some s \<Rightarrow> if \<not> rm_ok then Done (out @ [Rmid_error], 1, Some s)
                            else Done (out, 0, shm_rmid s))"

section \<open>The segment of the semaphore processes\<close>

definition creat_attach_shared_mem :: "bool \<Rightarrow> bool \<Rightarrow> segment option \<Rightarrow> (int \<times> segment option) + segment" where
  \<comment> \<open>\<^verbatim>\<open>ipc_mechanisms/semaphore/sema_proc1.c\<close> and \<^verbatim>\<open>sema_proc2.c\<close>; left: the exit status\<close>
  "creat_attach_shared_mem get_ok at_ok seg =
     (if \<not> get_ok then Inl (1, seg) else if \<not> at_ok then Inl (1, Some (shmget seg))
      else Inr (shmat (shmget seg)))"

definition deattach_memory :: "bool \<Rightarrow> segment \<Rightarrow> (int \<times> segment option) + segment option" where
  \<comment> \<open>process 2; an exit after a failure detaches as well\<close>
  "deattach_memory dt_ok s = (if \<not> dt_ok then Inl (1, shmdt s) else Inr (shmdt s))"

definition deattach_delete_memory :: "bool \<Rightarrow> bool \<Rightarrow> segment \<Rightarrow> (int \<times> segment option) + segment option" where
  \<comment> \<open>process 1, which does not call it\<close>
  "deattach_delete_memory dt_ok rm_ok s =
     (if \<not> dt_ok then Inl (1, shmdt s)
      else case shmdt s of
        None \<Rightarrow> Inl (1, None)
      | Some s \<Rightarrow> if \<not> rm_ok then Inl (1, Some s) else Inr (shm_rmid s))"

lemma semaphore_segment_stays:
  \<comment> \<open>the memory outlives both processes: process 2 detaches and process 1 does not delete it\<close>
  assumes "creat_attach_shared_mem True True seg = Inr s"
  shows "\<exists>t. deattach_memory True s = Inr (Some t) \<and> seg_bytes t = seg_bytes (shmget seg) \<and> \<not> seg_removed t"
  using assms
  by (auto simp: creat_attach_shared_mem_def deattach_memory_def shmat_def shmdt_def collect_def shmget_def
      new_segment_def segment_of_def split: option.splits if_splits)

section \<open>What is delivered\<close>

lemma strncpy_hi: "strncpy b ''Hi Are you there..'' 100 = ''Hi Are you there..'' @ replicate 82 NUL @ drop 100 b"
  by (simp add: strncpy_def)

text \<open>
  The second program prints what the first has written, whatever an earlier run left in a segment
  that nobody uses, and removes it; if the second is started first it creates the segment itself,
  prints 0 and an empty text and removes it again; and unlike the first, which exits with a failure,
  it reads through the invalid pointer when \<^verbatim>\<open>shmget\<close> or \<^verbatim>\<open>shmat\<close> fails.
\<close>

lemma shared_memory_message:
  assumes "case seg of None \<Rightarrow> True | Some s \<Rightarrow> length (seg_bytes s) = SEG_SIZE \<and> nattch s = 0"
  shows "(\<exists>s. ipc_shared_process1 True True True seg = (0, Some s)
        \<and> ipc_shared_process2 True True True True (Some s)
            = Done ([Value 10, Arr ''Hi Are you there..''], 0, None))
    \<and> ipc_shared_process2 True True True True None = Done ([Value 0, Arr []], 0, None)
    \<and> fst (ipc_shared_process1 False at_ok dt_ok seg) = 1 \<and> ipc_shared_process2 False at_ok dt_ok rm_ok seg = Fault"
proof (intro conjI)
  define s0 where "s0 = shmget seg"
  have s0: "length (seg_bytes s0) = SEG_SIZE" "nattch s0 = 0" "\<not> seg_removed s0"
    using assms by (auto simp: s0_def shmget_def new_segment_def segment_of_def split: option.splits)
  define b where "b = le32 10 @ ''Hi Are you there..'' @ replicate 82 NUL @ drop 104 (seg_bytes s0)"
  have hi: "length (''Hi Are you there..'' @ replicate 82 NUL) = 100" by simp
  have "write_at 4 (strncpy (take 100 (drop 4 (write_at 0 (le32 10) (seg_bytes s0)))) ''Hi Are you there..'' 100)
      (write_at 0 (le32 10) (seg_bytes s0)) = b"
    using s0(1) hi by (simp add: write_at_def strncpy_hi b_def SEG_SIZE_def)
  then have "ipc_shared_process1 True True True seg = (0, Some (s0\<lparr>seg_bytes := b\<rparr>))"
    using s0(2,3) unfolding ipc_shared_process1_def Let_def s0_def [symmetric]
    by (cases s0) (simp add: shmat_def shmdt_def collect_def)
  moreover have "of_le32 b = 10" unfolding b_def by (rule of_le32_le32)
  moreover have "cstr (drop 4 b) = ''Hi Are you there..''" "terminated (drop 4 b)"
    by (simp_all add: b_def cstr_def terminated_def)
  then have "ipc_shared_process2 True True True True (Some (s0\<lparr>seg_bytes := b\<rparr>))
      = Done ([Value (of_le32 b), Arr ''Hi Are you there..''], 0, None)"
    using s0(2,3) by (simp add: ipc_shared_process2_def shmget_def shmat_def shmdt_def shm_rmid_def collect_def)
  ultimately show "\<exists>s. ipc_shared_process1 True True True seg = (0, Some s)
        \<and> ipc_shared_process2 True True True True (Some s) = Done ([Value 10, Arr ''Hi Are you there..''], 0, None)"
    by simp
next
  have "of_le32 (seg_bytes new_segment) = 0" by (simp add: of_le32_def new_segment_def segment_of_def SEG_SIZE_def)
  moreover have "seg_bytes new_segment = replicate 4096 NUL" by (simp add: new_segment_def segment_of_def SEG_SIZE_def)
  moreover have "cstr (replicate 4092 NUL) = []" by (simp add: cstr_def numeral_eq_Suc)
  ultimately show "ipc_shared_process2 True True True True None = Done ([Value 0, Arr []], 0, None)"
    by (simp add: ipc_shared_process2_def shmget_def shmat_def shmdt_def shm_rmid_def collect_def terminated_def)
      (simp add: new_segment_def segment_of_def)
qed (simp_all add: ipc_shared_process1_def ipc_shared_process2_def)

end
