(* ===== verification/Sema_Programs.thy ===== *)
theory Sema_Programs
  imports Lock_Programs Shm_Programs
begin

text \<open>
  The two programs of \<^verbatim>\<open>ipc_mechanisms/semaphore\<close> from their start to their end, started in any order
  on a system that has neither their segment nor their semaphore.  A step is one system call (its result
  is part of the move), one line of output (with the reading of the value that it prints), or one step of a
  counting section (\<open>Shared_Memory\<close>).  Every \<^verbatim>\<open>printf\<close> of the programs is a line of \<open>sp_out\<close>.  A new
  semaphore has the value 0, as Linux gives it, so that \<^verbatim>\<open>sema_proc2.c\<close>, which does not set it, waits
  until \<^verbatim>\<open>sema_proc1.c\<close> has.  An exit detaches the segment; it need not undo semaphore operations, since
  nobody exits between his two.
\<close>

section \<open>The programs\<close>

datatype sema_error = Err_shmget | Err_shmat | Err_semget | Err_semctl | Err_detach

datatype sema_line =
    Banner                  \<comment> \<open>\<^verbatim>\<open>Semaphore Program....\<close>\<close>
  | Created                 \<comment> \<open>\<^verbatim>\<open>Shared Memory Created...\<close>\<close>
  | Getval_init int         \<comment> \<open>\<^verbatim>\<open>Getval init%d\<close>\<close>
  | Getval_before int       \<comment> \<open>\<^verbatim>\<open>getval Before = %d\<close>\<close>
  | Getval_after int        \<comment> \<open>\<^verbatim>\<open>getval After=%d\<close>\<close>
  | Var_value nat s32       \<comment> \<open>\<^verbatim>\<open>proc1 shared_mem_ptr->val1=%d\<close> and so on, variables counted from 0\<close>
  | Deattached              \<comment> \<open>\<^verbatim>\<open>Shared deattached\<close>\<close>
  | Error_line sema_error   \<comment> \<open>\<^verbatim>\<open>Error shmget\<close>, \<^verbatim>\<open>Error shmat\<close>, \<^verbatim>\<open>Semget Failed...\<close>, \<^verbatim>\<open>Error In semctl...\<close>, \<^verbatim>\<open>Error Detaching\<close>\<close>

datatype sema_stage = At_banner | At_shm | At_shmat | At_created | At_semget | At_setval | At_getval_init
  | At_semop | At_getval_before | In_section | At_getval_after | At_print nat | At_detach | At_detached
  | At_error sema_error
  | At_exit bool bool   \<comment> \<open>is the segment attached; does the program return from \<^verbatim>\<open>main\<close> or exit after an error\<close>
  | Gone_ok | Gone_failed

record sema_sys =
  sp_shm :: "segment option"
  sp_set :: "sysv_sem option"
  sp_vals :: "nat \<Rightarrow> s32"          \<comment> \<open>\<^verbatim>\<open>val1\<close>, \<^verbatim>\<open>val2\<close>, \<^verbatim>\<open>val3\<close> of the segment\<close>
  sp_threads :: "s32 thread list"   \<comment> \<open>what is left of the two sections\<close>
  pc1 :: sema_stage
  pc2 :: sema_stage
  sp_out :: "(nat \<times> sema_line) list"   \<comment> \<open>the process and the line\<close>

definition sema_fresh :: sema_sys where
  "sema_fresh = \<lparr>sp_shm = None, sp_set = None, sp_vals = (\<lambda>_. 0),
     sp_threads = map (Pair 0) [sema_proc1_section, sema_proc2_section], pc1 = At_banner, pc2 = At_banner, sp_out = []\<rparr>"

definition sema_get :: "sysv_sem option \<Rightarrow> sysv_sem" where
  \<comment> \<open>\<^verbatim>\<open>semget(SEM_IPC_KEY, 1, 0666 | IPC_CREAT)\<close>\<close>
  "sema_get l = (case l of None \<Rightarrow> sem_setval 0 | Some l \<Rightarrow> l)"

definition sema_getval :: "sema_sys \<Rightarrow> int" where
  \<comment> \<open>\<^verbatim>\<open>semctl(sem_set_identifier, 0, GETVAL)\<close>\<close>
  "sema_getval s = (case sp_set s of None \<Rightarrow> - 1 | Some l \<Rightarrow> int (semval l))"

definition sema_say :: "nat \<Rightarrow> sema_line \<Rightarrow> sema_sys \<Rightarrow> sema_sys" where
  "sema_say p x s = s\<lparr>sp_out := sp_out s @ [(p, x)]\<rparr>"

definition print_val :: "nat \<Rightarrow> nat \<Rightarrow> sema_sys \<Rightarrow> sema_sys" where
  "print_val p k s = sema_say p (Var_value k (sp_vals s k)) s"

definition detach_exit :: "bool \<Rightarrow> sema_sys \<Rightarrow> sema_sys" where
  "detach_exit att s = (if att then s\<lparr>sp_shm := Option.bind (sp_shm s) shmdt\<rparr> else s)"

definition at_error_attached :: "sema_error \<Rightarrow> bool" where
  "at_error_attached e \<longleftrightarrow> e \<noteq> Err_shmget \<and> e \<noteq> Err_shmat"

fun sema_proc1 :: "bool \<Rightarrow> sema_sys \<Rightarrow> sema_stage \<Rightarrow> sema_sys option" where
  \<comment> \<open>the result of the call the process is at\<close>
  "sema_proc1 ok s At_banner = Some ((sema_say 1 Banner s)\<lparr>pc1 := At_shm\<rparr>)"
| "sema_proc1 ok s At_shm =
     Some (if ok then s\<lparr>sp_shm := Some (shmget (sp_shm s)), pc1 := At_shmat\<rparr> else s\<lparr>pc1 := At_error Err_shmget\<rparr>)"
| "sema_proc1 ok s At_shmat =
     Some (if ok then s\<lparr>sp_shm := map_option shmat (sp_shm s), pc1 := At_created\<rparr> else s\<lparr>pc1 := At_error Err_shmat\<rparr>)"
| "sema_proc1 ok s At_created = Some ((sema_say 1 Created s)\<lparr>pc1 := At_semget\<rparr>)"
| "sema_proc1 ok s At_semget =
     Some (if ok then s\<lparr>sp_set := Some (sema_get (sp_set s)), pc1 := At_setval\<rparr> else s\<lparr>pc1 := At_error Err_semget\<rparr>)"
| "sema_proc1 ok s At_setval =
     Some (if ok then s\<lparr>sp_set := Some (sem_setval 1), pc1 := At_getval_init\<rparr> else s\<lparr>pc1 := At_error Err_semctl\<rparr>)"
| "sema_proc1 ok s At_getval_init = Some ((sema_say 1 (Getval_init (sema_getval s)) s)\<lparr>pc1 := At_semop\<rparr>)"
| "sema_proc1 ok s At_getval_before = Some ((sema_say 1 (Getval_before (sema_getval s)) s)\<lparr>pc1 := In_section\<rparr>)"
| "sema_proc1 ok s In_section = (if snd (sp_threads s ! 0) = [] then Some (s\<lparr>pc1 := At_getval_after\<rparr>) else None)"
| "sema_proc1 ok s At_getval_after = Some ((sema_say 1 (Getval_after (sema_getval s)) s)\<lparr>pc1 := At_print 0\<rparr>)"
| "sema_proc1 ok s (At_print k) =
     Some ((print_val 1 k s)\<lparr>pc1 := if k < 2 then At_print (k + 1) else At_exit True True\<rparr>)"
| "sema_proc1 ok s (At_error e) = Some ((sema_say 1 (Error_line e) s)\<lparr>pc1 := At_exit (at_error_attached e) False\<rparr>)"
| "sema_proc1 ok s (At_exit att success) =
     Some ((detach_exit att s)\<lparr>pc1 := if success then Gone_ok else Gone_failed\<rparr>)"
| "sema_proc1 ok s _ = None"

fun sema_proc2 :: "bool \<Rightarrow> sema_sys \<Rightarrow> sema_stage \<Rightarrow> sema_sys option" where
  "sema_proc2 ok s At_banner = Some ((sema_say 2 Banner s)\<lparr>pc2 := At_shm\<rparr>)"
| "sema_proc2 ok s At_shm =
     Some (if ok then s\<lparr>sp_shm := Some (shmget (sp_shm s)), pc2 := At_shmat\<rparr> else s\<lparr>pc2 := At_error Err_shmget\<rparr>)"
| "sema_proc2 ok s At_shmat =
     Some (if ok then s\<lparr>sp_shm := map_option shmat (sp_shm s), pc2 := At_created\<rparr> else s\<lparr>pc2 := At_error Err_shmat\<rparr>)"
| "sema_proc2 ok s At_created = Some ((sema_say 2 Created s)\<lparr>pc2 := At_semget\<rparr>)"
| "sema_proc2 ok s At_semget =
     Some (if ok then s\<lparr>sp_set := Some (sema_get (sp_set s)), pc2 := In_section\<rparr> else s\<lparr>pc2 := At_error Err_semget\<rparr>)"
| "sema_proc2 ok s In_section = (if snd (sp_threads s ! 1) = [] then Some (s\<lparr>pc2 := At_print 0\<rparr>) else None)"
| "sema_proc2 ok s (At_print k) =
     Some ((print_val 2 k s)\<lparr>pc2 := if k < 2 then At_print (k + 1) else At_detach\<rparr>)"
| "sema_proc2 ok s At_detach =
     Some (if ok then s\<lparr>sp_shm := Option.bind (sp_shm s) shmdt, pc2 := At_detached\<rparr> else s\<lparr>pc2 := At_error Err_detach\<rparr>)"
| "sema_proc2 ok s At_detached = Some ((sema_say 2 Deattached s)\<lparr>pc2 := At_exit False True\<rparr>)"
| "sema_proc2 ok s (At_error e) = Some ((sema_say 2 (Error_line e) s)\<lparr>pc2 := At_exit (at_error_attached e) False\<rparr>)"
| "sema_proc2 ok s (At_exit att success) =
     Some ((detach_exit att s)\<lparr>pc2 := if success then Gone_ok else Gone_failed\<rparr>)"
| "sema_proc2 ok s _ = None"

definition sema_machine :: "sysv_sem \<Rightarrow> sema_sys \<Rightarrow> (s32, sysv_sem) shared" where
  "sema_machine l s = \<lparr>mem = sp_vals s, lock = l, threads = sp_threads s\<rparr>"

definition section_step :: "nat \<Rightarrow> sema_sys \<Rightarrow> sema_sys option" where
  "section_step i s =
     Option.bind (sp_set s) (\<lambda>l. map_option
       (\<lambda>c. s\<lparr>sp_vals := mem c, sp_set := Some (lock c), sp_threads := threads c\<rparr>)
       (shared_step (sem_down True) (sem_up True) i (sema_machine l s)))"

datatype sema_move = Proc1 bool | Proc2 bool | Section nat

fun sema_step :: "sema_move \<Rightarrow> sema_sys \<Rightarrow> sema_sys option" where
  "sema_step (Proc1 ok) s = sema_proc1 ok s (pc1 s)"
| "sema_step (Proc2 ok) s = sema_proc2 ok s (pc2 s)"
| "sema_step (Section i) s =
     \<comment> \<open>process 1 prints a line between its first semaphore operation and the loop\<close>
     (if i = 0 \<and> pc1 s = At_semop then map_option (\<lambda>t. t\<lparr>pc1 := At_getval_before\<rparr>) (section_step 0 s)
      else if (if i = 0 then pc1 s else pc2 s) = In_section then section_step i s else None)"

fun sema_run :: "sema_move list \<Rightarrow> sema_sys \<Rightarrow> sema_sys option" where
  "sema_run [] s = Some s"
| "sema_run (m # ms) s = (case sema_step m s of None \<Rightarrow> None | Some t \<Rightarrow> sema_run ms t)"

interpretation sema: machine sema_step sema_run
  by unfold_locales simp_all

fun succeeds :: "sema_move \<Rightarrow> bool" where
  "succeeds (Proc1 ok) = ok"
| "succeeds (Proc2 ok) = ok"
| "succeeds (Section i) = True"

section \<open>The semaphore protects the sections\<close>

fun set_stage :: "sema_stage \<Rightarrow> bool" where
  \<comment> \<open>the stages of process 1 after its \<^verbatim>\<open>SETVAL\<close>\<close>
  "set_stage At_getval_init = True" | "set_stage At_semop = True" | "set_stage At_getval_before = True"
| "set_stage In_section = True" | "set_stage At_getval_after = True" | "set_stage (At_print k) = True"
| "set_stage (At_exit att success) = success" | "set_stage Gone_ok = True" | "set_stage _ = False"

definition set_done :: "sema_sys \<Rightarrow> bool" where
  "set_done s \<longleftrightarrow> set_stage (pc1 s)"

fun over :: "sema_stage \<Rightarrow> bool" where
  \<comment> \<open>the stages of both processes after their sections\<close>
  "over At_getval_after = True" | "over (At_print k) = True" | "over At_detach = True" | "over At_detached = True"
| "over (At_exit att success) = success" | "over Gone_ok = True" | "over _ = False"

fun only1 :: "sema_stage \<Rightarrow> bool" where
  "only1 At_setval = True" | "only1 At_getval_init = True" | "only1 At_semop = True" | "only1 At_getval_before = True"
| "only1 At_getval_after = True" | "only1 _ = False"

fun only2 :: "sema_stage \<Rightarrow> bool" where
  "only2 At_detach = True" | "only2 At_detached = True" | "only2 (At_error e) = (e = Err_detach)" | "only2 _ = False"

fun start_line :: "sema_line \<Rightarrow> bool" where
  \<comment> \<open>lines that show nothing of the shared variables and the semaphore\<close>
  "start_line Banner = True" | "start_line Created = True" | "start_line (Error_line e) = True" | "start_line _ = False"

definition before_zero :: "sema_sys \<Rightarrow> bool" where
  "before_zero s \<longleftrightarrow> (\<forall>p x. (p, Getval_before x) \<in> set (sp_out s) \<longrightarrow> x = 0)"

definition sema_waiting :: "sema_sys \<Rightarrow> bool" where
  "sema_waiting s \<longleftrightarrow> sp_vals s = (\<lambda>_. 0) \<and> sp_threads s = sp_threads sema_fresh
     \<and> list_all (\<lambda>x. start_line (snd x)) (sp_out s)
     \<and> sp_set s \<in> {None, Some (sem_setval 0)} \<and> \<not> over (pc2 s) \<and> \<not> only1 (pc2 s) \<and> \<not> only2 (pc1 s)"

definition sema_counting :: "sema_sys \<Rightarrow> bool" where
  "sema_counting s \<longleftrightarrow> (\<exists>l. sp_set s = Some l \<and> sysv.protected (\<lambda>_. 0) (sema_machine l s)
       \<and> (pc1 s = At_getval_before \<longrightarrow> taken_by l = Some 0))
     \<and> length (sp_threads s) = 2 \<and> \<not> only1 (pc2 s) \<and> \<not> only2 (pc1 s)
     \<and> (pc1 s \<in> {At_getval_init, At_semop} \<longrightarrow> sp_threads s ! 0 = sp_threads sema_fresh ! 0)
     \<and> (over (pc1 s) \<longrightarrow> snd (sp_threads s ! 0) = []) \<and> (over (pc2 s) \<longrightarrow> snd (sp_threads s ! 1) = [])
     \<and> before_zero s"

definition sema_inv :: "sema_sys \<Rightarrow> bool" where
  "sema_inv s \<longleftrightarrow> (if set_done s then sema_counting s else sema_waiting s)"

lemma sections_sema:
  "sp_threads sema_fresh = map (\<lambda>bs. (0, sections bs))
     [[concat (replicate 65300 [(0, 1), (1, 1), (2, 1)])], [concat (replicate 65300 [(0, - 1), (1, - 1), (2, - 1)])]]"
  by (simp only: sema_fresh_def sema_proc1_section_def sema_proc2_section_def section_replicate list.map sema_sys.simps)

lemma protected_fresh:
  "sysv.protected (\<lambda>_. 0) \<lparr>mem = (\<lambda>_. 0), lock = sem_setval 1, threads = sp_threads sema_fresh\<rparr>"
proof -
  let ?bss = "[[concat (replicate 65300 [(0, 1), (1, 1), (2, 1)])],
    [concat (replicate 65300 [(0, - 1), (1, - 1), (2, - 1)])]] :: (nat \<times> s32) list list list"
  have "todo ?bss v = 0" for v
    using todo_opposite [of 65300 "[(0, 1), (1, 1), (2, 1)]" v] by simp
  then have "(\<lambda>v. 0 + todo ?bss v) = (\<lambda>_. 0)" by (intro ext) simp
  with sysv.protected_start [OF sem_binary_setval, of "\<lambda>_. 0" ?bss] show ?thesis
    unfolding sections_sema by (simp only:)
qed

lemma fresh_sections:
  "length (sp_threads sema_fresh) = 2"
  "\<exists>code. sp_threads sema_fresh ! 0 = (0, Acquire # code)" "\<exists>code. sp_threads sema_fresh ! 1 = (0, Acquire # code)"
  by (simp_all add: sema_fresh_def sema_proc1_section_def sema_proc2_section_def)

lemma section_waits:
  assumes "sema_waiting s"
  shows "section_step i s = None"
proof -
  have "shared_step (sem_down True) (sem_up True) i (sema_machine (sem_setval 0) s) = None"
  proof (cases "i < 2")
    case True
    then have "i = 0 \<or> i = 1" by linarith
    with fresh_sections obtain code where "sp_threads sema_fresh ! i = (0, Acquire # code)" by metis
    with assms fresh_sections(1) show ?thesis
      by (simp add: sema_waiting_def sema_machine_def shared_step.simps sem_down_def semop_def sem_setval_def)
  qed (use assms fresh_sections(1) in \<open>simp add: sema_waiting_def sema_machine_def shared_step.simps\<close>)
  with assms show ?thesis by (auto simp: sema_waiting_def section_step_def)
qed

lemma section_step_parts:
  assumes "section_step i s = Some t"
  shows "pc1 t = pc1 s" "pc2 t = pc2 s" "sp_shm t = sp_shm s" "sp_out t = sp_out s" "before_zero t = before_zero s"
    "snd (sp_threads s ! i) \<noteq> []" "i < length (sp_threads s)" "length (sp_threads t) = length (sp_threads s)"
    "j \<noteq> i \<Longrightarrow> sp_threads t ! j = sp_threads s ! j"
    "steps_left (sema_machine l s) = Suc (steps_left (sema_machine k t))"
proof -
  from assms obtain m d where d: "sp_set s = Some m" "shared_step (sem_down True) (sem_up True) i (sema_machine m s) = Some d"
    "t = s\<lparr>sp_vals := mem d, sp_set := Some (lock d), sp_threads := threads d\<rparr>"
    by (auto simp: section_step_def bind_eq_Some_conv)
  have "length (threads d) = length (sp_threads s)" "i < length (sp_threads s)" "snd (sp_threads s ! i) \<noteq> []"
    "\<And>j. j \<noteq> i \<Longrightarrow> threads d ! j = sp_threads s ! j"
    using d(2) by (auto simp: sema_machine_def shared_step.simps set_thread_def split: if_splits prod.splits list.splits instr.splits)
  then show "snd (sp_threads s ! i) \<noteq> []" "i < length (sp_threads s)" "length (sp_threads t) = length (sp_threads s)"
    "j \<noteq> i \<Longrightarrow> sp_threads t ! j = sp_threads s ! j"
    by (simp_all add: d(3))
  show "pc1 t = pc1 s" "pc2 t = pc2 s" "sp_shm t = sp_shm s" "sp_out t = sp_out s" "before_zero t = before_zero s"
    by (simp_all add: d(3) before_zero_def)
  show "steps_left (sema_machine l s) = Suc (steps_left (sema_machine k t))"
    using step_steps_left [OF d(2)] by (simp add: steps_left_def sema_machine_def d(3))
qed

lemma section_counts:
  assumes c: "sema_counting s" and t: "section_step i s = Some t" and at: "i = 0 \<longrightarrow> pc1 s = In_section"
  shows "sema_counting t"
proof -
  from c obtain m where m: "sp_set s = Some m" "sysv.protected (\<lambda>_. 0) (sema_machine m s)"
    "pc1 s = At_getval_before \<longrightarrow> taken_by m = Some 0"
    by (auto simp: sema_counting_def)
  with t obtain d where d: "shared_step (sem_down True) (sem_up True) i (sema_machine m s) = Some d"
    "t = s\<lparr>sp_vals := mem d, sp_set := Some (lock d), sp_threads := threads d\<rparr>"
    by (auto simp: section_step_def)
  have "sema_machine (lock d) t = d" by (simp add: d(2) sema_machine_def)
  with sysv.step_protected [OF m(2) d(1)] have "sysv.protected (\<lambda>_. 0) (sema_machine (lock d) t)" by simp
  moreover have "pc1 s \<noteq> At_getval_before"
  proof
    assume before: "pc1 s = At_getval_before"
    with m(3) have "taken_by (lock (sema_machine m s)) = Some 0" by (simp add: sema_machine_def)
    from sysv.protected_mover [OF m(2) this d(1)] at before show False by simp
  qed
  moreover note p = section_step_parts [OF t]
  moreover have "i \<noteq> 0" if "over (pc1 s)" using c p(6) that by (metis sema_counting_def)
  moreover have "i \<noteq> 1" if "over (pc2 s)" using c p(6) that by (metis sema_counting_def)
  moreover have "i \<noteq> 0" if "pc1 s \<in> {At_getval_init, At_semop}" using at that by auto
  moreover have "i < 2" using c p(7) by (simp add: sema_counting_def)
  ultimately show ?thesis using c unfolding sema_counting_def by (simp add: d(2)) (metis p(9))
qed

lemma section_starts:
  assumes c: "sema_counting s" and t: "section_step 0 s = Some t" and at: "pc1 s = At_semop"
  shows "sema_counting (t\<lparr>pc1 := At_getval_before\<rparr>)"
proof -
  from c obtain m where m: "sp_set s = Some m" "sysv.protected (\<lambda>_. 0) (sema_machine m s)" by (auto simp: sema_counting_def)
  with t obtain d where d: "shared_step (sem_down True) (sem_up True) 0 (sema_machine m s) = Some d"
    "t = s\<lparr>sp_vals := mem d, sp_set := Some (lock d), sp_threads := threads d\<rparr>"
    by (auto simp: section_step_def)
  have eq: "sema_machine (lock d) (t\<lparr>pc1 := At_getval_before\<rparr>) = d" by (simp add: d(2) sema_machine_def)
  with sysv.step_protected [OF m(2) d(1)] have pr: "sysv.protected (\<lambda>_. 0) (sema_machine (lock d) (t\<lparr>pc1 := At_getval_before\<rparr>))"
    by simp
  have "sp_threads s ! 0 = sp_threads sema_fresh ! 0" using c at by (simp add: sema_counting_def)
  with fresh_sections(2) obtain code where "sp_threads s ! 0 = (0, Acquire # code)" by auto
  with d(1) have "taken_by (lock d) = Some 0"
    by (auto simp: sema_machine_def shared_step.simps set_thread_def sem_down_def semop_def split: if_splits)
  moreover note p = section_step_parts [OF t]
  ultimately show ?thesis using c p(3,5,8) p(9) [of 1] pr by (auto simp: sema_counting_def d(2) before_zero_def)
qed

lemma counting_moved:
  assumes "sema_counting s" "sp_vals t = sp_vals s" "sp_set t = sp_set s" "sp_threads t = sp_threads s"
    and "over (pc1 t) \<longrightarrow> over (pc1 s) \<or> snd (sp_threads s ! 0) = []"
    and "over (pc2 t) \<longrightarrow> over (pc2 s) \<or> snd (sp_threads s ! 1) = []"
    and "only1 (pc2 t) \<longrightarrow> only1 (pc2 s)" "only2 (pc1 t) \<longrightarrow> only2 (pc1 s)"
    and "pc1 t = pc1 s \<or> pc1 t \<notin> {At_getval_init, At_semop, At_getval_before} \<or> pc1 s = At_getval_init \<and> pc1 t = At_semop"
    and "before_zero t"
  shows "sema_counting t"
  using assms by (auto simp: sema_counting_def sema_machine_def)

lemma counting_set: "sema_counting s \<Longrightarrow> Some (sema_get (sp_set s)) = sp_set s"
  by (auto simp: sema_counting_def sema_get_def)

lemma waiting_set: "sema_waiting s \<Longrightarrow> sema_get (sp_set s) = sem_setval 0"
  by (auto simp: sema_waiting_def sema_get_def)

lemma getval_before: "sema_counting s \<Longrightarrow> pc1 s = At_getval_before \<Longrightarrow> sema_getval s = 0"
  using sysv.protected_lock by (fastforce simp: sema_counting_def sema_getval_def sem_binary_def sema_machine_def)

lemma start_before_zero: "list_all (\<lambda>x. start_line (snd x)) (sp_out s) \<Longrightarrow> before_zero s"
  by (force simp: before_zero_def list_all_iff)

lemma said [simp]:
  "sp_vals (sema_say p x s) = sp_vals s" "sp_set (sema_say p x s) = sp_set s" "sp_threads (sema_say p x s) = sp_threads s"
  "sp_shm (sema_say p x s) = sp_shm s" "pc1 (sema_say p x s) = pc1 s" "pc2 (sema_say p x s) = pc2 s" "sp_out (sema_say p x s) = sp_out s @ [(p, x)]"
  by (simp_all add: sema_say_def)

lemma printed [simp]:
  "sp_vals (print_val p k s) = sp_vals s" "sp_set (print_val p k s) = sp_set s" "sp_threads (print_val p k s) = sp_threads s"
  "sp_shm (print_val p k s) = sp_shm s" "pc1 (print_val p k s) = pc1 s" "pc2 (print_val p k s) = pc2 s"
  "sp_out (print_val p k s) = sp_out s @ [(p, Var_value k (sp_vals s k))]"
  by (simp_all add: print_val_def)

lemma exited [simp]:
  "sp_vals (detach_exit a s) = sp_vals s" "sp_set (detach_exit a s) = sp_set s" "sp_threads (detach_exit a s) = sp_threads s"
  "pc1 (detach_exit a s) = pc1 s" "pc2 (detach_exit a s) = pc2 s" "sp_out (detach_exit a s) = sp_out s"
  "sp_shm (detach_exit a s) = (if a then Option.bind (sp_shm s) shmdt else sp_shm s)"
  by (simp_all add: detach_exit_def)

lemma setval_done:
  assumes "sema_waiting s"
  shows "sema_counting (s\<lparr>sp_set := Some (sem_setval 1), pc1 := At_getval_init\<rparr>)"
  using assms protected_fresh fresh_sections(1) start_before_zero [of s]
  by (auto simp: sema_waiting_def sema_counting_def sema_machine_def before_zero_def)

lemma proc1_inv:
  assumes inv: "sema_inv s" and t: "sema_proc1 ok s (pc1 s) = Some t"
  shows "sema_inv t"
proof (cases "set_done s")
  case True
  then have c: "sema_counting s" using inv by (simp add: sema_inv_def)
  then have z: "before_zero s" by (simp add: sema_counting_def)
  have "set_done t \<and> sema_counting t"
    using True t z getval_before [OF c] by (cases "pc1 s")
      (auto simp: set_done_def before_zero_def intro!: counting_moved [OF c] split: if_splits)
  then show ?thesis by (simp add: sema_inv_def)
next
  case False
  then have w: "sema_waiting s" using inv by (simp add: sema_inv_def)
  show ?thesis
  proof (cases "pc1 s = At_setval \<and> ok")
    case True
    with t setval_done [OF w] show ?thesis by (auto simp: sema_inv_def set_done_def)
  next
    case False
    then show ?thesis
      using w \<open>\<not> set_done s\<close> t waiting_set [OF w] by (cases "pc1 s")
        (auto simp: sema_inv_def set_done_def sema_waiting_def split: if_splits)
  qed
qed

lemma proc2_inv:
  assumes inv: "sema_inv s" and t: "sema_proc2 ok s (pc2 s) = Some t"
  shows "sema_inv t"
proof (cases "set_done s")
  case True
  then have c: "sema_counting s" using inv by (simp add: sema_inv_def)
  then have z: "before_zero s" by (simp add: sema_counting_def)
  have "set_done t \<and> sema_counting t"
    using True t z counting_set [OF c] by (cases "pc2 s")
      (auto simp: set_done_def before_zero_def intro!: counting_moved [OF c] split: if_splits)
  then show ?thesis by (simp add: sema_inv_def)
next
  case False
  then have w: "sema_waiting s" using inv by (simp add: sema_inv_def)
  have "snd (sp_threads s ! 1) \<noteq> []" using w fresh_sections(3) by (auto simp: sema_waiting_def)
  then show ?thesis
    using w False t waiting_set [OF w] by (cases "pc2 s")
      (auto simp: sema_inv_def set_done_def sema_waiting_def split: if_splits)
qed

lemma section_moves:
  assumes inv: "sema_inv s" and t: "sema_step (Section i) s = Some t"
  obtains u where "sema_counting s" "section_step i s = Some u" "sema_counting t" "set_done s"
    "t = (if i = 0 \<and> pc1 s = At_semop then u\<lparr>pc1 := At_getval_before\<rparr> else u)"
    "i = 0 \<and> pc1 s = At_semop \<or> (if i = 0 then pc1 s else pc2 s) = In_section"
proof -
  from t obtain u where u: "section_step i s = Some u"
    "t = (if i = 0 \<and> pc1 s = At_semop then u\<lparr>pc1 := At_getval_before\<rparr> else u)"
    "i = 0 \<and> pc1 s = At_semop \<or> (if i = 0 then pc1 s else pc2 s) = In_section"
    by (auto split: if_splits)
  with inv section_waits have c: "set_done s" "sema_counting s" by (auto simp: sema_inv_def split: if_splits)
  have "sema_counting t"
    using u section_starts [OF c(2)] section_counts [OF c(2) u(1)] by (auto split: if_splits)
  with that u c show thesis by blast
qed

lemma sema_inv_step:
  assumes "sema_inv s" "sema_step m s = Some t"
  shows "sema_inv t"
proof (cases m)
  case (Section i)
  from assms(2) obtain u where "section_step i s = Some u" "sema_counting t" "set_done s"
    "t = (if i = 0 \<and> pc1 s = At_semop then u\<lparr>pc1 := At_getval_before\<rparr> else u)"
    unfolding Section by (rule section_moves [OF assms(1)]) blast
  then show ?thesis using section_step_parts(1) [of i s u] by (simp add: sema_inv_def set_done_def)
next
  case (Proc1 ok)
  with assms show ?thesis using proc1_inv by simp
next
  case (Proc2 ok)
  with assms show ?thesis using proc2_inv by simp
qed

lemma sema_inv_fresh: "sema_inv sema_fresh"
  by (simp add: sema_inv_def set_done_def sema_waiting_def) (simp add: sema_fresh_def)

lemma counting_final:
  assumes "sema_counting s" "list_all (\<lambda>t. snd t = []) (sp_threads s)"
  shows "sp_vals s = (\<lambda>_. 0)" "\<exists>l. sp_set s = Some l \<and> semval l = 1"
proof -
  from assms(1) obtain l where l: "sp_set s = Some l" "sysv.protected (\<lambda>_. 0) (sema_machine l s)"
    by (auto simp: sema_counting_def)
  have f: "finished (sema_machine l s)" using assms(2) by (simp add: finished_def sema_machine_def)
  show "sp_vals s = (\<lambda>_. 0)"
    using sysv.protected_final [OF l(2) f] by (intro ext) (simp add: sema_machine_def)
  show "\<exists>l. sp_set s = Some l \<and> semval l = 1"
    using l(1) sysv.protected_free [OF l(2) f] by (auto simp: sema_machine_def sem_binary_def)
qed

section \<open>The segment\<close>

fun attached_at :: "sema_stage \<Rightarrow> bool" where
  "attached_at At_banner = False" | "attached_at At_shm = False" | "attached_at At_shmat = False"
| "attached_at (At_error e) = at_error_attached e" | "attached_at (At_exit att success) = att"
| "attached_at At_detached = False" | "attached_at Gone_ok = False" | "attached_at Gone_failed = False"
| "attached_at _ = True"

fun without_segment :: "sema_stage \<Rightarrow> bool" where
  "without_segment At_banner = True" | "without_segment At_shm = True"
| "without_segment (At_error e) = (e = Err_shmget)"
| "without_segment (At_exit att success) = (\<not> att \<and> \<not> success)"
| "without_segment Gone_failed = True" | "without_segment _ = False"

definition sema_seg :: "sema_sys \<Rightarrow> bool" where
  "sema_seg s \<longleftrightarrow> (case sp_shm s of
      None \<Rightarrow> without_segment (pc1 s) \<and> without_segment (pc2 s)
    | Some g \<Rightarrow> \<not> seg_removed g \<and> nattch g = of_bool (attached_at (pc1 s)) + of_bool (attached_at (pc2 s)))"

lemma shmget_kept: "\<not> seg_removed g \<Longrightarrow> shmget (Some g) = g"
  by (simp add: shmget_def)

lemma shmdt_kept: "\<not> seg_removed g \<Longrightarrow> shmdt g = Some (g\<lparr>nattch := nattch g - 1\<rparr>)"
  by (simp add: shmdt_def collect_def)

lemma new_attach: "nattch (shmget None) = 0" "\<not> seg_removed (shmget None)"
  by (simp_all add: shmget_def new_segment_def segment_of_def)

lemmas segment_calls = shmget_kept shmdt_kept new_attach shmat_def

lemma no_segment_attached: "without_segment st \<Longrightarrow> \<not> attached_at st"
  by (cases st) (auto simp: at_error_attached_def)

lemma sema_seg_step:
  assumes "sema_seg s" "sema_step m s = Some t"
  shows "sema_seg t"
proof (cases m)
  case (Section i)
  with assms(2) obtain u where u: "section_step i s = Some u"
    "t = u \<or> t = u\<lparr>pc1 := At_getval_before\<rparr> \<and> pc1 s = At_semop"
    by (auto split: if_splits)
  have "sp_shm t = sp_shm s \<and> attached_at (pc1 t) = attached_at (pc1 s) \<and> without_segment (pc1 t) = without_segment (pc1 s)
      \<and> pc2 t = pc2 s"
    using u(2) section_step_parts(1-3) [OF u(1)] by auto
  with assms(1) show ?thesis unfolding sema_seg_def by (simp split: option.splits)
next
  case (Proc1 ok)
  with assms no_segment_attached [of "pc2 s"] show ?thesis
    by (cases "sp_shm s"; cases "pc1 s")
      (auto simp: sema_seg_def segment_calls at_error_attached_def split: if_splits)
next
  case (Proc2 ok)
  with assms no_segment_attached [of "pc1 s"] show ?thesis
    by (cases "sp_shm s"; cases "pc2 s")
      (auto simp: sema_seg_def segment_calls at_error_attached_def split: if_splits)
qed

lemma create_attach_agrees:
  \<comment> \<open>the two steps are what the function \<^verbatim>\<open>creat_attach_shared_mem\<close> does when nobody runs in between\<close>
  "pc1 s = At_shm \<Longrightarrow> creat_attach_shared_mem True True (sp_shm s) = Inr g
     \<Longrightarrow> map_option sp_shm (sema_run [Proc1 True, Proc1 True] s) = Some (Some g)"
  by (auto simp: creat_attach_shared_mem_def)

section \<open>What is printed\<close>

fun blank_line :: "sema_line \<Rightarrow> sema_line" where
  \<comment> \<open>a line without the number it shows\<close>
  "blank_line (Getval_init x) = Getval_init 0" | "blank_line (Getval_before x) = Getval_before 0"
| "blank_line (Getval_after x) = Getval_after 0" | "blank_line (Var_value k x) = Var_value k 0" | "blank_line l = l"

fun zero_var :: "sema_line \<Rightarrow> bool" where
  "zero_var (Var_value k x) = (x = 0)"
| "zero_var _ = True"

definition sema_script :: "nat \<Rightarrow> sema_line list" where
  "sema_script p =
     (if p = 1 then [Banner, Created, Getval_init 0, Getval_before 0, Getval_after 0, Var_value 0 0, Var_value 1 0, Var_value 2 0]
      else [Banner, Created, Var_value 0 0, Var_value 1 0, Var_value 2 0, Deattached])"

fun lines_at :: "nat \<Rightarrow> sema_stage \<Rightarrow> nat" where
  "lines_at p At_banner = 0" | "lines_at p At_shm = 1" | "lines_at p At_shmat = 1" | "lines_at p At_created = 1"
| "lines_at p At_semget = 2" | "lines_at p At_setval = 2" | "lines_at p At_getval_init = 2" | "lines_at p At_semop = 3"
| "lines_at p At_getval_before = 3" | "lines_at p In_section = (if p = 1 then 4 else 2)" | "lines_at p At_getval_after = 4"
| "lines_at p (At_print k) = (if p = 1 then 5 + k else 2 + k)" | "lines_at p At_detach = 5" | "lines_at p At_detached = 5"
| "lines_at p _ = (if p = 1 then 8 else 6)"

fun failed :: "sema_stage \<Rightarrow> bool" where
  "failed (At_error e) = True" | "failed (At_exit att success) = (\<not> success)" | "failed Gone_failed = True"
| "failed _ = False"

fun print_ok :: "sema_stage \<Rightarrow> bool" where
  "print_ok (At_print k) = (k < 3)"
| "print_ok _ = True"

definition sema_pc :: "nat \<Rightarrow> sema_sys \<Rightarrow> sema_stage" where
  "sema_pc p s = (if p = 1 then pc1 s else pc2 s)"

definition sema_printed :: "nat \<Rightarrow> sema_sys \<Rightarrow> sema_line list" where
  "sema_printed p s = map snd (filter (\<lambda>x. fst x = p) (sp_out s))"

definition sections_over :: "sema_sys \<Rightarrow> bool" where
  "sections_over s \<longleftrightarrow> list_all (\<lambda>t. snd t = []) (sp_threads s)"

definition script_kept :: "nat \<Rightarrow> sema_sys \<Rightarrow> bool" where
  "script_kept p s \<longleftrightarrow> print_ok (sema_pc p s) \<and>
     (\<not> failed (sema_pc p s) \<longrightarrow> map blank_line (sema_printed p s) = take (lines_at p (sema_pc p s)) (sema_script p))"

definition sema_lines :: "sema_sys \<Rightarrow> bool" where
  "sema_lines s \<longleftrightarrow> script_kept 1 s \<and> script_kept 2 s
     \<and> (sections_over s \<longrightarrow> (\<exists>p\<in>{1, 2}. list_all zero_var (sema_printed p s)))"

lemma printed_same: "sp_out t = sp_out s \<Longrightarrow> sema_printed p t = sema_printed p s"
  by (simp add: sema_printed_def)

lemma printed_snoc: "sp_out t = sp_out s @ [(q, x)] \<Longrightarrow> sema_printed p t = sema_printed p s @ (if p = q then [x] else [])"
  by (simp add: sema_printed_def)

lemma lines_kept:
  assumes "sema_lines s" "sp_out t = sp_out s" "sections_over t \<longrightarrow> sections_over s"
    and "\<forall>p\<in>{1, 2}. print_ok (sema_pc p t) \<and> (\<not> failed (sema_pc p t) \<longrightarrow>
           \<not> failed (sema_pc p s) \<and> lines_at p (sema_pc p t) = lines_at p (sema_pc p s))"
  shows "sema_lines t"
  using assms by (simp add: sema_lines_def script_kept_def printed_same [of t s])

lemma lines_said:
  assumes l: "sema_lines s" and out: "sp_out t = sp_out s @ [(p, x)]" "p = 1 \<or> p = 2" "sections_over t = sections_over s"
    and other: "sema_pc (3 - p) t = sema_pc (3 - p) s" and ok: "print_ok (sema_pc p t)"
    and x: "\<not> failed (sema_pc p t) \<longrightarrow> \<not> failed (sema_pc p s) \<and> lines_at p (sema_pc p s) < length (sema_script p)
      \<and> lines_at p (sema_pc p t) = Suc (lines_at p (sema_pc p s)) \<and> blank_line x = sema_script p ! lines_at p (sema_pc p s)"
    and z: "sections_over s \<longrightarrow> zero_var x"
  shows "sema_lines t"
proof -
  have "script_kept p t"
    using l out(2) ok x by (auto simp: sema_lines_def script_kept_def printed_snoc [OF out(1)] take_Suc_conv_app_nth)
  moreover have "script_kept (3 - p) t"
    using l out(2) other by (auto simp: sema_lines_def script_kept_def printed_snoc [OF out(1)])
  ultimately have "script_kept 1 t \<and> script_kept 2 t" using out(2) by auto
  then show ?thesis using l z out(3) by (auto simp: sema_lines_def printed_snoc [OF out(1)])
qed

lemma no_var_lines:
  assumes "script_kept p s" "\<not> failed (sema_pc p s)" "\<not> over (sema_pc p s)" "p = 1 \<or> \<not> only1 (sema_pc p s)"
  shows "list_all zero_var (sema_printed p s)"
proof -
  have "lines_at p (sema_pc p s) \<le> (if p = 1 then 4 else 2)"
    using assms(2-4) by (cases "sema_pc p s") auto
  then have "set (take (lines_at p (sema_pc p s)) (sema_script p)) \<subseteq> set (take (if p = 1 then 4 else 2) (sema_script p))"
    by (rule set_take_subset_set_take)
  then have "blank_line ` set (sema_printed p s) \<subseteq> set (take (if p = 1 then 4 else 2) (sema_script p))"
    using assms(1,2) by (metis script_kept_def set_map)
  moreover have "zero_var x" if "blank_line x \<in> set (take (if p = 1 then 4 else 2) (sema_script p))" for x
    using that by (cases x) (auto simp: sema_script_def split: if_splits)
  ultimately show ?thesis by (auto simp: list_all_iff)
qed

lemma lines_section:
  assumes inv: "sema_inv s" and l: "sema_lines s" and t: "sema_step (Section i) s = Some t"
  shows "sema_lines t"
proof -
  from t obtain u where u: "sema_counting s" "section_step i s = Some u"
    "t = (if i = 0 \<and> pc1 s = At_semop then u\<lparr>pc1 := At_getval_before\<rparr> else u)"
    "i = 0 \<and> pc1 s = At_semop \<or> (if i = 0 then pc1 s else pc2 s) = In_section"
    by (rule section_moves [OF inv]) blast
  note p = section_step_parts [OF u(2)]
  have out: "sp_out t = sp_out s" using u(3) p(4) by simp
  have i: "i < 2" using u(1) p(7) by (simp add: sema_counting_def)
  have "list_all zero_var (sema_printed (if i = 0 then 1 else 2) s)"
    using l u(4) i by (intro no_var_lines) (auto simp: sema_lines_def sema_pc_def split: if_splits)
  then have "\<exists>p\<in>{1, 2}. list_all zero_var (sema_printed p s)" by (cases "i = 0") auto
  moreover have "script_kept p t" if "p = 1 \<or> p = 2" for p
  proof -
    have "print_ok (sema_pc p t) = print_ok (sema_pc p s) \<and> failed (sema_pc p t) = failed (sema_pc p s)
        \<and> lines_at p (sema_pc p t) = lines_at p (sema_pc p s)"
      using u(3) p(1,2) by (auto simp: sema_pc_def split: if_splits)
    then show ?thesis using l that by (auto simp: sema_lines_def script_kept_def printed_same [OF out])
  qed
  ultimately show ?thesis by (simp add: sema_lines_def printed_same [OF out])
qed

lemma vals_zero: "sema_inv s \<Longrightarrow> sections_over s \<longrightarrow> sp_vals s = (\<lambda>_. 0)"
  using counting_final(1) [of s] by (auto simp: sema_inv_def sema_waiting_def sections_over_def split: if_splits)

lemma proc1_says:
  assumes t: "sema_proc1 ok s (pc1 s) = Some t" and x: "sp_out t = sp_out s @ [(1, x)]"
    and ok: "print_ok (pc1 s)" and z: "sections_over s \<longrightarrow> sp_vals s = (\<lambda>_. 0)"
  shows "pc2 t = pc2 s \<and> sp_threads t = sp_threads s \<and> print_ok (pc1 t) \<and> (sections_over s \<longrightarrow> zero_var x)
    \<and> (\<not> failed (pc1 t) \<longrightarrow> \<not> failed (pc1 s) \<and> lines_at 1 (pc1 s) < length (sema_script 1)
         \<and> lines_at 1 (pc1 t) = Suc (lines_at 1 (pc1 s)) \<and> blank_line x = sema_script 1 ! lines_at 1 (pc1 s))"
proof (cases "pc1 s")
  case (At_print k)
  with ok have "k = 0 \<or> k = 1 \<or> k = 2" by auto
  then show ?thesis using t x z At_print by (elim disjE) (auto simp: sema_script_def)
qed (use t x in \<open>auto simp: sema_script_def split: if_splits\<close>)

lemma proc2_says:
  assumes t: "sema_proc2 ok s (pc2 s) = Some t" and x: "sp_out t = sp_out s @ [(2, x)]"
    and ok: "print_ok (pc2 s)" and z: "sections_over s \<longrightarrow> sp_vals s = (\<lambda>_. 0)"
  shows "pc1 t = pc1 s \<and> sp_threads t = sp_threads s \<and> print_ok (pc2 t) \<and> (sections_over s \<longrightarrow> zero_var x)
    \<and> (\<not> failed (pc2 t) \<longrightarrow> \<not> failed (pc2 s) \<and> lines_at 2 (pc2 s) < length (sema_script 2)
         \<and> lines_at 2 (pc2 t) = Suc (lines_at 2 (pc2 s)) \<and> blank_line x = sema_script 2 ! lines_at 2 (pc2 s))"
proof (cases "pc2 s")
  case (At_print k)
  with ok have "k = 0 \<or> k = 1 \<or> k = 2" by auto
  then show ?thesis using t x z At_print by (elim disjE) (auto simp: sema_script_def)
qed (use t x in \<open>auto simp: sema_script_def split: if_splits\<close>)

lemma sema_lines_step:
  assumes inv: "sema_inv s" and l: "sema_lines s" and t: "sema_step m s = Some t"
  shows "sema_lines t"
proof -
  have pok: "print_ok (pc1 s)" "print_ok (pc2 s)" using l by (simp_all add: sema_lines_def script_kept_def sema_pc_def)
  show ?thesis
  proof (cases m)
    case (Section i)
    with lines_section [OF inv l] t show ?thesis by blast
  next
    case (Proc1 ok)
    show ?thesis
    proof (cases "\<exists>x. sp_out t = sp_out s @ [(1, x)]")
      case True
      then obtain x where x: "sp_out t = sp_out s @ [(1, x)]" ..
      have "sema_proc1 ok s (pc1 s) = Some t" using t Proc1 by simp
      from proc1_says [OF this x pok(1) vals_zero [OF inv]] show ?thesis
        by (intro lines_said [OF l x]) (simp_all add: sema_pc_def sections_over_def)
    next
      case False
      with t Proc1 pok show ?thesis
        by (cases "pc1 s") (auto intro!: lines_kept [OF l] simp: sema_pc_def sections_over_def split: if_splits)
    qed
  next
    case (Proc2 ok)
    show ?thesis
    proof (cases "\<exists>x. sp_out t = sp_out s @ [(2, x)]")
      case True
      then obtain x where x: "sp_out t = sp_out s @ [(2, x)]" ..
      have "sema_proc2 ok s (pc2 s) = Some t" using t Proc2 by simp
      from proc2_says [OF this x pok(2) vals_zero [OF inv]] show ?thesis
        by (intro lines_said [OF l x]) (simp_all add: sema_pc_def sections_over_def)
    next
      case False
      with t Proc2 pok show ?thesis
        by (cases "pc2 s") (auto intro!: lines_kept [OF l] simp: sema_pc_def sections_over_def split: if_splits)
    qed
  qed
qed

section \<open>Progress\<close>

fun sema_stage_left :: "sema_stage \<Rightarrow> nat" where
  "sema_stage_left At_banner = 20" | "sema_stage_left At_shm = 19" | "sema_stage_left At_shmat = 18"
| "sema_stage_left At_created = 17" | "sema_stage_left At_semget = 16" | "sema_stage_left At_setval = 15"
| "sema_stage_left At_getval_init = 14" | "sema_stage_left At_semop = 13" | "sema_stage_left At_getval_before = 12"
| "sema_stage_left In_section = 11" | "sema_stage_left At_getval_after = 10" | "sema_stage_left (At_print k) = 7 + (2 - k)"
| "sema_stage_left At_detach = 6" | "sema_stage_left At_detached = 5" | "sema_stage_left (At_error e) = 4"
| "sema_stage_left (At_exit att success) = 3" | "sema_stage_left _ = 0"

definition sema_left :: "sema_sys \<Rightarrow> nat" where
  "sema_left s = sema_stage_left (pc1 s) + sema_stage_left (pc2 s) + sum_list (map (\<lambda>t. length (snd t)) (sp_threads s))"

lemma sema_left_step:
  assumes t: "sema_step m s = Some t"
  shows "sema_left t < sema_left s"
proof (cases m)
  case (Section i)
  with t obtain u where u: "section_step i s = Some u" "t = u \<or> pc1 s = At_semop \<and> t = u\<lparr>pc1 := At_getval_before\<rparr>"
    by (auto split: if_splits)
  from section_step_parts(1,2,10) [OF u(1)] u(2) show ?thesis
    by (auto simp: sema_left_def steps_left_def sema_machine_def)
next
  case (Proc1 ok)
  with t show ?thesis by (cases "pc1 s") (auto simp: sema_left_def split: if_splits)
next
  case (Proc2 ok)
  with t show ?thesis by (cases "pc2 s") (auto simp: sema_left_def split: if_splits)
qed

lemma sema_left_fresh: "sema_left sema_fresh = 1175444"
  by (simp add: sema_left_def sema_fresh_def sema_proc1_section_def sema_proc2_section_def for_loop_replicate
      length_concat map_replicate sum_list_replicate)

definition all_well :: "sema_sys \<Rightarrow> bool" where
  "all_well s \<longleftrightarrow> \<not> failed (pc1 s) \<and> \<not> failed (pc2 s)"

lemma all_well_step:
  assumes "all_well s" "succeeds m" "sema_step m s = Some t"
  shows "all_well t"
proof (cases m)
  case (Section i)
  with assms obtain u where "section_step i s = Some u" "t = u \<or> t = u\<lparr>pc1 := At_getval_before\<rparr>" by (auto split: if_splits)
  with assms(1) section_step_parts(1,2) [of i s u] show ?thesis by (auto simp: all_well_def)
next
  case (Proc1 ok)
  with assms show ?thesis by (cases "pc1 s") (auto simp: all_well_def split: if_splits)
next
  case (Proc2 ok)
  with assms show ?thesis by (cases "pc2 s") (auto simp: all_well_def split: if_splits)
qed

definition both_gone :: "sema_sys \<Rightarrow> bool" where
  "both_gone s \<longleftrightarrow> pc1 s = Gone_ok \<and> pc2 s = Gone_ok"

lemma section_enabled:
  assumes c: "sema_counting s" and at: "pc1 s \<in> {At_semop, In_section, Gone_ok}" "pc2 s \<in> {In_section, Gone_ok}"
    and left: "\<not> sections_over s"
  shows "\<exists>i t. sema_step (Section i) s = Some t"
proof -
  from c obtain l where l: "sp_set s = Some l" "sysv.protected (\<lambda>_. 0) (sema_machine l s)"
    by (auto simp: sema_counting_def)
  have "\<not> finished (sema_machine l s)" using left by (simp add: sections_over_def finished_def sema_machine_def)
  with sysv.protected_progress [OF l(2), of True] obtain i d where
    d: "shared_step (sem_down True) (sem_up True) i (sema_machine l s) = Some d"
    unfolding stuck_def by auto
  then obtain t where t: "section_step i s = Some t" using l(1) by (simp add: section_step_def)
  note p = section_step_parts(6,7) [OF t]
  have "i < 2" using c p(2) by (simp add: sema_counting_def)
  then have "i = 0 \<or> i = 1" by linarith
  then have "\<exists>t. sema_step (Section i) s = Some t"
    using c at p(1) t by (auto simp: sema_counting_def)
  then show ?thesis by blast
qed

lemma sema_progress:
  assumes inv: "sema_inv s" and well: "all_well s" and open_: "\<not> both_gone s"
  shows "\<exists>m t. succeeds m \<and> sema_step m s = Some t"
proof -
  let ?go = "\<exists>m t. succeeds m \<and> sema_step m s = Some t"
  have one: ?go if "sema_proc1 True s (pc1 s) \<noteq> None"
    using that by (intro exI [of _ "Proc1 True"]) auto
  have two: ?go if "sema_proc2 True s (pc2 s) \<noteq> None"
    using that by (intro exI [of _ "Proc2 True"]) auto
  show ?thesis
  proof (cases "set_done s")
    case False
    with inv well have "sema_proc1 True s (pc1 s) \<noteq> None"
      by (cases "pc1 s") (auto simp: sema_inv_def set_done_def sema_waiting_def all_well_def)
    then show ?thesis by (rule one)
  next
    case True
    then have c: "sema_counting s" using inv by (simp add: sema_inv_def)
    show ?thesis
    proof (cases "pc1 s \<in> {At_semop, In_section, Gone_ok} \<and> pc2 s \<in> {In_section, Gone_ok}")
      case False
      have "sema_proc1 True s (pc1 s) \<noteq> None" if "pc1 s \<notin> {At_semop, In_section, Gone_ok}"
        using that True by (cases "pc1 s") (auto simp: set_done_def)
      moreover have "sema_proc2 True s (pc2 s) \<noteq> None" if "pc2 s \<notin> {In_section, Gone_ok}"
        using that c well by (cases "pc2 s") (auto simp: sema_counting_def all_well_def)
      ultimately show ?thesis using False one two by blast
    next
      case at: True
      show ?thesis
      proof (cases "sections_over s")
        case False
        with section_enabled [OF c] at obtain i t where "sema_step (Section i) s = Some t" by blast
        then show ?thesis by (intro exI [of _ "Section i"]) auto
      next
        case True
        with c have e: "snd (sp_threads s ! 0) = []" "snd (sp_threads s ! 1) = []"
          by (simp_all add: sections_over_def sema_counting_def list_all_length)
        have "pc1 s \<noteq> At_semop"
          using c e(1) fresh_sections(2) by (auto simp: sema_counting_def)
        with at e open_ one two show ?thesis by (cases "pc1 s = In_section") (auto simp: both_gone_def)
      qed
    qed
  qed
qed

section \<open>The two programs together\<close>

definition sema_good :: "sema_sys \<Rightarrow> bool" where
  "sema_good s \<longleftrightarrow> sema_inv s \<and> sema_seg s \<and> sema_lines s"

lemma sema_good_fresh: "sema_good sema_fresh" "all_well sema_fresh"
  using sema_inv_fresh
  by (simp_all add: sema_good_def sema_seg_def sema_lines_def script_kept_def sema_pc_def all_well_def)
    (simp_all add: sema_fresh_def sema_printed_def)

lemma sema_good_step: "sema_good s \<Longrightarrow> sema_step m s = Some t \<Longrightarrow> sema_good t"
  using sema_inv_step sema_seg_step sema_lines_step by (auto simp: sema_good_def)

lemma good_before:
  assumes "sema_good s"
  shows "\<not> set_done s \<longrightarrow> list_all (\<lambda>x. start_line (snd x)) (sp_out s)" "before_zero s"
  using assms start_before_zero [of s]
  by (auto simp: sema_good_def sema_inv_def sema_waiting_def sema_counting_def split: if_splits)

lemma good_end:
  assumes good: "sema_good s" and gone: "both_gone s"
  shows "sp_vals s = (\<lambda>_. 0)" "\<exists>l. sp_set s = Some l \<and> semval l = 1"
    "\<exists>g. sp_shm s = Some g \<and> nattch g = 0 \<and> \<not> seg_removed g"
    "map blank_line (sema_printed 1 s) = sema_script 1" "map blank_line (sema_printed 2 s) = sema_script 2"
    "\<exists>p\<in>{1, 2}. list_all zero_var (sema_printed p s)"
proof -
  have c: "sema_counting s" using good gone by (simp add: sema_good_def sema_inv_def set_done_def both_gone_def)
  with gone have over: "sections_over s"
    by (auto simp: sema_counting_def both_gone_def sections_over_def list_all_length less_2_cases_iff)
  show "sp_vals s = (\<lambda>_. 0)" "\<exists>l. sp_set s = Some l \<and> semval l = 1"
    using counting_final [OF c] over by (simp_all add: sections_over_def)
  show "\<exists>g. sp_shm s = Some g \<and> nattch g = 0 \<and> \<not> seg_removed g"
    using good gone by (auto simp: sema_good_def sema_seg_def both_gone_def split: option.splits)
  show "map blank_line (sema_printed 1 s) = sema_script 1" "map blank_line (sema_printed 2 s) = sema_script 2"
    "\<exists>p\<in>{1, 2}. list_all zero_var (sema_printed p s)"
    using good gone over
    by (auto simp: sema_good_def sema_lines_def script_kept_def sema_pc_def both_gone_def sema_script_def)
qed

text \<open>
  C26. The two semaphore programs work together in whatever order they are started on a fresh system.
  Every run has at most 1175444 steps.  Before process 1 has set the semaphore, both programs print
  their start-up and error lines only: nothing of the semaphore or of the variables.  Process 1 always reads
  the value 0 from the semaphore it has just taken.  If no system call fails, somebody can move until both
  programs have returned; then both have printed all their lines in the order of their code, at least one of
  them three zeros as the values of the variables, the variables are back at 0, the semaphore is free, and the
  segment is left behind with nobody attached to it.
\<close>

theorem sema_programs_fresh:
  assumes "sema_run ms sema_fresh = Some s"
  shows "length ms \<le> 1175444
    \<and> (\<not> set_done s \<longrightarrow> list_all (\<lambda>x. start_line (snd x)) (sp_out s))
    \<and> (\<forall>p x. (p, Getval_before x) \<in> set (sp_out s) \<longrightarrow> x = 0)
    \<and> (list_all succeeds ms \<longrightarrow>
        (if pc1 s = Gone_ok \<and> pc2 s = Gone_ok
         then sp_vals s = (\<lambda>_. 0) \<and> (\<exists>l. sp_set s = Some l \<and> semval l = 1)
           \<and> map blank_line (sema_printed 1 s) = sema_script 1 \<and> map blank_line (sema_printed 2 s) = sema_script 2
           \<and> (\<exists>p\<in>{1, 2}. list_all zero_var (sema_printed p s))
           \<and> (\<exists>g. sp_shm s = Some g \<and> nattch g = 0 \<and> \<not> seg_removed g)
         else \<exists>m t. succeeds m \<and> sema_step m s = Some t))"
proof -
  have "length ms + sema_left s \<le> sema_left sema_fresh"
    using assms sema_good_fresh(1) by (rule sema.run_bound) (blast intro: sema_good_step sema_left_step)
  moreover have good: "sema_good s" using assms sema_good_fresh(1) by (rule sema.run_inv) (rule sema_good_step)
  moreover have "all_well s" if "list_all succeeds ms"
    using assms sema_good_fresh(2) by (rule sema.run_inv) (use that all_well_step in \<open>auto simp: list_all_iff\<close>)
  ultimately show ?thesis
    using sema_progress [of s] good_end [OF good] good_before [OF good]
    unfolding sema_left_fresh both_gone_def before_zero_def by (simp add: sema_good_def)
qed

theorem sema_programs_fresh_witness:
  "\<exists>ms s. list_all succeeds ms \<and> sema_run ms sema_fresh = Some s \<and> length ms \<le> 1175444
     \<and> pc1 s = Gone_ok \<and> pc2 s = Gone_ok \<and> sp_vals s = (\<lambda>_. 0)"
proof -
  have "\<exists>ms s. list_all succeeds ms \<and> sema_run ms sema_fresh = Some s \<and> (sema_good s \<and> all_well s) \<and> both_gone s"
  proof (rule sema.run_completes [where f = sema_left])
    show "sema_good sema_fresh \<and> all_well sema_fresh" using sema_good_fresh by simp
  next
    fix s :: sema_sys
    assume "sema_good s \<and> all_well s" "\<not> both_gone s"
    then show "\<exists>m t. succeeds m \<and> sema_step m s = Some t" using sema_progress by (simp add: sema_good_def)
  next
    fix m s t
    assume "sema_good s \<and> all_well s" "succeeds m" "sema_step m s = Some t"
    then show "(sema_good t \<and> all_well t) \<and> sema_left t < sema_left s"
      using sema_good_step all_well_step sema_left_step by blast
  qed
  then obtain ms s where "list_all succeeds ms" "sema_run ms sema_fresh = Some s" "both_gone s" by blast
  with sema_programs_fresh [OF this(2)] show ?thesis by (auto simp: both_gone_def)
qed

end
