(* ===== verification/Sem_Ring.thy ===== *)
theory Sem_Ring
  imports Lock_Programs
begin

text \<open>
  The three threads of \<^verbatim>\<open>linux_task/thread_synchronization_using-semaphore/main.c\<close>, which pass the turn
  around with three semaphores.  A thread is the list of its remaining semaphore operations and
  prints; \<open>ring_step\<close> runs the next one of a thread, or waits.  The proof follows the turn: \<open>ring_at\<close>
  says whose turn it is, in which round, and how far that thread has come.
\<close>

section \<open>The program\<close>

datatype ring_instr = Sem_wait nat | Sem_post nat | Print string

record ring =
  semas :: "nat list"                \<comment> \<open>values of \<^verbatim>\<open>sema1\<close>, \<^verbatim>\<open>sema2\<close>, \<^verbatim>\<open>sema3\<close>\<close>
  codes :: "ring_instr list list"    \<comment> \<open>what \<^verbatim>\<open>t1\<close>, \<^verbatim>\<open>t2\<close>, \<^verbatim>\<open>t3\<close> have still to do\<close>
  printed :: "string list"

definition t1 :: "ring_instr list" where
  "t1 = for_loop 10 [Sem_wait 0, Print ''Thread 1 \<newline>'', Sem_post 1] @ [Print ''T1 return\<newline>'']"

definition t2 :: "ring_instr list" where
  "t2 = for_loop 10 [Sem_wait 1, Print ''Thread 2 \<newline>'', Sem_post 2] @ [Print ''T2 return\<newline>'']"

definition t3 :: "ring_instr list" where
  "t3 = for_loop 10 [Sem_wait 2, Print ''Thread 3 \<newline>'', Sem_post 0] @ [Print ''T3 return \<newline>'']"

definition ring_main :: ring where
  "ring_main = \<lparr>semas = [1, 0, 0], codes = [t1, t2, t3], printed = []\<rparr>"

fun ring_step :: "nat \<Rightarrow> ring \<Rightarrow> ring option" where
  "ring_step i s =
     (if i \<ge> length (codes s) then None
      else case codes s ! i of
        [] \<Rightarrow> None
      | Sem_wait k # c \<Rightarrow>
          (if semas s ! k = 0 then None
           else Some (s\<lparr>semas := (semas s)[k := semas s ! k - 1], codes := (codes s)[i := c]\<rparr>))
      | Sem_post k # c \<Rightarrow> Some (s\<lparr>semas := (semas s)[k := semas s ! k + 1], codes := (codes s)[i := c]\<rparr>)
      | Print l # c \<Rightarrow> Some (s\<lparr>printed := printed s @ [l], codes := (codes s)[i := c]\<rparr>))"

declare ring_step.simps [simp del]

fun ring_run :: "nat list \<Rightarrow> ring \<Rightarrow> ring option" where
  "ring_run [] s = Some s"
| "ring_run (i # is) s = (case ring_step i s of None \<Rightarrow> None | Some t \<Rightarrow> ring_run is t)"

interpretation ring: machine ring_step ring_run
  by unfold_locales simp_all

section \<open>The turn\<close>

definition line :: "nat \<Rightarrow> string" where
  "line i = [''Thread 1 \<newline>'', ''Thread 2 \<newline>'', ''Thread 3 \<newline>''] ! i"

definition round_code :: "nat \<Rightarrow> ring_instr list" where
  "round_code i = [Sem_wait i, Print (line i), Sem_post ((i + 1) mod 3)]"

definition bye :: "nat \<Rightarrow> string" where
  "bye i = [''T1 return\<newline>'', ''T2 return\<newline>'', ''T3 return \<newline>''] ! i"

definition rest :: "nat \<Rightarrow> nat \<Rightarrow> ring_instr list" where
  "rest i k = concat (replicate k (round_code i)) @ [Print (bye i)]"

definition turns :: "string list \<Rightarrow> string list" where
  "turns ls = filter (\<lambda>l. l \<in> {''Thread 1 \<newline>'', ''Thread 2 \<newline>'', ''Thread 3 \<newline>''}) ls"

text \<open>
  Thread \<open>i\<close> is in its turn of round \<open>r\<close> after \<open>st\<close> of its three steps (\<open>n\<close> rounds in all); a thread
  that has only its farewell left may have printed it.
\<close>

definition code_ok :: "nat \<Rightarrow> nat \<Rightarrow> nat \<Rightarrow> nat \<Rightarrow> nat \<Rightarrow> ring_instr list \<Rightarrow> bool" where
  "code_ok n r i st j c \<longleftrightarrow>
     (let full = (if j = i \<and> r < n then drop st (round_code j) @ rest j (n - r - 1)
                  else rest j (n - (if j < i then r + 1 else r)))
      in c = full \<or> full = [Print (bye j)] \<and> c = [])"

definition ring_at :: "nat \<Rightarrow> nat \<Rightarrow> nat \<Rightarrow> nat \<Rightarrow> ring \<Rightarrow> bool" where
  "ring_at n r i st s \<longleftrightarrow> r \<le> n \<and> i < 3 \<and> st < 3 \<and> (r = n \<longrightarrow> i = 0 \<and> st = 0)
     \<and> semas s = (if st = 0 then [0, 0, 0][i := 1] else [0, 0, 0])
     \<and> length (codes s) = 3 \<and> (\<forall>j < 3. code_ok n r i st j (codes s ! j))
     \<and> turns (printed s) = concat (replicate r [line 0, line 1, line 2])
         @ take (i + (if st = 2 then 1 else 0)) [line 0, line 1, line 2]"

lemma less_3: "(i :: nat) < 3 \<longleftrightarrow> i = 0 \<or> i = 1 \<or> i = 2"
  by auto

lemma rest_Suc: "rest j (Suc k) = round_code j @ rest j k"
  by (simp add: rest_def)

lemma rest_0: "rest j 0 = [Print (bye j)]"
  by (simp add: rest_def)

lemma rest_hd: "rest j k = [Print (bye j)] \<and> k = 0 \<or> (\<exists>m c. k = Suc m \<and> rest j k = Sem_wait j # c)"
  by (cases k) (simp_all add: rest_0 rest_Suc round_code_def)

lemma bye_not_turn: "j < 3 \<Longrightarrow> turns (xs @ [bye j]) = turns xs"
  by (auto simp: less_3 turns_def bye_def)

lemma line_turn: "j < 3 \<Longrightarrow> turns (xs @ [line j]) = turns xs @ [line j]"
  by (auto simp: less_3 turns_def line_def)

lemma sem_nth:
  "i < 3 \<Longrightarrow> j < 3 \<Longrightarrow>
     (if st = 0 then [0, 0, 0][i := 1] else [0, 0, 0 :: nat]) ! j = (if st = 0 \<and> j = i then 1 else 0)"
  by (auto simp: nth_list_update nth_Cons' less_3)

text \<open>A thread whose turn it is not can only print its farewell.\<close>

lemma other_step:
  assumes "ring_at n r i st s" "j < 3" "j \<noteq> i \<or> r = n" "ring_step j s = Some t"
  shows "ring_at n r i st t"
proof -
  define k where "k = n - (if j < i then r + 1 else r)"
  have c: "codes s ! j = rest j k \<or> k = 0 \<and> codes s ! j = []"
    using assms(1-3) rest_hd [of j k] by (auto simp: ring_at_def code_ok_def Let_def k_def)
  have sem: "semas s ! j = 0" if "j \<noteq> i"
  proof -
    have "i < 3" "semas s = (if st = 0 then [0, 0, 0][i := 1] else [0, 0, 0])"
      using assms(1) by (simp_all add: ring_at_def)
    with sem_nth [of i j st] assms(2) that show ?thesis by simp
  qed
  have "codes s ! j = [Print (bye j)] \<and> k = 0"
  proof (cases k)
    case 0
    with c assms(4) show ?thesis by (auto simp: ring_step.simps rest_0 split: if_splits)
  next
    case (Suc m)
    with c have hd: "codes s ! j = Sem_wait j # [Print (line j), Sem_post ((j + 1) mod 3)] @ rest j m"
      by (simp add: rest_Suc round_code_def)
    have "j \<noteq> i" using assms(1,3) Suc by (auto simp: k_def ring_at_def)
    with hd sem assms(4) show ?thesis by (simp add: ring_step.simps split: if_splits)
  qed
  then have t: "t = s\<lparr>printed := printed s @ [bye j], codes := (codes s)[j := []]\<rparr>" and k0: "k = 0"
    and "codes s ! j = [Print (bye j)]"
    using assms(4) by (auto simp: ring_step.simps split: if_splits)
  have "code_ok n r i st j []"
    using assms(3) k0 by (auto simp: code_ok_def Let_def k_def rest_0)
  then show ?thesis
    using assms(1,2) by (auto simp: ring_at_def t bye_not_turn nth_list_update)
qed

text \<open>The thread whose turn it is takes the semaphore, prints and passes the turn on.\<close>

lemma rest_eq_bye: "rest j k = [Print (bye j)] \<longleftrightarrow> k = 0"
  using rest_hd [of j k] by (auto simp: rest_0)

lemma code_ok_idle:
  assumes "j \<noteq> i \<or> st = 0" "r \<le> n"
  shows "code_ok n r i st j c \<longleftrightarrow>
    c = rest j (n - (if j < i then r + 1 else r)) \<or> n - (if j < i then r + 1 else r) = 0 \<and> c = []"
proof (cases "j = i \<and> r < n")
  case True
  then have "rest j (n - r) = round_code j @ rest j (n - r - 1)"
    using rest_Suc [of j "n - r - 1"] by (simp add: Suc_diff_Suc)
  with True assms(1) rest_eq_bye [of j "n - r"] show ?thesis by (simp add: code_ok_def Let_def)
next
  case False
  then show ?thesis by (auto simp: code_ok_def Let_def rest_eq_bye)
qed

lemma own_code:
  assumes "ring_at n r i st s" "r < n"
  shows "codes s ! i = drop st (round_code i) @ rest i (n - r - 1)"
proof -
  have "code_ok n r i st i (codes s ! i)" "st < 3" using assms(1) by (auto simp: ring_at_def)
  moreover have "drop st (round_code i) @ rest i (n - r - 1) \<noteq> [Print (bye i)]" if "st < 3"
    using that by (auto simp: round_code_def rest_def append_eq_Cons_conv)
  ultimately show ?thesis using assms(2) by (auto simp: code_ok_def Let_def)
qed

lemma own_step_codes:
  assumes "ring_at n r i st s" "r < n" "ring_step i s = Some t"
  shows "codes t = (codes s)[i := drop (Suc st) (round_code i) @ rest i (n - r - 1)]
    \<and> semas t = (if st = 0 then [0, 0, 0] else if st = 1 then [0, 0, 0] else [0, 0, 0][(i + 1) mod 3 := 1])
    \<and> printed t = (if st = 1 then printed s @ [line i] else printed s)"
proof -
  have i: "i < length (codes s)" "i < 3" "st < 3" and sem: "semas s = (if st = 0 then [0, 0, 0][i := 1] else [0, 0, 0])"
    using assms(1) by (simp_all add: ring_at_def)
  from i(3) consider "st = 0" | "st = 1" | "st = 2" by linarith
  then show ?thesis
  proof cases
    case 1
    with own_code [OF assms(1,2)] assms(3) i sem show ?thesis
      by (simp add: ring_step.simps round_code_def) (auto simp: less_3)
  next
    case 2
    with own_code [OF assms(1,2)] assms(3) i sem show ?thesis
      by (simp add: ring_step.simps round_code_def) auto
  next
    case 3
    with own_code [OF assms(1,2)] assms(3) i sem show ?thesis
      by (simp add: ring_step.simps round_code_def numeral_2_eq_2) (auto simp: less_3)
  qed
qed

lemma own_step:
  assumes "ring_at n r i st s" "r < n" "ring_step i s = Some t"
  shows "ring_at n r i (Suc st) t \<and> st < 2 \<or> ring_at n r (Suc i) 0 t \<and> st = 2 \<and> i < 2
    \<or> ring_at n (Suc r) 0 0 t \<and> st = 2 \<and> i = 2"
proof -
  note t = own_step_codes [OF assms]
  have s: "i < 3" "st < 3" "length (codes s) = 3" "\<forall>j < 3. code_ok n r i st j (codes s ! j)"
      "turns (printed s) = concat (replicate r [line 0, line 1, line 2])
         @ take (i + (if st = 2 then 1 else 0)) [line 0, line 1, line 2]"
    using assms(1) by (simp_all add: ring_at_def)
  have old: "j < 3 \<Longrightarrow> j \<noteq> i \<Longrightarrow> codes s ! j = rest j (n - (if j < i then r + 1 else r))
      \<or> n - (if j < i then r + 1 else r) = 0 \<and> codes s ! j = []" for j
    using s(4) code_ok_idle [of j i st r n "codes s ! j"] assms(2) by auto
  have nth: "codes t ! j = (if j = i then drop (Suc st) (round_code i) @ rest i (n - r - 1) else codes s ! j)"
    if "j < 3" for j using t s(1,3) that by (auto simp: nth_list_update)
  from s(2) consider "st < 2" | "st = 2" "i < 2" | "st = 2" "i = 2" using s(1) by linarith
  then show ?thesis
  proof cases
    case 1
    have "code_ok n r i (Suc st) j (codes t ! j)" if "j < 3" for j
    proof (cases "j = i")
      case True
      then show ?thesis using nth [OF that] assms(2) by (simp add: code_ok_def Let_def)
    next
      case False
      then show ?thesis using nth [OF that] old [OF that] code_ok_idle [of j i "Suc st" r n] assms(2) by simp
    qed
    moreover have "turns (printed t) = concat (replicate r [line 0, line 1, line 2])
        @ take (i + (if Suc st = 2 then 1 else 0)) [line 0, line 1, line 2]"
      using t s 1 line_turn [of i "printed s"] by (auto simp: less_3)
    ultimately show ?thesis using 1 t s(1-3) assms(2) by (auto simp: ring_at_def)
  next
    case 2
    have "code_ok n r (Suc i) 0 j (codes t ! j)" if "j < 3" for j
      using nth [OF that] old [OF that] code_ok_idle [of j "Suc i" 0 r n] assms(2) 2
      by (auto simp: round_code_def less_Suc_eq)
    moreover have "semas t = [0, 0, 0][Suc i := 1]" using t 2 by simp
    ultimately show ?thesis using 2 t s assms(2) by (auto simp: ring_at_def)
  next
    case 3
    have "code_ok n (Suc r) 0 0 j (codes t ! j)" if "j < 3" for j
      using nth [OF that] old [OF that] code_ok_idle [of j 0 0 "Suc r" n] assms(2) 3 that
      by (auto simp: round_code_def)
    moreover have "turns (printed t) = concat (replicate (Suc r) [line 0, line 1, line 2])"
      using t s(5) 3 by (simp add: replicate_append_same [symmetric])
    ultimately show ?thesis using 3 t s(3) assms(2) by (auto simp: ring_at_def)
  qed
qed

section \<open>Runs\<close>

definition in_turn :: "nat \<Rightarrow> ring \<Rightarrow> bool" where
  "in_turn n s \<longleftrightarrow> (\<exists>r i st. ring_at n r i st s)"

lemma in_turn_step:
  assumes "in_turn n s" "ring_step j s = Some t"
  shows "in_turn n t"
proof -
  from assms(1) obtain r i st where at: "ring_at n r i st s" by (auto simp: in_turn_def)
  then have l: "length (codes s) = 3" "r \<le> n" by (simp_all add: ring_at_def)
  with assms(2) have "j < 3" by (auto simp: ring_step.simps split: if_splits)
  with at assms(2) l own_step [of n r i st s t] other_step [of n r i st s j t] show ?thesis
    by (cases "j = i \<and> r < n") (auto simp: in_turn_def)
qed

lemma in_turn_run: "ring_run ks s = Some t \<Longrightarrow> in_turn n s \<Longrightarrow> in_turn n t"
  by (erule (1) ring.run_inv) (metis in_turn_step)

lemma one_less:
  "i < length xs \<Longrightarrow> xs ! i = x # c \<Longrightarrow>
     Suc (sum_list (map length (xs[i := c]))) = sum_list (map length xs)"
  using sum_list_update [of i xs length c] by simp

lemma ring_step_length:
  assumes "ring_step i s = Some t"
  shows "Suc (sum_list (map length (codes t))) = sum_list (map length (codes s))"
proof -
  have i: "i < length (codes s)" using assms by (simp add: ring_step.simps split: if_splits)
  then obtain x c where c: "codes s ! i = x # c"
    using assms by (cases "codes s ! i") (simp_all add: ring_step.simps)
  then have "codes t = (codes s)[i := c]"
    using assms i by (auto simp: ring_step.simps split: if_splits ring_instr.splits)
  with one_less [OF i c] show ?thesis by simp
qed

lemma ring_run_length:
  "ring_run ks s = Some t \<Longrightarrow> length ks + sum_list (map length (codes t)) = sum_list (map length (codes s))"
  using ring.run_exact [of ks s t "\<lambda>s. sum_list (map length (codes s))"] ring_step_length by simp

lemma own_step_enabled:
  assumes "ring_at n r i st s" "r < n"
  shows "ring_step i s \<noteq> None"
proof -
  have "i < 3" "st < 3" "length (codes s) = 3" "semas s = (if st = 0 then [0, 0, 0][i := 1] else [0, 0, 0])"
    using assms(1) by (simp_all add: ring_at_def)
  moreover from this(2) have "st = 0 \<or> st = 1 \<or> st = 2" by linarith
  moreover from calculation sem_nth [of i i st] have "st = 0 \<Longrightarrow> semas s ! i = 1" by simp
  ultimately show ?thesis using own_code [OF assms]
    by (auto simp: ring_step.simps round_code_def numeral_2_eq_2)
qed

lemma blocked_is_finished:
  assumes "in_turn n s" "\<And>i. ring_step i s = None"
  shows "codes s = [[], [], []] \<and> turns (printed s) = concat (replicate n [line 0, line 1, line 2])"
proof -
  from assms(1) obtain r i st where at: "ring_at n r i st s" by (auto simp: in_turn_def)
  then have "r = n" using own_step_enabled [OF at] assms(2) by (cases "r < n") (auto simp: ring_at_def)
  with at have n: "ring_at n n 0 0 s" by (auto simp: ring_at_def)
  have "codes s ! j = []" if "j < 3" for j
  proof -
    from n that have "length (codes s) = 3" "codes s ! j = [Print (bye j)] \<or> codes s ! j = []"
      using code_ok_idle [of j 0 0 n n "codes s ! j"] rest_0 [of j] by (auto simp: ring_at_def)
    with assms(2) [of j] that show ?thesis by (auto simp: ring_step.simps)
  qed
  then have "codes s ! 0 = []" "codes s ! 1 = []" "codes s ! 2 = []" by simp_all
  moreover from n have "length (codes s) = 3" by (simp add: ring_at_def)
  ultimately have "codes s = [[], [], []]"
    by (auto simp: length_Suc_conv numeral_3_eq_3)
  with n show ?thesis by (simp add: ring_at_def)
qed

lemma rounds_prefix:
  assumes "r < n"
  shows "\<exists>later. (concat (replicate r w) @ take m w) @ later = concat (replicate n w)"
proof -
  from assms obtain k where n: "n = r + Suc k" using less_imp_Suc_add by fastforce
  have "take m w @ drop m w @ z = w @ z" for z
    by (simp only: append.assoc [symmetric] append_take_drop_id)
  then have "(concat (replicate r w) @ take m w) @ drop m w @ concat (replicate k w) = concat (replicate n w)"
    unfolding n replicate_add by simp
  then show ?thesis ..
qed

lemma in_turn_printed:
  assumes "in_turn n s"
  shows "\<exists>later. turns (printed s) @ later = concat (replicate n [line 0, line 1, line 2])"
proof -
  from assms obtain r i and st :: nat where at: "r \<le> n" "r = n \<longrightarrow> i = 0 \<and> st = 0" and
    p: "turns (printed s) = concat (replicate r [line 0, line 1, line 2])
      @ take (i + (if st = 2 then 1 else 0)) [line 0, line 1, line 2]"
    unfolding in_turn_def ring_at_def by blast
  show ?thesis
  proof (cases "r = n")
    case True
    with at p show ?thesis by simp
  next
    case False
    with at(1) have "r < n" by simp
    then show ?thesis unfolding p by (rule rounds_prefix)
  qed
qed

lemma ring_main_in_turn: "in_turn 10 ring_main"
proof -
  have "codes ring_main = [rest 0 10, rest 1 10, rest 2 10]"
    by (simp add: ring_main_def t1_def t2_def t3_def for_loop_replicate rest_def round_code_def line_def bye_def)
      (simp add: numeral_2_eq_2)
  then have "ring_at 10 0 0 0 ring_main"
    by (auto simp: ring_at_def code_ok_idle less_3) (simp_all add: ring_main_def turns_def)
  then show ?thesis by (auto simp: in_turn_def)
qed

lemma ring_main_length: "sum_list (map length (codes ring_main)) = 93"
  by (simp add: ring_main_def t1_def t2_def t3_def for_loop_replicate length_concat sum_list_replicate)

text \<open>
  C29. The semaphore ring prints its turns in order.  In every interleaving the turn lines printed
  so far are a prefix of ten rounds of thread 1, thread 2, thread 3; when no thread can move any
  more, all three have returned and all thirty lines are out; and that happens after exactly
  93 steps, since a run of \<open>k\<close> steps leaves \<open>93 - k\<close> to do.
\<close>

theorem sem_ring_output:
  fixes ks :: "nat list"
  assumes "ring_run ks ring_main = Some s"
  defines "all \<equiv> concat (replicate 10 [''Thread 1 \<newline>'', ''Thread 2 \<newline>'', ''Thread 3 \<newline>''])"
  shows "(\<exists>later. turns (printed s) @ later = all)
    \<and> length ks + sum_list (map length (codes s)) = 93
    \<and> ((\<exists>i. ring_step i s \<noteq> None) \<or> codes s = [[], [], []] \<and> turns (printed s) = all)"
proof -
  have "in_turn 10 s" using in_turn_run [OF assms(1) ring_main_in_turn] .
  moreover have "all = concat (replicate 10 [line 0, line 1, line 2])" by (simp add: all_def line_def)
  ultimately show ?thesis
    using blocked_is_finished in_turn_printed ring_run_length [OF assms(1)] ring_main_length by fastforce
qed

theorem sem_ring_output_witness:
  "\<exists>s. ring_run [0, 0, 0, 1, 1] ring_main = Some s
     \<and> turns (printed s) = [''Thread 1 \<newline>'', ''Thread 2 \<newline>'']
     \<and> length [0, 0, 0, 1, 1 :: nat] + sum_list (map length (codes s)) = 93"
proof -
  obtain s where s: "ring_run [0, 0, 0, 1, 1] ring_main = Some s"
    and "turns (printed s) = [''Thread 1 \<newline>'', ''Thread 2 \<newline>'']"
    by (simp add: ring_main_def t1_def t2_def t3_def for_loop_replicate ring_step.simps turns_def numeral_eq_Suc)
  with sem_ring_output [OF s] show ?thesis by blast
qed

end
