(* ===== verification/Cond_Programs.thy ===== *)
theory Cond_Programs
  imports Machine
begin

text \<open>
  The programs that order their threads with a mutex and condition variables:
  \<^verbatim>\<open>linux_task/two_thread_synchronization/main.c\<close>, whose two threads print odd and even numbers in
  turn, and \<^verbatim>\<open>linux_task/three_thread_synchronization/main.cpp\<close>, whose three threads count a global
  variable in turn.  \<open>Asleep\<close> is what remains of a \<^verbatim>\<open>pthread_cond_wait\<close> whose thread has released
  the mutex.  A wait ends by a signal only; \<open>spurious\<close> is the other ending that POSIX allows.
\<close>

section \<open>The machine\<close>

datatype cv_instr = Lock | Unlock | Signal nat | Wait nat | Asleep
  | Fetch | Bump | Show nat            \<comment> \<open>\<^verbatim>\<open>printf("T<k> ...", global_var++)\<close>\<close>
  | Number nat | Text string

datatype cv_out = Tagged nat nat | Num nat | Txt string

record cv_state =
  mutex_of :: "nat option"
  waiters :: "(nat \<times> nat) list"        \<comment> \<open>condition variable and waiting thread, oldest first\<close>
  cv_codes :: "cv_instr list list"
  cv_regs :: "nat list"
  global_var :: nat
  cv_out :: "cv_out list"

definition advance :: "nat \<Rightarrow> cv_instr list \<Rightarrow> cv_state \<Rightarrow> cv_state" where
  "advance t c s = s\<lparr>cv_codes := (cv_codes s)[t := c]\<rparr>"

definition say :: "cv_out \<Rightarrow> cv_state \<Rightarrow> cv_state" where
  "say x s = s\<lparr>cv_out := cv_out s @ [x]\<rparr>"

fun wake :: "nat \<Rightarrow> (nat \<times> nat) list \<Rightarrow> (nat \<times> nat) list" where
  \<comment> \<open>\<^verbatim>\<open>pthread_cond_signal\<close>: the oldest waiter of the variable, if any, stops waiting\<close>
  "wake v [] = []"
| "wake v ((w, t) # ws) = (if v = w then ws else (w, t) # wake v ws)"

fun cv_exec :: "nat \<Rightarrow> cv_instr \<Rightarrow> cv_instr list \<Rightarrow> cv_state \<Rightarrow> cv_state option" where
  "cv_exec t Lock c s = (if mutex_of s = None then Some (advance t c (s\<lparr>mutex_of := Some t\<rparr>)) else None)"
| "cv_exec t Unlock c s = Some (advance t c (s\<lparr>mutex_of := None\<rparr>))"
| "cv_exec t (Signal v) c s = Some (advance t c (s\<lparr>waiters := wake v (waiters s)\<rparr>))"
| "cv_exec t (Wait v) c s =
     Some (advance t (Asleep # c) (s\<lparr>mutex_of := None, waiters := waiters s @ [(v, t)]\<rparr>))"
| "cv_exec t Asleep c s =
     (if t \<in> snd ` set (waiters s) \<or> mutex_of s \<noteq> None then None
      else Some (advance t c (s\<lparr>mutex_of := Some t\<rparr>)))"
| "cv_exec t Fetch c s = Some (advance t c (s\<lparr>cv_regs := (cv_regs s)[t := global_var s]\<rparr>))"
| "cv_exec t Bump c s = Some (advance t c (s\<lparr>global_var := Suc (cv_regs s ! t)\<rparr>))"
| "cv_exec t (Show k) c s = Some (advance t c (say (Tagged k (cv_regs s ! t)) s))"
| "cv_exec t (Number n) c s = Some (advance t c (say (Num n) s))"
| "cv_exec t (Text x) c s = Some (advance t c (say (Txt x) s))"

definition cv_step :: "nat \<Rightarrow> cv_state \<Rightarrow> cv_state option" where
  \<comment> \<open>the next step of thread \<open>t\<close>; \<open>None\<close>: it has returned or has to wait\<close>
  "cv_step t s =
     (if t \<ge> length (cv_codes s) then None
      else case cv_codes s ! t of [] \<Rightarrow> None | x # c \<Rightarrow> cv_exec t x c s)"

definition spurious :: "nat \<Rightarrow> cv_state \<Rightarrow> cv_state option" where
  "spurious t s =
     (if t \<in> snd ` set (waiters s) then Some (s\<lparr>waiters := filter (\<lambda>w. snd w \<noteq> t) (waiters s)\<rparr>) else None)"

fun cv_run :: "nat list \<Rightarrow> cv_state \<Rightarrow> cv_state option" where
  "cv_run [] s = Some s"
| "cv_run (t # ts) s = (case cv_step t s of None \<Rightarrow> None | Some u \<Rightarrow> cv_run ts u)"

interpretation cv: machine cv_step cv_run
  by unfold_locales simp_all

section \<open>The programs\<close>

fun foo_loop :: "nat \<Rightarrow> nat \<Rightarrow> cv_instr list" where
  \<comment> \<open>\<open>n\<close> rounds of the \<^verbatim>\<open>for\<close> loop with the current value of \<^verbatim>\<open>i\<close>\<close>
  "foo_loop 0 i = []"
| "foo_loop (Suc n) i = [Lock, Number i, Signal 1, Wait 1, Unlock] @ foo_loop n (i + 2)"

definition foo1 :: "cv_instr list" where
  "foo1 = foo_loop 10 1 @ [Signal 1]"

definition foo2 :: "cv_instr list" where
  "foo2 = foo_loop 10 2 @ [Signal 1, Text ''Returning thread'']"

definition cv_start :: "cv_instr list list \<Rightarrow> cv_state" where
  "cv_start codes =
     \<lparr>mutex_of = None, waiters = [], cv_codes = codes, cv_regs = replicate (length codes) 0,
      global_var = 1, cv_out = []\<rparr>"

definition cv_main :: cv_state where
  "cv_main = cv_start [foo1, foo2]"

definition turn_loop :: "nat \<Rightarrow> nat \<Rightarrow> nat \<Rightarrow> nat \<Rightarrow> cv_instr list" where
  "turn_loop n k next own =
     concat (replicate n [Lock, Fetch, Bump, Show k, Signal next, Wait own, Unlock])"

definition thread_t1 :: "cv_instr list" where
  "thread_t1 = turn_loop 10 1 2 1 @ [Signal 1, Signal 2, Signal 3, Text ''T1 return'']"

definition thread_t2 :: "cv_instr list" where
  "thread_t2 = turn_loop 10 2 3 2 @ [Signal 1, Signal 2, Signal 3, Text ''T2 return'']"

definition thread_t3 :: "cv_instr list" where
  "thread_t3 = turn_loop 10 3 1 3 @ [Signal 1, Signal 2, Signal 3, Text ''T3 return '']"

definition three_main :: cv_state where
  "three_main = cv_start [thread_t1, thread_t2, thread_t3]"

section \<open>Every run ends\<close>

fun instr_weight :: "cv_instr \<Rightarrow> nat" where
  "instr_weight (Wait v) = 2"
| "instr_weight _ = 1"

definition work :: "cv_state \<Rightarrow> nat" where
  "work s = sum_list (map (\<lambda>c. sum_list (map instr_weight c)) (cv_codes s))"

lemma step_head:
  assumes "cv_step t s = Some u"
  obtains x c where "t < length (cv_codes s)" "cv_codes s ! t = x # c" "cv_exec t x c s = Some u"
  using assms by (auto simp: cv_step_def split: if_splits list.splits)

lemma exec_codes:
  "cv_exec t x c s = Some u \<Longrightarrow>
   cv_codes u = (cv_codes s)[t := (case x of Wait _ \<Rightarrow> Asleep # c | _ \<Rightarrow> c)]"
  by (cases x) (auto simp: advance_def say_def split: if_splits)

lemma step_work:
  assumes "cv_step t s = Some u"
  shows "work s = Suc (work u)"
proof -
  from assms obtain x c where h: "t < length (cv_codes s)" "cv_codes s ! t = x # c" "cv_exec t x c s = Some u"
    by (rule step_head)
  from sum_list_update [OF h(1), of "\<lambda>c. sum_list (map instr_weight c)" "case x of Wait _ \<Rightarrow> Asleep # c | _ \<Rightarrow> c"] h(2)
  show ?thesis unfolding work_def exec_codes [OF h(3)] by (cases x) simp_all
qed

lemma run_work: "cv_run ts s = Some u \<Longrightarrow> work s = length ts + work u"
  by (erule cv.run_exact) (rule step_work)

section \<open>The counter is only touched under the mutex\<close>

definition step_phase :: "nat \<Rightarrow> nat \<Rightarrow> nat option \<Rightarrow> nat option" where
  "step_phase p q r = (if r = Some q then Some p else None)"

fun lock_phase :: "cv_instr list \<Rightarrow> nat option" where
  \<comment> \<open>0: outside, 1: inside, 2: \<^verbatim>\<open>global_var\<close> read, 3: \<^verbatim>\<open>global_var\<close> written and not yet printed;
     \<open>None\<close>: not a code that keeps to this order\<close>
  "lock_phase [] = Some 0"
| "lock_phase (Lock # c) = step_phase 0 1 (lock_phase c)"
| "lock_phase (Unlock # c) = step_phase 1 0 (lock_phase c)"
| "lock_phase (Wait v # c) = step_phase 1 1 (lock_phase c)"
| "lock_phase (Asleep # c) = step_phase 0 1 (lock_phase c)"
| "lock_phase (Fetch # c) = step_phase 1 2 (lock_phase c)"
| "lock_phase (Bump # c) = step_phase 2 3 (lock_phase c)"
| "lock_phase (Show k # c) = step_phase 3 1 (lock_phase c)"
| "lock_phase (Signal v # c) = (if lock_phase c \<in> {Some 0, Some 1} then lock_phase c else None)"
| "lock_phase (Number n # c) = (if lock_phase c \<in> {Some 0, Some 1} then lock_phase c else None)"
| "lock_phase (Text x # c) = (if lock_phase c \<in> {Some 0, Some 1} then lock_phase c else None)"

fun counted :: "cv_out list \<Rightarrow> nat list" where
  \<comment> \<open>the values of \<^verbatim>\<open>global_var\<close> among what was printed\<close>
  "counted [] = []"
| "counted (Tagged k n # xs) = n # counted xs"
| "counted (_ # xs) = counted xs"

lemma counted_append [simp]: "counted (xs @ ys) = counted xs @ counted ys"
  by (induction xs rule: counted.induct) auto

definition held :: "nat option \<Rightarrow> nat \<Rightarrow> nat \<Rightarrow> nat list \<Rightarrow> bool" where
  \<comment> \<open>lock_phase and register of the holder, \<^verbatim>\<open>global_var\<close> and what was printed of it\<close>
  "held p r g ns \<longleftrightarrow> p = Some 1 \<and> ns = [1..<g] \<or> p = Some 2 \<and> r = g \<and> ns = [1..<g]
     \<or> p = Some 3 \<and> 1 \<le> r \<and> g = Suc r \<and> ns = [1..<r]"

definition cv_inv :: "cv_state \<Rightarrow> bool" where
  "cv_inv s \<longleftrightarrow> length (cv_regs s) = length (cv_codes s) \<and> 1 \<le> global_var s \<and>
     (case mutex_of s of
        None \<Rightarrow> (\<forall>i<length (cv_codes s). lock_phase (cv_codes s ! i) = Some 0) \<and> counted (cv_out s) = [1..<global_var s]
      | Some t \<Rightarrow> t < length (cv_codes s)
          \<and> (\<forall>i<length (cv_codes s). i \<noteq> t \<longrightarrow> lock_phase (cv_codes s ! i) = Some 0)
          \<and> held (lock_phase (cv_codes s ! t)) (cv_regs s ! t) (global_var s) (counted (cv_out s)))"

lemma step_phase_Some [simp]: "step_phase p q r = Some n \<longleftrightarrow> r = Some q \<and> n = p"
  by (auto simp: step_phase_def)

lemma inv_free:
  "cv_inv s \<Longrightarrow> mutex_of s = None \<Longrightarrow> t < length (cv_codes s) \<Longrightarrow>
   lock_phase (cv_codes s ! t) = Some 0 \<and> counted (cv_out s) = [1..<global_var s]"
  by (simp add: cv_inv_def)

lemma exec_inv:
  assumes inv: "cv_inv s" and t: "t < length (cv_codes s)" "cv_codes s ! t = x # c"
    and u: "cv_exec t x c s = Some u"
  shows "cv_inv u"
proof (cases "mutex_of s")
  case None
  with inv t have "lock_phase (x # c) = Some 0" "\<forall>i<length (cv_codes s). lock_phase (cv_codes s ! i) = Some 0"
    by (metis inv_free, simp add: cv_inv_def)
  then show ?thesis using inv t u None
    by (cases x) (auto simp: cv_inv_def advance_def say_def held_def nth_list_update split: if_splits)
next
  case (Some j)
  show ?thesis
  proof (cases "t = j")
    case True
    with Some inv t have "held (lock_phase (x # c)) (cv_regs s ! t) (global_var s) (counted (cv_out s))"
      by (simp add: cv_inv_def)
    then show ?thesis using inv t u Some True
      by (cases x) (auto simp: cv_inv_def advance_def say_def held_def nth_list_update split: if_splits)
  next
    case False
    with Some inv t have "lock_phase (x # c) = Some 0" by (simp add: cv_inv_def) metis
    then show ?thesis using inv t u Some False
      by (cases x) (auto simp: cv_inv_def advance_def say_def nth_list_update split: if_splits)
  qed
qed

lemma cv_run_inv: "cv_run ts s = Some u \<Longrightarrow> cv_inv s \<Longrightarrow> cv_inv u"
  by (erule (1) cv.run_inv) (use exec_inv in \<open>blast elim: step_head\<close>)

lemma cv_inv_start: "list_all (\<lambda>c. lock_phase c = Some 0) codes \<Longrightarrow> cv_inv (cv_start codes)"
  by (simp add: cv_inv_def cv_start_def list_all_length)

lemma inv_counted:
  assumes "cv_inv s"
  shows "counted (cv_out s) = [1..<Suc (length (counted (cv_out s)))]"
proof -
  have "\<exists>g\<ge>1. counted (cv_out s) = [1..<g]"
    using assms unfolding cv_inv_def held_def by (auto split: option.splits)
  then obtain g where "1 \<le> g" "counted (cv_out s) = [1..<g]" by blast
  moreover from this(1) have "g = Suc (length [1..<g])" by simp
  ultimately show ?thesis by metis
qed

fun shows_left :: "cv_instr list \<Rightarrow> nat" where
  "shows_left [] = 0"
| "shows_left (Show k # c) = Suc (shows_left c)"
| "shows_left (_ # c) = shows_left c"

definition to_show :: "cv_state \<Rightarrow> nat" where
  "to_show s = length (counted (cv_out s)) + sum_list (map shows_left (cv_codes s))"

lemma step_to_show:
  assumes "cv_step t s = Some u"
  shows "to_show u = to_show s"
proof -
  from assms obtain x c where h: "t < length (cv_codes s)" "cv_codes s ! t = x # c" "cv_exec t x c s = Some u"
    by (rule step_head)
  have "length (counted (cv_out u)) + shows_left (case x of Wait _ \<Rightarrow> Asleep # c | _ \<Rightarrow> c)
      = length (counted (cv_out s)) + shows_left (x # c)"
    using h(3) by (cases x) (auto simp: advance_def say_def split: if_splits)
  with sum_list_update [OF h(1), of shows_left "case x of Wait _ \<Rightarrow> Asleep # c | _ \<Rightarrow> c"] h(2) show ?thesis
    unfolding to_show_def exec_codes [OF h(3)] by simp
qed

lemma run_to_show: "cv_run ts s = Some u \<Longrightarrow> to_show u = to_show s"
  by (erule cv.run_const) (rule step_to_show)

lemma three_start: "cv_inv three_main" "to_show three_main = 30" "work three_main = 252"
proof -
  show "cv_inv three_main"
    unfolding three_main_def by (rule cv_inv_start) code_simp
  show "to_show three_main = 30" by code_simp
  show "work three_main = 252" by code_simp
qed

text \<open>
  C31. The three threads never lose an update of \<^verbatim>\<open>global_var\<close>: in every run, however the threads are
  scheduled, what they have printed of it is 1, 2, 3, ... without gap or repetition, at most 30
  values, and all 30 once the three threads have returned; every run has at most 252 steps.
\<close>

theorem three_threads_count:
  assumes "cv_run ts three_main = Some s"
  shows "\<exists>k\<le>30. counted (cv_out s) = [1..<Suc k] \<and> length ts \<le> 252 \<and> (cv_codes s = [[], [], []] \<longrightarrow> k = 30)"
proof -
  have "cv_inv s" using cv_run_inv [OF assms three_start(1)] .
  then have "counted (cv_out s) = [1..<Suc (length (counted (cv_out s)))]" by (rule inv_counted)
  moreover have "to_show s = 30" "length ts \<le> 252"
    using run_to_show [OF assms] run_work [OF assms] three_start(2,3) by simp_all
  ultimately show ?thesis by (intro exI [of _ "length (counted (cv_out s))"]) (auto simp: to_show_def)
qed

theorem three_threads_count_witness:
  "\<exists>s k. cv_run [0, 0, 1, 0, 0] three_main = None \<and> cv_run [0, 0, 0, 0, 0, 0, 2, 2, 2, 2] three_main = Some s
     \<and> counted (cv_out s) = [1..<Suc k] \<and> k = 2"
proof -
  have "cv_run [0, 0, 1, 0, 0] three_main = None" by code_simp
  moreover have "map_option cv_out (cv_run [0, 0, 0, 0, 0, 0, 2, 2, 2, 2] three_main) = Some [Tagged 1 1, Tagged 3 2]"
    by code_simp
  then obtain s where s: "cv_run [0, 0, 0, 0, 0, 0, 2, 2, 2, 2] three_main = Some s"
    "cv_out s = [Tagged 1 1, Tagged 3 2]" by auto
  moreover from three_threads_count [OF s(1)] obtain k where "counted (cv_out s) = [1..<Suc k]" by blast
  moreover from this s(2) have "k = 2" by (metis counted.simps(1,2) length_Cons length_upt list.size(3) diff_Suc_1 numeral_2_eq_2)
  ultimately show ?thesis by blast
qed

section \<open>Who is left waiting\<close>

definition rounds :: "nat \<Rightarrow> nat list \<Rightarrow> nat list" where
  \<comment> \<open>\<open>n\<close> times: each of the threads wakes up, unlocks and does its next round up to the wait\<close>
  "rounds n ks = concat (replicate n (concat (map (replicate 8) ks)))"

definition orderly_schedule :: "nat list" where
  "orderly_schedule = replicate 6 0 @ replicate 6 1 @ replicate 6 2 @ rounds 9 [0, 1, 2]
     @ replicate 6 0 @ replicate 6 1 @ replicate 6 2"

definition overtaking_schedule :: "nat list" where
  \<comment> \<open>the third thread starts before the second\<close>
  "overtaking_schedule = replicate 6 0 @ replicate 6 2 @ replicate 8 0 @ replicate 6 1
     @ rounds 8 [2, 0, 1] @ replicate 8 2 @ replicate 6 0 @ replicate 6 2 @ replicate 8 1"

text \<open>
  C32. The signals of the three threads are not remembered, so the turn can be lost although no wait
  ends spuriously: scheduled in turn, all three threads return; but if the third thread starts before
  the second, the first and the third return and the second waits for ever.
\<close>

theorem three_threads_may_deadlock:
  "(\<exists>s. cv_run orderly_schedule three_main = Some s \<and> cv_codes s = [[], [], []])
   \<and> (\<exists>s. cv_run overtaking_schedule three_main = Some s \<and> (\<forall>t. cv_step t s = None)
        \<and> waiters s = [(2, 1)] \<and> cv_codes s ! 0 = [] \<and> cv_codes s ! 2 = [] \<and> length (counted (cv_out s)) = 30)"
proof
  have "map_option cv_codes (cv_run orderly_schedule three_main) = Some [[], [], []]" by code_simp
  then show "\<exists>s. cv_run orderly_schedule three_main = Some s \<and> cv_codes s = [[], [], []]" by auto
next
  let ?p = "\<lambda>s. (map (\<lambda>t. cv_step t s) [0, 1, 2], length (cv_codes s), waiters s, cv_codes s ! 0, cv_codes s ! 2, length (counted (cv_out s)))"
  have "map_option ?p (cv_run overtaking_schedule three_main)
      = Some ([None, None, None], 3, [(2, 1)], [], [], 30)"
    by code_simp
  then obtain s where s: "cv_run overtaking_schedule three_main = Some s" "waiters s = [(2, 1)]"
    "cv_codes s ! 0 = []" "cv_codes s ! 2 = []" "length (counted (cv_out s)) = 30"
    "cv_step 0 s = None" "cv_step 1 s = None" "cv_step 2 s = None" "length (cv_codes s) = 3"
    by auto
  have "cv_step t s = None" for t
  proof (cases "t < 3")
    case True
    then have "t = 0 \<or> t = 1 \<or> t = 2" by arith
    with s show ?thesis by auto
  next
    case False
    with s(9) show ?thesis by (simp add: cv_step_def)
  qed
  with s show "\<exists>s. cv_run overtaking_schedule three_main = Some s \<and> (\<forall>t. cv_step t s = None)
        \<and> waiters s = [(2, 1)] \<and> cv_codes s ! 0 = [] \<and> cv_codes s ! 2 = [] \<and> length (counted (cv_out s)) = 30"
    by blast
qed

section \<open>Exploring all runs of the two threads\<close>

definition successors :: "cv_state \<Rightarrow> cv_state list" where
  "successors s = concat (map (\<lambda>t. case cv_step t s of None \<Rightarrow> [] | Some u \<Rightarrow> [u]) [0..<length (cv_codes s)])"

interpretation cv_all: exploration cv_step cv_run successors
proof
  fix t s u
  show "cv_step t s = Some u \<Longrightarrow> u \<in> set (successors s)"
    by (erule step_head) (auto simp: successors_def cv_step_def intro!: bexI [of _ t])
qed (auto simp: successors_def split: option.splits)

fun numbers :: "cv_out list \<Rightarrow> nat list" where
  "numbers [] = []"
| "numbers (Num n # xs) = n # numbers xs"
| "numbers (_ # xs) = numbers xs"

definition in_turns :: "nat list \<Rightarrow> bool" where
  \<comment> \<open>a beginning of 1, 2, 3, ..., 20 or of 2, 1, 4, 3, ..., 20, 19\<close>
  "in_turns ns \<longleftrightarrow> ns = take (length ns) [1..<21]
     \<or> ns = take (length ns) (concat (map (\<lambda>k. [2 * k + 2, 2 * k + 1]) [0..<10]))"

definition cv_ok :: "cv_state \<Rightarrow> bool" where
  "cv_ok s \<longleftrightarrow> in_turns (numbers (cv_out s))
     \<and> (successors s = [] \<longrightarrow> cv_codes s = [[], []] \<and> length (numbers (cv_out s)) = 20)"

lemma cv_explored: "explored successors cv_ok 123 [cv_main]"
  by code_simp

text \<open>
  C30. The two threads print their numbers in turn and both return, whichever of them starts and
  however they are scheduled, as long as a wait only ends by a signal: what is printed is always a
  beginning of 1, 2, ..., 20 or of 2, 1, 4, 3, ...; a run has at most 123 steps; and if no thread
  can move, both have returned and all 20 numbers are out, so no signal is ever lost.
\<close>

theorem two_threads_alternate:
  assumes "cv_run ts cv_main = Some s"
  shows "in_turns (numbers (cv_out s)) \<and> length ts \<le> 123
    \<and> ((\<exists>t. cv_step t s \<noteq> None) \<or> cv_codes s = [[], []] \<and> length (numbers (cv_out s)) = 20)"
  using cv_all.explored_run [OF assms cv_explored] by (auto simp: cv_ok_def cv_all.no_succ)

theorem two_threads_alternate_witness:
  "\<exists>s. cv_run [0, 0, 1, 0, 0, 1] cv_main = None \<and> cv_run [0, 0, 0, 0, 1, 1] cv_main = Some s
     \<and> cv_out s = [Num 1, Num 2] \<and> in_turns [1, 2]"
proof -
  have "cv_run [0, 0, 1, 0, 0, 1] cv_main = None" by code_simp
  moreover have "map_option cv_out (cv_run [0, 0, 0, 0, 1, 1] cv_main) = Some [Num 1, Num 2]" by code_simp
  then obtain s where "cv_run [0, 0, 0, 0, 1, 1] cv_main = Some s" "cv_out s = [Num 1, Num 2]" by auto
  moreover from two_threads_alternate [OF this(1)] this(2) have "in_turns [1, 2]" by simp
  ultimately show ?thesis by blast
qed

section \<open>Spurious wake-ups\<close>

fun drive :: "nat \<Rightarrow> cv_state \<Rightarrow> cv_state" where
  \<comment> \<open>\<open>n\<close> steps of the first thread that can move\<close>
  "drive 0 s = s"
| "drive (Suc n) s = (case successors s of [] \<Rightarrow> s | t # _ \<Rightarrow> drive n t)"

lemma drive_run: "\<exists>ts. cv_run ts s = Some (drive n s)"
proof (induction n arbitrary: s)
  case 0
  have "cv_run [] s = Some s" by simp
  then show ?case unfolding drive.simps by blast
next
  case (Suc n)
  show ?case
  proof (cases "successors s")
    case Nil
    have "cv_run [] s = Some s" by simp
    then show ?thesis by (intro exI [of _ "[]"]) (simp add: Nil)
  next
    case (Cons u us)
    then have "u \<in> set (successors s)" by simp
    then obtain t where "cv_step t s = Some u" by (auto simp: successors_def split: option.splits)
    moreover obtain ts where "cv_run ts u = Some (drive n u)" using Suc by blast
    ultimately have "cv_run (t # ts) s = Some (drive (Suc n) s)" by (simp add: Cons)
    then show ?thesis by blast
  qed
qed

text \<open>
  The waits do not survive a spurious wake-up, which POSIX allows and the code does not test
  for: if the first wait ends once without a signal, the numbers come out of turn and there is a run
  in which the first thread returns and the second waits for a signal that nobody will send.
\<close>

lemma spurious_wakeup_deadlocks:
  "\<exists>s u ts t. cv_run [0, 0, 0, 0] cv_main = Some s \<and> spurious 0 s = Some u \<and> cv_run ts u = Some t
     \<and> \<not> in_turns (numbers (cv_out t)) \<and> (\<forall>i. cv_step i t = None) \<and> waiters t = [(1, 1)] \<and> hd (cv_codes t) = []"
proof -
  define r where "r = Option.bind (cv_run [0, 0, 0, 0] cv_main) (spurious 0)"
  have "map_option (\<lambda>u. let t = drive 200 u in
        (in_turns (numbers (cv_out t)), successors t, waiters t, hd (cv_codes t))) r
      = Some (False, [], [(1, 1)], [])"
    unfolding r_def by code_simp
  then obtain u where u: "r = Some u" "\<not> in_turns (numbers (cv_out (drive 200 u)))"
    "successors (drive 200 u) = []" "waiters (drive 200 u) = [(1, 1)]" "hd (cv_codes (drive 200 u)) = []"
    by (auto simp: Let_def)
  moreover from u(1) obtain s where "cv_run [0, 0, 0, 0] cv_main = Some s" "spurious 0 s = Some u"
    by (auto simp: r_def bind_eq_Some_conv)
  moreover obtain ts where "cv_run ts u = Some (drive 200 u)" using drive_run by blast
  ultimately show ?thesis using cv_all.no_succ by blast
qed

end
