(* ===== verification/Cpp_Semaphore.thy ===== *)
theory Cpp_Semaphore
  imports Lock_Programs Segments
begin

text \<open>
  The C++ program \<^verbatim>\<open>ipc_mechanisms/cpp_linux_code/semaphore_linux.cpp\<close> (the same text as
  \<^verbatim>\<open>linux_task/shared_mem_process_sema_thread_mutex/semaphore_linux.cpp\<close>): its classes \<^verbatim>\<open>Semaphore\<close>
  and \<^verbatim>\<open>Shared_mem\<close>, and \<^verbatim>\<open>main\<close>, which forks two children that take the semaphore, count in the
  shared memory with two threads each under a mutex of their own, and let the parent print the
  result.  Inside a child the threads are those of \<open>Shared_Memory\<close>; the children, the parent and the
  kernel's undo of semaphore operations are added here.  Semaphore sets are used with index 0 only.
\<close>

section \<open>The class Semaphore\<close>

type_synonym sem_table = "int \<Rightarrow> (nat \<times> sysv_sem) option"   \<comment> \<open>IPC key, number of semaphores, the first one\<close>

record semaphore_class =
  ipc_key :: int
  nsem :: nat
  sem_id :: "int option"      \<comment> \<open>the set's key; \<open>None\<close>: -1\<close>

definition sem_create :: "bool \<Rightarrow> nat \<Rightarrow> int \<Rightarrow> sem_table \<Rightarrow> int option \<times> sem_table" where
  \<comment> \<open>\<^verbatim>\<open>semget(key, n, IPC_CREAT)\<close>: the first argument is false if the kernel refuses\<close>
  "sem_create ok n key tab =
     (if \<not> ok then (None, tab)
      else case tab key of
        None \<Rightarrow> (Some key, tab(key \<mapsto> (n, sem_setval 0)))
      | Some (m, s) \<Rightarrow> if m < n then (None, tab) else (Some key, tab))"

definition get_sema_val :: "semaphore_class \<Rightarrow> sem_table \<Rightarrow> int" where
  "get_sema_val c tab =
     (case Option.bind (sem_id c) tab of None \<Rightarrow> - 1 | Some (m, s) \<Rightarrow> int (semval s))"

definition set_sema_val :: "int option \<Rightarrow> nat \<Rightarrow> sem_table \<Rightarrow> sem_table" where
  "set_sema_val i val tab =
     (case i of None \<Rightarrow> tab
      | Some k \<Rightarrow> (case tab k of None \<Rightarrow> tab | Some (m, s) \<Rightarrow> tab(k \<mapsto> (m, sem_setval val))))"

definition Semaphore :: "bool \<Rightarrow> nat \<Rightarrow> int \<Rightarrow> sem_table \<Rightarrow> semaphore_class \<times> sem_table" where
  \<comment> \<open>the constructor calls \<^verbatim>\<open>sem_create()\<close> and \<^verbatim>\<open>set_sema_val()\<close> with their default arguments\<close>
  "Semaphore ok n_sem key tab =
     (let (i, tab1) = sem_create ok 1 3333 tab
      in (\<lparr>ipc_key = key, nsem = n_sem, sem_id = i\<rparr>, set_sema_val i 1 tab1))"

definition sem_lock :: "nat \<Rightarrow> sysv_sem option \<Rightarrow> sysv_sem option option" where
  \<comment> \<open>of process \<open>p\<close>; the outer \<open>None\<close>: it waits.  On a semaphore that does not exist the operation
     fails, which is only printed\<close>
  "sem_lock p l = (case l of None \<Rightarrow> Some None | Some s \<Rightarrow> map_option Some (semop True p (- 1) s))"

definition sem_unlock :: "nat \<Rightarrow> sysv_sem option \<Rightarrow> sysv_sem option option" where
  "sem_unlock p l = (case l of None \<Rightarrow> Some None | Some s \<Rightarrow> map_option Some (semop True p 1 s))"

definition sem_destroy :: "sysv_sem option \<Rightarrow> sysv_sem option" where
  "sem_destroy l = None"

definition sem_undo :: "nat \<Rightarrow> sysv_sem \<Rightarrow> sysv_sem" where
  \<comment> \<open>the kernel at the exit of process \<open>p\<close>\<close>
  "sem_undo p s =
     s\<lparr>semval := nat (int (semval s) + semadj s p), semadj := (semadj s)(p := 0),
       taken_by := (if taken_by s = Some p then None else taken_by s)\<rparr>"

section \<open>The class Shared\_mem\<close>

type_synonym shm_table = "int \<Rightarrow> segment option"   \<comment> \<open>by IPC key\<close>

record shared_mem_class =
  shm_key :: int
  no_page :: nat
  shm_id :: "int option"      \<comment> \<open>the segment's key; \<open>None\<close>: -1\<close>
  shared_mem_ptr :: bool      \<comment> \<open>attached; \<open>False\<close>: the address -1\<close>

definition PAGE_SIZE :: nat where
  "PAGE_SIZE = 4096"

definition Shared_mem :: "bool \<Rightarrow> bool \<Rightarrow> nat \<Rightarrow> int \<Rightarrow> shm_table \<Rightarrow> shared_mem_class \<times> shm_table" where
  \<comment> \<open>results of \<^verbatim>\<open>shmget\<close> and \<^verbatim>\<open>shmat\<close>; failures are only printed\<close>
  "Shared_mem get_ok at_ok pages key tab =
     (let seg = (case tab key of None \<Rightarrow> segment_of (pages * PAGE_SIZE) | Some s \<Rightarrow> s)
      in (\<lparr>shm_key = key, no_page = pages, shm_id = (if get_ok then Some key else None),
            shared_mem_ptr = (get_ok \<and> at_ok)\<rparr>,
          if \<not> get_ok then tab else if \<not> at_ok then tab(key \<mapsto> seg) else tab(key \<mapsto> shmat seg)))"

definition get_size :: "shared_mem_class \<Rightarrow> nat" where
  "get_size c = no_page c * PAGE_SIZE"

definition detach_shared_mem :: "segment option \<Rightarrow> segment option" where
  "detach_shared_mem g = Option.bind g shmdt"

definition destory_shared_mem :: "segment option \<Rightarrow> segment option" where
  "destory_shared_mem g = Option.bind (detach_shared_mem g) shm_rmid"

section \<open>The processes\<close>

datatype stage = Locking | Creating nat | Joining nat | Unlocking | Exiting | Exited
datatype parent_stage = Forking nat | Waiting nat | Printing | Clearing | Returned

record child =
  stage :: stage
  m_lock :: mutex
  c_threads :: "s64 thread list"

record cpp_state =
  sema :: "sysv_sem option"
  shm_obj :: "nat \<Rightarrow> s64"             \<comment> \<open>\<^verbatim>\<open>global_var1\<close>, \<^verbatim>\<open>global_var2\<close>, \<^verbatim>\<open>global_var3\<close>\<close>
  children :: "child list"
  parent :: parent_stage
  reaped :: nat
  printed :: "s64 list"
  shm :: "segment option"

datatype who = Parent bool | Child nat bool | Thread nat nat
  \<comment> \<open>whose step; the flags are the outcomes of \<^verbatim>\<open>fork\<close> and \<^verbatim>\<open>pthread_create\<close>\<close>

definition cpp_inc_thread :: "s64 instr list" where
  "cpp_inc_thread = for_loop 60000 (section_code [(0, 1), (1, 1), (2, 1)])"

definition cpp_dec_thread :: "s64 instr list" where
  "cpp_dec_thread = for_loop 60000 (section_code [(0, - 1), (1, - 1), (2, - 1)])"

definition set_child :: "nat \<Rightarrow> child \<Rightarrow> cpp_state \<Rightarrow> cpp_state" where
  "set_child p c s = s\<lparr>children := (children s)[p := c]\<rparr>"

definition child_exit :: "nat \<Rightarrow> child \<Rightarrow> cpp_state \<Rightarrow> cpp_state" where
  "child_exit p c s = set_child p (c\<lparr>stage := Exited, c_threads := []\<rparr>) 
     (s\<lparr>sema := map_option (sem_undo p) (sema s), shm := detach_shared_mem (shm s)\<rparr>)"

fun child_step :: "nat \<Rightarrow> bool \<Rightarrow> child \<Rightarrow> cpp_state \<Rightarrow> stage \<Rightarrow> cpp_state option" where
  "child_step p ok c s Locking =
     map_option (\<lambda>l. set_child p (c\<lparr>stage := Creating 0\<rparr>) (s\<lparr>sema := l\<rparr>)) (sem_lock p (sema s))"
| "child_step p ok c s (Creating j) =
     Some (if \<not> ok then child_exit p c s
           else set_child p (c\<lparr>c_threads := c_threads c @ [(0, if j = 0 then cpp_inc_thread else cpp_dec_thread)],
                               stage := if j = 0 then Creating 1 else Joining 0\<rparr>) s)"
| "child_step p ok c s (Joining j) =
     (if snd (c_threads c ! j) \<noteq> [] then None
      else Some (set_child p (c\<lparr>stage := if j = 0 then Joining 1 else Unlocking\<rparr>) s))"
| "child_step p ok c s Unlocking =
     map_option (\<lambda>l. set_child p (c\<lparr>stage := Exiting\<rparr>) (s\<lparr>sema := l\<rparr>)) (sem_unlock p (sema s))"
| "child_step p ok c s Exiting = Some (child_exit p c s)"
| "child_step p ok c s Exited = None"

definition inner :: "child \<Rightarrow> cpp_state \<Rightarrow> (s64, mutex) shared" where
  \<comment> \<open>what the threads of a child see\<close>
  "inner c s = \<lparr>mem = shm_obj s, lock = m_lock c, threads = c_threads c\<rparr>"

definition thread_step :: "nat \<Rightarrow> nat \<Rightarrow> child \<Rightarrow> cpp_state \<Rightarrow> cpp_state option" where
  "thread_step p i c s =
     map_option (\<lambda>d. set_child p (c\<lparr>m_lock := lock d, c_threads := threads d\<rparr>) (s\<lparr>shm_obj := mem d\<rparr>))
       (shared_step mutex_lock mutex_unlock i (inner c s))"

definition exits :: "cpp_state \<Rightarrow> nat" where
  "exits s = length (filter (\<lambda>c. stage c = Exited) (children s))"

definition new_child :: child where
  "new_child = \<lparr>stage = Locking, m_lock = None, c_threads = []\<rparr>"

fun parent_step :: "bool \<Rightarrow> cpp_state \<Rightarrow> parent_stage \<Rightarrow> cpp_state option" where
  "parent_step ok s (Forking n) =
     Some (s\<lparr>children := children s @ (if ok then [new_child] else []),
             shm := (if ok then map_option shmat (shm s) else shm s),
             parent := if n = 0 then Forking 1 else Waiting 0\<rparr>)"
| "parent_step ok s (Waiting n) =
     (let go = s\<lparr>parent := if n = 0 then Waiting 1 else Printing\<rparr>
      in if reaped s < exits s then Some (go\<lparr>reaped := Suc (reaped s)\<rparr>)
         else if reaped s = length (children s) then Some go else None)"
| "parent_step ok s Printing =
     Some (s\<lparr>printed := [shm_obj s 0, shm_obj s 1, shm_obj s 2], parent := Clearing\<rparr>)"
| "parent_step ok s Clearing =
     Some (s\<lparr>sema := sem_destroy (sema s), shm := destory_shared_mem (shm s), parent := Returned\<rparr>)"
| "parent_step ok s Returned = None"

fun cpp_step :: "who \<Rightarrow> cpp_state \<Rightarrow> cpp_state option" where
  "cpp_step (Parent ok) s = parent_step ok s (parent s)"
| "cpp_step (Child p ok) s =
     (if p < length (children s) then child_step p ok (children s ! p) s (stage (children s ! p)) else None)"
| "cpp_step (Thread p i) s =
     (if p < length (children s) then thread_step p i (children s ! p) s else None)"

fun cpp_run :: "who list \<Rightarrow> cpp_state \<Rightarrow> cpp_state option" where
  "cpp_run [] s = Some s"
| "cpp_run (w # ws) s = (case cpp_step w s of None \<Rightarrow> None | Some t \<Rightarrow> cpp_run ws t)"

interpretation cpp: machine cpp_step cpp_run
  by unfold_locales simp_all

definition cpp_main :: "bool \<Rightarrow> bool \<Rightarrow> bool \<Rightarrow> sem_table \<Rightarrow> shm_table \<Rightarrow> (nat \<Rightarrow> s64) \<Rightarrow> cpp_state option" where
  \<comment> \<open>results of \<^verbatim>\<open>semget\<close>, \<^verbatim>\<open>shmget\<close> and \<^verbatim>\<open>shmat\<close>, the existing semaphores and segments, what is in the
     segment; without a segment the first assignment goes to the address -1 (\<open>None\<close>)\<close>
  "cpp_main sem_ok get_ok at_ok tab segs m =
     (let (c, tab1) = Semaphore sem_ok 1 3333 tab; (d, segs1) = Shared_mem get_ok at_ok 1 2222 segs
      in if \<not> shared_mem_ptr d then None
         else Some \<lparr>sema = map_option snd (Option.bind (sem_id c) tab1),
                    shm_obj = m(0 := 10, 1 := 12, 2 := 14), children = [], parent = Forking 0,
                    reaped = 0, printed = [], shm = Option.bind (shm_id d) segs1\<rparr>)"

lemma ctor_ignores_arguments:
  "snd (Semaphore ok n k tab) = snd (Semaphore ok 1 3333 tab)
   \<and> sem_id (fst (Semaphore ok n k tab)) = sem_id (fst (Semaphore ok 1 3333 tab))
   \<and> ipc_key (fst (Semaphore ok n k tab)) = k \<and> nsem (fst (Semaphore ok n k tab)) = n"
  by (simp add: Semaphore_def split: prod.splits)

lemma ctor_unlocked:
  assumes "\<forall>m s. tab 3333 = Some (m, s) \<longrightarrow> 1 \<le> m"
  shows "get_sema_val (fst (Semaphore True n k tab)) (snd (Semaphore True n k tab)) = 1"
  using assms
  by (auto simp: Semaphore_def sem_create_def set_sema_val_def get_sema_val_def sem_setval_def split: option.splits)

section \<open>The invariant of the locks\<close>

definition three_steps :: "nat \<Rightarrow> s64" where
  "three_steps = updates (concat (replicate 60000 [(0, 1), (1, 1), (2, 1)]))"

fun worker_ok :: "bool \<Rightarrow> (nat \<Rightarrow> s64) \<Rightarrow> stage \<Rightarrow> (s64, mutex) shared \<Rightarrow> bool" where
  \<comment> \<open>the child that holds the semaphore; \<open>b\<close>: no creation has failed, so the values are known\<close>
  "worker_ok b G (Creating j) d \<longleftrightarrow> j < 2 \<and> length (threads d) = j
     \<and> (\<exists>goal. posix_mutex.protected goal d \<and> (b \<longrightarrow> goal = (if j = 0 then G else (\<lambda>v. G v + three_steps v))))"
| "worker_ok b G (Joining j) d \<longleftrightarrow> j < 2 \<and> length (threads d) = 2 \<and> (\<forall>i<j. snd (threads d ! i) = [])
     \<and> (\<exists>goal. posix_mutex.protected goal d \<and> (b \<longrightarrow> goal = G))"
| "worker_ok b G Unlocking d \<longleftrightarrow> finished d \<and> (b \<longrightarrow> mem d = G)"
| "worker_ok b G _ d \<longleftrightarrow> False"

definition idle_ok :: "child \<Rightarrow> bool" where
  "idle_ok c \<longleftrightarrow> c = new_child \<or> stage c \<in> {Exiting, Exited} \<and> list_all (\<lambda>t. snd t = []) (c_threads c)"

definition sem_inv :: "bool \<Rightarrow> (nat \<Rightarrow> s64) \<Rightarrow> cpp_state \<Rightarrow> bool" where
  "sem_inv b G s \<longleftrightarrow>
     (case sema s of
        None \<Rightarrow> parent s = Returned \<and> (\<forall>p<length (children s). idle_ok (children s ! p) \<and> stage (children s ! p) = Exited)
      | Some l \<Rightarrow> sem_binary l \<and> (\<forall>p. semadj l p = (if taken_by l = Some p then 1 else 0))
          \<and> (\<forall>p<length (children s). taken_by l \<noteq> Some p \<longrightarrow> idle_ok (children s ! p))
          \<and> (case taken_by l of
               None \<Rightarrow> b \<longrightarrow> shm_obj s = G
             | Some p \<Rightarrow> p < length (children s)
                 \<and> worker_ok b G (stage (children s ! p)) (inner (children s ! p) s)))"

fun parent_ok :: "bool \<Rightarrow> s64 list \<Rightarrow> parent_stage \<Rightarrow> nat \<Rightarrow> nat \<Rightarrow> s64 list \<Rightarrow> bool" where
  \<comment> \<open>stage, number of children, number of them reaped, output\<close>
  "parent_ok b vs (Forking n) k r out \<longleftrightarrow> n < 2 \<and> k \<le> n \<and> r = 0 \<and> out = []"
| "parent_ok b vs (Waiting n) k r out \<longleftrightarrow> n < 2 \<and> k \<le> 2 \<and> out = []
     \<and> (if n = 0 then r = 0 else r = 1 \<or> r = k)"
| "parent_ok b vs Printing k r out \<longleftrightarrow> r = k \<and> out = []"
| "parent_ok b vs _ k r out \<longleftrightarrow> r = k \<and> (b \<longrightarrow> out = vs)"

definition cpp_inv :: "bool \<Rightarrow> (nat \<Rightarrow> s64) \<Rightarrow> cpp_state \<Rightarrow> bool" where
  "cpp_inv b G s \<longleftrightarrow> sem_inv b G s \<and> reaped s \<le> exits s
     \<and> parent_ok b [G 0, G 1, G 2] (parent s) (length (children s)) (reaped s) (printed s)"

lemma idle_new [simp]: "idle_ok new_child"
  by (simp add: idle_ok_def)

lemma exits_update:
  "p < length cs \<Longrightarrow> stage (cs ! p) \<noteq> Exited \<Longrightarrow>
   length (filter (\<lambda>c. stage c = Exited) cs) \<le> length (filter (\<lambda>c. stage c = Exited) (cs[p := c]))"
proof (induction cs arbitrary: p)
  case Nil
  then show ?case by simp
next
  case (Cons a cs)
  then show ?case by (cases p) auto
qed

lemma exits_le: "exits s \<le> length (children s)"
  by (simp add: exits_def)

lemma all_exited: "exits s = length (children s) \<Longrightarrow> p < length (children s) \<Longrightarrow> stage (children s ! p) = Exited"
  unfolding exits_def by (metis (mono_tags, lifting) length_filter_less nth_mem order_less_irrefl)

lemma inner_simps [simp]:
  "mem (inner c s) = shm_obj s" "lock (inner c s) = m_lock c" "threads (inner c s) = c_threads c"
  by (simp_all add: inner_def)

lemma inner_stage [simp]: "inner (c\<lparr>stage := st\<rparr>) s = inner c s"
  by (simp add: inner_def)

lemma set_child_simps [simp]:
  "sema (set_child p c s) = sema s" "shm_obj (set_child p c s) = shm_obj s"
  "children (set_child p c s) = (children s)[p := c]" "parent (set_child p c s) = parent s"
  "reaped (set_child p c s) = reaped s" "printed (set_child p c s) = printed s"
  "inner c' (set_child p c s) = inner c' s"
  by (simp_all add: set_child_def inner_def)

lemma cpp_codes:
  "cpp_inc_thread = sections (replicate 60000 [(0, 1), (1, 1), (2, 1)])"
  "cpp_dec_thread = sections (replicate 60000 [(0, - 1), (1, - 1), (2, - 1)])"
  by (simp_all only: cpp_inc_thread_def cpp_dec_thread_def for_loop_replicate sections_replicate)

lemma dec_steps: "updates (concat (replicate 60000 [(0, - 1), (1, - 1), (2, - 1)])) v = - three_steps v"
  by (simp only: three_steps_def updates_replicate) simp

lemma worker_step:
  assumes "worker_ok b G st d" "shared_step mutex_lock mutex_unlock i d = Some e"
  shows "worker_ok b G st e"
proof -
  have len: "length (threads e) = length (threads d)"
    using assms(2) by (auto simp: shared_step.simps set_thread_def split: if_splits prod.splits list.splits instr.splits)
  have moved: "snd (threads d ! i) \<noteq> []" "\<forall>k. k \<noteq> i \<longrightarrow> threads e ! k = threads d ! k" "i < length (threads d)"
    using assms(2) by (auto simp: shared_step.simps set_thread_def split: if_splits prod.splits list.splits instr.splits)
  show ?thesis
  proof (cases st)
    case (Creating j)
    with assms len posix_mutex.step_protected show ?thesis by fastforce
  next
    case (Joining j)
    then have "\<forall>k<j. k \<noteq> i" using assms(1) moved(1) by auto
    with Joining assms len moved posix_mutex.step_protected show ?thesis by fastforce
  next
    case Unlocking
    with assms(1) moved(1,3) show ?thesis by (simp add: finished_def list_all_length)
  qed (use assms(1) in auto)
qed

lemma idle_no_step: "idle_ok c \<Longrightarrow> shared_step mutex_lock mutex_unlock i (inner c s) = None"
  by (rule finished_no_step) (auto simp: idle_ok_def new_child_def finished_def)

lemma worker_moved:
  assumes inv: "sem_inv b G s" and l: "sema s = Some l" "taken_by l = Some p"
    and t: "sema t = Some l" "children t = (children s)[p := c]" "worker_ok b G (stage c) (inner c t)"
  shows "sem_inv b G t"
  using assms by (auto simp: sem_inv_def)

lemma lock_taken:
  assumes inv: "sem_inv b G s" and l: "sema s = Some l" "sema t = Some l'" "children t = (children s)[p := c]"
    and free: "taken_by l = None" "taken_by l' = Some p"
    and bin: "sem_binary l'" "\<And>q. semadj l' q = (if q = p then 1 else 0)"
    and w: "p < length (children s)" "worker_ok b G (stage c) (inner c t)"
  shows "sem_inv b G t"
  using assms by (auto simp: sem_inv_def)

lemma lock_left:
  assumes inv: "sem_inv b G s" and l: "sema s = Some l" "sema t = Some l'" "children t = (children s)[p := c]"
    and free: "taken_by l = Some p" "taken_by l' = None"
    and bin: "sem_binary l'" "\<And>q. semadj l' q = 0"
    and w: "idle_ok c" "b \<Longrightarrow> shm_obj t = G"
  shows "sem_inv b G t"
  using assms by (auto simp: sem_inv_def nth_list_update)

lemma idle_moved:
  assumes inv: "sem_inv b G s" and l: "sema s = Some l" "taken_by l \<noteq> Some p" "sema t = Some l"
    and t: "children t = (children s)[p := c]" "shm_obj t = shm_obj s" "idle_ok c"
  shows "sem_inv b G t"
proof (cases "taken_by l")
  case None
  have "idle_ok ((children s)[p := c] ! q)" if "q < length (children s)" for q
    using that assms None by (cases "q = p") (auto simp: sem_inv_def)
  with None assms show ?thesis by (auto simp: sem_inv_def)
next
  case (Some q)
  with l have "q \<noteq> p" by auto
  have "idle_ok ((children s)[p := c] ! r)" if "r < length (children s)" "r \<noteq> q" for r
    using that assms Some by (cases "r = p") (auto simp: sem_inv_def)
  with Some \<open>q \<noteq> p\<close> assms show ?thesis by (auto simp: sem_inv_def inner_def)
qed

lemma sem_invD:
  assumes "sem_inv b G s" "sema s = Some l"
  shows "sem_binary l" "semadj l q = (if taken_by l = Some q then 1 else 0)"
    "taken_by l \<noteq> Some q \<Longrightarrow> q < length (children s) \<Longrightarrow> idle_ok (children s ! q)"
    "taken_by l = None \<Longrightarrow> b \<Longrightarrow> shm_obj s = G"
    "taken_by l = Some q \<Longrightarrow> q < length (children s) \<and> worker_ok b G (stage (children s ! q)) (inner (children s ! q) s)"
  using assms by (auto simp: sem_inv_def)

lemma thread_inv:
  assumes inv: "sem_inv b G s" and p: "p < length (children s)" "thread_step p i (children s ! p) s = Some t"
  shows "sem_inv b G t \<and> exits s \<le> exits t"
proof -
  let ?c = "children s ! p"
  obtain d where d: "shared_step mutex_lock mutex_unlock i (inner ?c s) = Some d"
    "t = set_child p (?c\<lparr>m_lock := lock d, c_threads := threads d\<rparr>) (s\<lparr>shm_obj := mem d\<rparr>)"
    using p(2) by (auto simp: thread_step_def)
  have "\<not> idle_ok ?c" using d(1) idle_no_step by fastforce
  then obtain l where l: "sema s = Some l" "taken_by l = Some p"
    using inv p(1) by (auto simp: sem_inv_def split: option.splits)
  have w: "worker_ok b G (stage ?c) (inner ?c s)" using sem_invD(5) [OF inv l] by simp
  have "inner (?c\<lparr>m_lock := lock d, c_threads := threads d\<rparr>) t = d"
    by (simp add: inner_def d(2))
  then have "sem_inv b G t"
    using worker_step [OF w d(1)] by (intro worker_moved [OF inv l]) (auto simp: d(2) l(1) inner_def)
  moreover have "stage ?c \<noteq> Exited" using w by auto
  then have "exits s \<le> exits t" using exits_update [of p "children s"] p(1) by (simp add: exits_def d(2))
  ultimately show ?thesis by simp
qed

lemma creating_inv:
  assumes inv: "sem_inv b G s" and l: "sema s = Some l" "taken_by l = Some p"
    and st: "stage (children s ! p) = Creating j"
    and t: "child_step p True (children s ! p) s (Creating j) = Some t"
  shows "sem_inv b G t"
proof -
  let ?c = "children s ! p"
  obtain goal where w: "j < 2" "length (c_threads ?c) = j" "posix_mutex.protected goal (inner ?c s)"
    "b \<longrightarrow> goal = (if j = 0 then G else (\<lambda>v. G v + three_steps v))"
    using sem_invD(5) [OF inv l] st by auto
  define bs :: "(nat \<times> s64) list list" where
    "bs = (if j = 0 then replicate 60000 [(0, 1), (1, 1), (2, 1)] else replicate 60000 [(0, - 1), (1, - 1), (2, - 1)])"
  define c where "c = ?c\<lparr>c_threads := c_threads ?c @ [(0, sections bs)], stage := if j = 0 then Creating 1 else Joining 0\<rparr>"
  have "t = set_child p c s"
    using t unfolding c_def bs_def by (simp only: child_step.simps cpp_codes) (auto split: if_splits)
  moreover have p: "posix_mutex.protected (\<lambda>v. goal v + updates (concat bs) v) (inner c s)"
    using posix_mutex.protected_add_thread [OF w(3), of bs 0] by (simp add: c_def inner_def)
  have u: "updates (concat bs) v = (if j = 0 then three_steps v else - three_steps v)" for v
    unfolding bs_def three_steps_def by (simp only: updates_replicate split: if_splits) simp
  have "worker_ok b G (stage c) (inner c s)"
  proof (cases "j = 0")
    case True
    then show ?thesis using p w(2,4) unfolding u by (auto simp: c_def)
  next
    case False
    then have "j = 1" using w(1) by simp
    then show ?thesis using p w(2,4) unfolding u by (auto simp: c_def)
  qed
  ultimately show ?thesis by (intro worker_moved [OF inv l]) (auto simp: l(1))
qed

lemma joining_inv:
  assumes inv: "sem_inv b G s" and l: "sema s = Some l" "taken_by l = Some p"
    and st: "stage (children s ! p) = Joining j"
    and t: "child_step p ok (children s ! p) s (Joining j) = Some t"
  shows "sem_inv b G t"
proof -
  let ?c = "children s ! p"
  obtain goal where w: "j < 2" "length (c_threads ?c) = 2" "\<forall>i<j. snd (c_threads ?c ! i) = []"
    "posix_mutex.protected goal (inner ?c s)" "b \<longrightarrow> goal = G"
    using sem_invD(5) [OF inv l] st by auto
  define c where "c = ?c\<lparr>stage := if j = 0 then Joining 1 else Unlocking\<rparr>"
  have t': "t = set_child p c s" "snd (c_threads ?c ! j) = []"
    using t by (auto simp: c_def split: if_splits)
  have "inner c s = inner ?c s" by (simp add: inner_def c_def)
  moreover have "finished (inner ?c s)" if "j = 1"
    using that w(2,3) t'(2) by (auto simp: finished_def list_all_length less_2_cases_iff)
  then have "mem (inner ?c s) = goal" if "j = 1"
    using that posix_mutex.protected_final [OF w(4)] by blast
  ultimately have "worker_ok b G (stage c) (inner c s)"
    using w t'(2) \<open>j = 1 \<Longrightarrow> finished (inner ?c s)\<close> by (auto simp: c_def less_2_cases_iff)
  then show ?thesis by (intro worker_moved [OF inv l]) (auto simp: l(1) t'(1))
qed

lemma busy_iff:
  assumes inv: "sem_inv b G s" and l: "sema s = Some l" and p: "p < length (children s)"
  shows "taken_by l = Some p \<longleftrightarrow> stage (children s ! p) \<notin> {Locking, Exiting, Exited}"
proof -
  note D = sem_invD [OF inv l]
  have "idle_ok (children s ! p) \<Longrightarrow> stage (children s ! p) \<in> {Locking, Exiting, Exited}"
    by (auto simp: idle_ok_def new_child_def)
  then show ?thesis using D(3) [of p] D(5) [of p] p by auto
qed

lemma locking_inv:
  assumes inv: "sem_inv b G s" and l: "sema s = Some l" and p: "p < length (children s)"
    and st: "stage (children s ! p) = Locking" "child_step p ok (children s ! p) s Locking = Some t"
  shows "sem_inv b G t"
proof -
  let ?c = "children s ! p"
  note D = sem_invD [OF inv l]
  have "idle_ok ?c" using busy_iff [OF inv l p] D(3) [of p] p st(1) by simp
  with st(1) have c: "?c = new_child" by (simp add: idle_ok_def)
  obtain l' where l': "semop True p (- 1) l = Some l'" "t = set_child p (?c\<lparr>stage := Creating 0\<rparr>) (s\<lparr>sema := Some l'\<rparr>)"
    using st(2) l by (auto simp: sem_lock_def)
  have free: "taken_by l = None" using l'(1) D(1) by (auto simp: semop_def sem_binary_def split: if_splits)
  have "posix_mutex.protected (shm_obj s) \<lparr>mem = shm_obj s, lock = None, threads = []\<rparr>"
    using posix_mutex.protected_start [of None "shm_obj s" "[]"] by simp
  then show ?thesis
    using l' free D(1,2,4) c p
    by (intro lock_taken [OF inv l, of _ l' p "?c\<lparr>stage := Creating 0\<rparr>"])
      (auto simp: semop_def sem_binary_def inner_def new_child_def split: if_splits)
qed

lemma unlocking_inv:
  assumes inv: "sem_inv b G s" and l: "sema s = Some l" and p: "p < length (children s)"
    and st: "stage (children s ! p) = Unlocking" "child_step p ok (children s ! p) s Unlocking = Some t"
  shows "sem_inv b G t"
proof -
  let ?c = "children s ! p"
  note D = sem_invD [OF inv l]
  have taken: "taken_by l = Some p" using busy_iff [OF inv l p] st(1) by simp
  obtain l' where "semop True p 1 l = Some l'" "t = set_child p (?c\<lparr>stage := Exiting\<rparr>) (s\<lparr>sema := Some l'\<rparr>)"
    using st(2) l by (auto simp: sem_unlock_def)
  then show ?thesis using taken D(1,2) D(5) [OF taken] st(1)
    by (intro lock_left [OF inv l, of _ l' p "?c\<lparr>stage := Exiting\<rparr>"])
      (auto simp: semop_def sem_binary_def idle_ok_def finished_def split: if_splits)
qed

lemma child_inv:
  assumes inv: "sem_inv b G s" and p: "p < length (children s)" "child_step p ok (children s ! p) s (stage (children s ! p)) = Some t"
    and ok: "b \<longrightarrow> ok"
  shows "sem_inv b G t"
proof (cases "sema s")
  case None
  with inv p show ?thesis by (auto simp: sem_inv_def)
next
  case (Some l)
  let ?c = "children s ! p"
  note D = sem_invD [OF inv Some] and busy = busy_iff [OF inv Some p(1)]
  show ?thesis
  proof (cases "stage ?c")
    case Locking
    then show ?thesis using locking_inv [OF inv Some p(1)] p(2) by simp
  next
    case (Creating j)
    then have taken: "taken_by l = Some p" using busy by simp
    show ?thesis
    proof (cases ok)
      case True
      then show ?thesis using creating_inv [OF inv Some taken Creating] p(2) Creating by simp
    next
      case False
      then show ?thesis using ok p Creating D(1,2) taken
        by (intro lock_left [OF inv Some, of _ "sem_undo p l" p "?c\<lparr>stage := Exited, c_threads := []\<rparr>"])
          (auto simp: child_exit_def Some sem_undo_def sem_binary_def idle_ok_def)
    qed
  next
    case (Joining j)
    then have "taken_by l = Some p" using busy by simp
    from joining_inv [OF inv Some this Joining] p(2) Joining show ?thesis by simp
  next
    case Unlocking
    then show ?thesis using unlocking_inv [OF inv Some p(1)] p(2) by simp
  next
    case Exiting
    then have nt: "taken_by l \<noteq> Some p" using busy by simp
    have "sem_undo p l = l" using nt D(2) [of p] by (cases l) (auto simp: sem_undo_def)
    then show ?thesis using p(2) Exiting Some nt D(3) [OF nt p(1)]
      by (intro idle_moved [OF inv Some nt, of _ "?c\<lparr>stage := Exited, c_threads := []\<rparr>"])
        (auto simp: child_exit_def idle_ok_def)
  next
    case Exited
    with p show ?thesis by simp
  qed
qed

lemma child_exits:
  assumes "p < length (children s)" "child_step p ok (children s ! p) s (stage (children s ! p)) = Some t"
  shows "exits s \<le> exits t \<and> length (children t) = length (children s) \<and> parent t = parent s
    \<and> reaped t = reaped s \<and> printed t = printed s"
proof -
  have st: "stage (children s ! p) \<noteq> Exited" using assms(2) by auto
  have "\<exists>c. children t = (children s)[p := c]"
    using assms(2) by (cases "stage (children s ! p)") (auto simp: child_exit_def split: if_splits)
  moreover have "parent t = parent s" "reaped t = reaped s" "printed t = printed s"
    using assms(2) by (cases "stage (children s ! p)"; auto simp: child_exit_def split: if_splits)+
  ultimately show ?thesis using exits_update [OF assms(1) st] by (auto simp: exits_def)
qed

lemma sema_there:
  assumes "cpp_inv b G s" "parent s \<noteq> Returned"
  obtains l where "sema s = Some l"
  using assms by (cases "sema s") (auto simp: cpp_inv_def sem_inv_def)

lemma parent_inv:
  assumes inv: "cpp_inv b G s" and t: "parent_step ok s (parent s) = Some t" and ok: "b \<longrightarrow> ok"
  shows "cpp_inv b G t"
proof (cases "parent s")
  case (Forking n)
  then have "sem_inv b G t"
    using inv t by (auto simp: cpp_inv_def sem_inv_def nth_append less_Suc_eq inner_def split: option.splits if_splits)
  then show ?thesis using inv t Forking
    by (auto simp: cpp_inv_def exits_def less_2_cases_iff new_child_def split: if_splits)
next
  case (Waiting n)
  obtain l where sl: "sema s = Some l" by (rule sema_there [OF inv]) (simp add: Waiting)
  have "sema t = sema s \<and> shm_obj t = shm_obj s \<and> children t = children s"
    using t Waiting by (auto simp: Let_def split: if_splits)
  with sl have "sem_inv b G t"
    using inv by (auto simp: cpp_inv_def sem_inv_def inner_def split: option.splits)
  moreover have "exits t = exits s" using t Waiting by (auto simp: Let_def exits_def split: if_splits)
  ultimately show ?thesis using inv t Waiting exits_le [of s]
    by (auto simp: cpp_inv_def Let_def less_2_cases_iff split: if_splits)
next
  case Printing
  obtain l where l: "sema s = Some l" by (rule sema_there [OF inv]) (simp add: Printing)
  have s: "sem_inv b G s" using inv by (simp add: cpp_inv_def)
  have "exits s = length (children s)" using inv Printing exits_le [of s] by (simp add: cpp_inv_def)
  then have "stage (children s ! p) = Exited" if "p < length (children s)" for p
    using that by (rule all_exited)
  then have "taken_by l = None" using sem_invD(5) [OF s l] by (cases "taken_by l") fastforce+
  then have "b \<Longrightarrow> shm_obj s = G" using sem_invD(4) [OF s l] by simp
  moreover have "sem_inv b G t" using s t Printing l by (auto simp: sem_inv_def inner_def split: option.splits)
  ultimately show ?thesis using inv t Printing by (auto simp: cpp_inv_def exits_def)
next
  case Clearing
  obtain l where l: "sema s = Some l" by (rule sema_there [OF inv]) (simp add: Clearing)
  have s: "sem_inv b G s" using inv by (simp add: cpp_inv_def)
  have "exits s = length (children s)" using inv Clearing exits_le [of s] by (simp add: cpp_inv_def)
  then have ex: "stage (children s ! p) = Exited" if "p < length (children s)" for p
    using that by (rule all_exited)
  have "taken_by l \<noteq> Some p" for p using sem_invD(5) [OF s l, of p] ex [of p] by auto
  then have "idle_ok (children s ! p)" if "p < length (children s)" for p
    using that sem_invD(3) [OF s l, of p] by simp
  with ex t Clearing have "sem_inv b G t" by (auto simp: sem_inv_def sem_destroy_def)
  then show ?thesis using inv t Clearing by (auto simp: cpp_inv_def exits_def)
next
  case Returned
  with t show ?thesis by simp
qed

fun all_created :: "who list \<Rightarrow> bool" where
  \<comment> \<open>no \<^verbatim>\<open>fork\<close> and no \<^verbatim>\<open>pthread_create\<close> fails\<close>
  "all_created [] = True"
| "all_created (Parent ok # ws) = (ok \<and> all_created ws)"
| "all_created (Child p ok # ws) = (ok \<and> all_created ws)"
| "all_created (Thread p i # ws) = all_created ws"

lemma cpp_step_inv:
  assumes "cpp_inv b G s" "cpp_step w s = Some t" "b \<longrightarrow> all_created [w]"
  shows "cpp_inv b G t"
proof (cases w)
  case (Parent ok)
  with parent_inv [OF assms(1), of ok t] assms(2,3) show ?thesis by simp
next
  case (Child p ok)
  then have p: "p < length (children s)" "child_step p ok (children s ! p) s (stage (children s ! p)) = Some t"
    using assms(2) by (auto split: if_splits)
  from child_inv [OF _ p, of b G] child_exits [OF p] assms(1,3) Child show ?thesis
    by (auto simp: cpp_inv_def)
next
  case (Thread p i)
  then have p: "p < length (children s)" "thread_step p i (children s ! p) s = Some t"
    using assms(2) by (auto split: if_splits)
  have "length (children t) = length (children s) \<and> parent t = parent s \<and> reaped t = reaped s \<and> printed t = printed s"
    using p(2) by (auto simp: thread_step_def)
  with thread_inv [OF _ p, of b G] assms(1) show ?thesis by (auto simp: cpp_inv_def)
qed

lemma all_created_in: "all_created ws \<Longrightarrow> w \<in> set ws \<Longrightarrow> all_created [w]"
  by (induction ws rule: all_created.induct) auto

lemma cpp_run_inv: "cpp_run ws s = Some t \<Longrightarrow> cpp_inv b G s \<Longrightarrow> b \<longrightarrow> all_created ws \<Longrightarrow> cpp_inv b G t"
  by (erule (1) cpp.run_inv) (metis cpp_step_inv all_created_in)

section \<open>Every run ends\<close>

fun stage_left :: "stage \<Rightarrow> nat" where
  "stage_left Locking = 1320007"
| "stage_left (Creating j) = (if j = 0 then 1320006 else 660005)"
| "stage_left (Joining j) = (if j = 0 then 4 else 3)"
| "stage_left Unlocking = 2"
| "stage_left Exiting = 1"
| "stage_left Exited = 0"

definition codes_left :: "s64 thread list \<Rightarrow> nat" where
  "codes_left ts = sum_list (map (\<lambda>t. length (snd t)) ts)"

definition child_left :: "child \<Rightarrow> nat" where
  "child_left c = stage_left (stage c) + codes_left (c_threads c)"

fun main_left :: "parent_stage \<Rightarrow> nat" where
  "main_left (Forking n) = (if n = 0 then 2640020 else 1320012)"
| "main_left (Waiting n) = (if n = 0 then 4 else 3)"
| "main_left Printing = 2"
| "main_left Clearing = 1"
| "main_left Returned = 0"

definition cpp_left :: "cpp_state \<Rightarrow> nat" where
  "cpp_left s = main_left (parent s) + sum_list (map child_left (children s))"

lemma length_sections: "length (sections (replicate n us)) = n * (3 * length us + 2)"
proof -
  have "length (bumps us) = 3 * length us" by (induction us) auto
  then show ?thesis by (induction n) simp_all
qed

lemma length_codes: "length cpp_inc_thread = 660000" "length cpp_dec_thread = 660000"
  by (simp_all only: cpp_codes length_sections) simp_all

lemma child_left_update:
  "p < length cs \<Longrightarrow> child_left c < child_left (cs ! p) \<Longrightarrow>
   sum_list (map child_left (cs[p := c])) < sum_list (map child_left cs)"
  using sum_list_update [of p cs child_left c] by simp

lemma set_child_left:
  assumes "children t = (children s)[p := c]" "parent t = parent s" "p < length (children s)"
    "child_left c < child_left (children s ! p)"
  shows "cpp_left t < cpp_left s"
  using child_left_update [OF assms(3,4)] assms(1,2) by (simp add: cpp_left_def)

lemma step_left:
  assumes "cpp_step w s = Some t"
  shows "cpp_left t < cpp_left s"
proof (cases w)
  case (Parent ok)
  with assms show ?thesis
    by (cases "parent s") (auto simp: cpp_left_def Let_def child_left_def new_child_def codes_left_def split: if_splits)
next
  case (Child p ok)
  let ?c = "children s ! p"
  have p: "p < length (children s)" "child_step p ok ?c s (stage ?c) = Some t"
    using assms Child by (auto split: if_splits)
  have "\<exists>c. children t = (children s)[p := c] \<and> parent t = parent s \<and> child_left c < child_left ?c"
    using p(2) by (cases "stage ?c")
      (auto simp: child_exit_def child_left_def codes_left_def length_codes split: if_splits intro!: exI)
  with set_child_left p(1) show ?thesis by blast
next
  case (Thread p i)
  let ?c = "children s ! p"
  have p: "p < length (children s)" "thread_step p i ?c s = Some t"
    using assms Thread by (auto split: if_splits)
  then obtain d where d: "shared_step mutex_lock mutex_unlock i (inner ?c s) = Some d"
    "t = set_child p (?c\<lparr>m_lock := lock d, c_threads := threads d\<rparr>) (s\<lparr>shm_obj := mem d\<rparr>)"
    by (auto simp: thread_step_def)
  have "child_left (?c\<lparr>m_lock := lock d, c_threads := threads d\<rparr>) < child_left ?c"
    using step_steps_left [OF d(1)] by (simp add: child_left_def codes_left_def steps_left_def)
  with p(1) show ?thesis by (intro set_child_left) (simp_all add: d(2))
qed

lemma run_left: "cpp_run ws s = Some t \<Longrightarrow> length ws + cpp_left t \<le> cpp_left s"
  by (erule cpp.run_bound [where I = "\<lambda>_. True"]) (auto simp: step_left)

section \<open>Nobody waits for ever\<close>

lemma semop_unlock: "\<exists>l'. semop undo p 1 l = Some l'"
  by (simp add: semop_def)

lemma child_progress:
  assumes inv: "cpp_inv b G s" and l: "sema s = Some l" and p: "p < length (children s)" "stage (children s ! p) \<noteq> Exited"
  shows "\<exists>w t. all_created [w] \<and> cpp_step w s = Some t"
proof -
  have inv: "sem_inv b G s" using inv by (simp add: cpp_inv_def)
  note D = sem_invD [OF inv l]
  let ?c = "children s ! p"
  show ?thesis
  proof (cases "taken_by l")
    case None
    then have "semop True p (- 1) l \<noteq> None" using D(1) by (simp add: semop_def sem_binary_def)
    moreover have "idle_ok ?c" using None D(3) p(1) by simp
    ultimately have "cpp_step (Child p True) s \<noteq> None"
      using p l by (cases "stage ?c") (auto simp: idle_ok_def new_child_def sem_lock_def)
    then show ?thesis by (intro exI [of _ "Child p True"]) auto
  next
    case (Some q)
    let ?d = "children s ! q"
    have q: "q < length (children s)" and w: "worker_ok b G (stage ?d) (inner ?d s)" using D(5) [OF Some] by simp_all
    show ?thesis
    proof (cases "cpp_step (Child q True) s = None")
      case True
      then obtain j where j: "stage ?d = Joining j" "snd (c_threads ?d ! j) \<noteq> []"
        using q w l semop_unlock [of True q l] by (cases "stage ?d") (auto simp: sem_unlock_def split: if_splits)
      then obtain goal where g: "posix_mutex.protected goal (inner ?d s)" "j < length (c_threads ?d)"
        using w by auto
      then have "\<not> finished (inner ?d s)" using j(2) by (auto simp: finished_def list_all_length)
      then obtain i e where "shared_step mutex_lock mutex_unlock i (inner ?d s) = Some e"
        using posix_mutex.protected_progress [OF g(1)] by (auto simp: stuck_def)
      then have "cpp_step (Thread q i) s \<noteq> None" using q by (simp add: thread_step_def)
      then show ?thesis by (intro exI [of _ "Thread q i"]) auto
    qed (auto intro!: exI [of _ "Child q True"])
  qed
qed

lemma cpp_can_move:
  assumes inv: "cpp_inv b G s" and nr: "parent s \<noteq> Returned"
  shows "\<exists>w t. all_created [w] \<and> cpp_step w s = Some t"
proof (cases "parent_step True s (parent s)")
  case None
  obtain l where l: "sema s = Some l" by (rule sema_there [OF inv nr])
  obtain n where "parent s = Waiting n" "exits s \<le> reaped s" "reaped s \<noteq> length (children s)"
    using nr None by (cases "parent s") (auto simp: Let_def split: if_splits)
  then have "exits s \<noteq> length (children s)" using inv by (auto simp: cpp_inv_def)
  then have "\<exists>c\<in>set (children s). stage c \<noteq> Exited"
    unfolding exits_def by (rule contrapos_np) simp
  then obtain p where "p < length (children s)" "stage (children s ! p) \<noteq> Exited"
    by (auto simp: in_set_conv_nth)
  from child_progress [OF inv l this] show ?thesis .
next
  case (Some t)
  then show ?thesis by (intro exI [of _ "Parent True"] exI [of _ t]) simp
qed

lemma cpp_progress:
  assumes inv: "cpp_inv b G s"
  shows "(\<forall>w. cpp_step w s = None) \<longleftrightarrow> parent s = Returned"
proof
  assume r: "parent s = Returned"
  have "exits s = length (children s)" using inv r exits_le [of s] by (simp add: cpp_inv_def)
  then have ex: "stage (children s ! p) = Exited" if "p < length (children s)" for p
    using that by (rule all_exited)
  have sem: "sem_inv b G s" using inv by (simp add: cpp_inv_def)
  have idle: "idle_ok (children s ! p)" if "p < length (children s)" for p
  proof (cases "sema s")
    case None
    with sem that show ?thesis by (simp add: sem_inv_def)
  next
    case (Some l)
    have "taken_by l \<noteq> Some p" using sem_invD(5) [OF sem Some, of p] ex [of p] by auto
    then show ?thesis using sem_invD(3) [OF sem Some] that by blast
  qed
  show "\<forall>w. cpp_step w s = None"
  proof
    fix w
    show "cpp_step w s = None"
    proof (cases w)
      case (Thread p i)
      then show ?thesis using idle_no_step [OF idle, of p i] by (simp add: thread_step_def)
    next
      case (Child p ok)
      then show ?thesis using ex [of p] by simp
    qed (simp add: r)
  qed
next
  assume stuck: "\<forall>w. cpp_step w s = None"
  show "parent s = Returned"
  proof (rule ccontr)
    assume "parent s \<noteq> Returned"
    from cpp_can_move [OF inv this] stuck show False by auto
  qed
qed

lemma all_created_list: "list_all (\<lambda>w. all_created [w]) ws = all_created ws"
  by (induction ws rule: all_created.induct) auto

lemma cpp_completes:
  assumes "cpp_inv b G s"
  shows "\<exists>ws t. all_created ws \<and> cpp_run ws s = Some t \<and> parent t = Returned"
proof -
  have "\<exists>ws t. list_all (\<lambda>w. all_created [w]) ws \<and> cpp_run ws s = Some t \<and> cpp_inv b G t \<and> parent t = Returned"
    using assms by (rule cpp.run_completes [where f = cpp_left]) (use cpp_can_move cpp_step_inv step_left in blast)+
  then show ?thesis unfolding all_created_list by blast
qed

section \<open>What is left in the kernel\<close>

definition alive_children :: "cpp_state \<Rightarrow> nat" where
  "alive_children s = sum_list (map (\<lambda>c. if stage c = Exited then 0 else 1) (children s))"

definition seg_inv :: "nat \<Rightarrow> cpp_state \<Rightarrow> bool" where
  \<comment> \<open>\<open>k\<close> other processes are attached to the segment\<close>
  "seg_inv k s \<longleftrightarrow> (parent s = Returned \<longrightarrow> sema s = None) \<and>
     (\<exists>z. shm s = (if parent s = Returned then collect \<lparr>seg_bytes = z, nattch = k + alive_children s, seg_removed = True\<rparr>
                    else Some \<lparr>seg_bytes = z, nattch = k + Suc (alive_children s), seg_removed = False\<rparr>))"

lemma alive_update:
  "p < length (children s) \<Longrightarrow> children t = (children s)[p := c] \<Longrightarrow>
   alive_children t + (if stage (children s ! p) = Exited then 0 else 1)
     = alive_children s + (if stage c = Exited then 0 else 1)"
  using sum_list_update [of p "children s" "\<lambda>c. if stage c = Exited then 0 else 1 :: nat" c]
  by (simp add: alive_children_def)

lemma seg_inv_same:
  "seg_inv k s \<Longrightarrow> shm t = shm s \<Longrightarrow> parent t = parent s \<Longrightarrow> sema s = None \<longrightarrow> sema t = None \<Longrightarrow>
   alive_children t = alive_children s \<Longrightarrow> seg_inv k t"
  by (cases "parent s = Returned") (auto simp: seg_inv_def)

lemma seg_inv_exit:
  assumes "seg_inv k s" "p < length (children s)" "stage (children s ! p) \<noteq> Exited"
  shows "seg_inv k (child_exit p c s)"
proof -
  let ?t = "child_exit p c s"
  have a: "alive_children s = Suc (alive_children ?t)"
    using alive_update [OF assms(2), of ?t "c\<lparr>stage := Exited, c_threads := []\<rparr>"] assms(3)
    by (simp add: child_exit_def)
  have t: "shm ?t = Option.bind (shm s) shmdt" "parent ?t = parent s" "sema s = None \<Longrightarrow> sema ?t = None"
    by (simp_all add: child_exit_def set_child_def detach_shared_mem_def)
  show ?thesis
  proof (cases "parent s = Returned")
    case True
    with assms(1) obtain z where "shm s = Some \<lparr>seg_bytes = z, nattch = Suc (k + alive_children ?t), seg_removed = True\<rparr>"
      "sema s = None" by (auto simp: seg_inv_def a collect_def)
    with t True show ?thesis by (auto simp: seg_inv_def shmdt_def)
  next
    case False
    with assms(1) obtain z where "shm s = Some \<lparr>seg_bytes = z, nattch = k + Suc (Suc (alive_children ?t)), seg_removed = False\<rparr>"
      by (auto simp: seg_inv_def a)
    with t False show ?thesis by (auto simp: seg_inv_def shmdt_def collect_def)
  qed
qed

lemma seg_inv_step:
  assumes inv: "seg_inv k s" "cpp_inv b G s" and t: "cpp_step w s = Some t"
  shows "seg_inv k t"
proof (cases w)
  case (Parent ok)
  show ?thesis
  proof (cases "parent s")
    case (Forking n)
    with inv(1) t Parent show ?thesis
      by (auto simp: seg_inv_def alive_children_def new_child_def shmat_def split: if_splits)
  next
    case (Waiting n)
    with inv(1) t Parent show ?thesis by (auto simp: seg_inv_def alive_children_def Let_def split: if_splits)
  next
    case Printing
    with inv(1) t Parent show ?thesis by (auto simp: seg_inv_def alive_children_def)
  next
    case Clearing
    with inv(1) t Parent show ?thesis
      by (auto simp: seg_inv_def alive_children_def sem_destroy_def destory_shared_mem_def detach_shared_mem_def
        shmdt_def shm_rmid_def collect_def)
  qed (use t Parent in simp)
next
  case (Child p ok)
  let ?c = "children s ! p"
  have p: "p < length (children s)" "child_step p ok ?c s (stage ?c) = Some t"
    using t Child by (auto split: if_splits)
  show ?thesis
  proof (cases "t = child_exit p ?c s \<and> stage ?c \<noteq> Exited")
    case True
    with seg_inv_exit [OF inv(1) p(1)] show ?thesis by simp
  next
    case False
    then have "children t = (children s)[p := children t ! p] \<and> stage (children t ! p) \<noteq> Exited \<and> stage ?c \<noteq> Exited
        \<and> shm t = shm s \<and> parent t = parent s \<and> (sema s = None \<longrightarrow> sema t = None)"
      using p by (cases "stage ?c") (auto simp: set_child_def sem_lock_def sem_unlock_def split: if_splits)
    with alive_update [OF p(1), of t "children t ! p"] inv(1) show ?thesis by (auto intro: seg_inv_same)
  qed
next
  case (Thread p i)
  then obtain c m where p: "p < length (children s)" "t = set_child p c (s\<lparr>shm_obj := m\<rparr>)" "stage c = stage (children s ! p)"
    using t by (auto simp: thread_step_def set_child_def split: if_splits)
  then have "alive_children t = alive_children s"
    using alive_update [OF p(1), of t c] by (simp add: p(2) set_child_def split: if_splits)
  then show ?thesis by (intro seg_inv_same [OF inv(1)]) (simp_all add: p(2) set_child_def)
qed

section \<open>The program\<close>

definition attached :: "segment option \<Rightarrow> nat" where
  "attached g = (case g of None \<Rightarrow> 0 | Some s \<Rightarrow> nattch s)"

lemma cpp_main_seg:
  assumes "cpp_main True True True tab segs m = Some s" "\<forall>g. segs 2222 = Some g \<longrightarrow> \<not> seg_removed g"
  shows "seg_inv (attached (segs 2222)) s"
proof (cases "segs 2222")
  case None
  with assms(1) show ?thesis
    by (auto simp: seg_inv_def cpp_main_def Shared_mem_def attached_def alive_children_def shmat_def segment_of_def
        split: prod.splits)
next
  case (Some g)
  with assms show ?thesis
    by (cases g) (auto simp: seg_inv_def cpp_main_def Shared_mem_def attached_def alive_children_def shmat_def
        split: prod.splits)
qed

lemma cpp_run_seg:
  assumes "cpp_run ws s = Some t" "cpp_inv False G s" "seg_inv k s"
  shows "seg_inv k t \<and> cpp_inv False G t"
  using assms(1) by (rule cpp.run_inv) (use assms seg_inv_step cpp_step_inv in blast)+

lemma cpp_main_inv:
  assumes "cpp_main True True True tab segs m = Some s" "\<forall>n l. tab 3333 = Some (n, l) \<longrightarrow> 1 \<le> n"
  shows "cpp_inv b (m(0 := 10, 1 := 12, 2 := 14)) s \<and> cpp_left s = 2640020"
proof -
  have "sema s = Some (sem_setval 1)" "children s = []" "parent s = Forking 0" "reaped s = 0" "printed s = []"
    "shm_obj s = m(0 := 10, 1 := 12, 2 := 14)"
    using assms by (auto simp: cpp_main_def Shared_mem_def Semaphore_def sem_create_def set_sema_val_def split: option.splits)
  then show ?thesis
    by (simp add: cpp_inv_def sem_inv_def sem_setval_def sem_binary_def exits_def cpp_left_def)
qed

text \<open>
  C20. The C++ program works under both of its locks: whatever the shared memory held before and
  however parent, children and threads are scheduled, no run is longer than 2640020 steps, some
  process can move until \<^verbatim>\<open>main\<close> returns, and if every \<^verbatim>\<open>fork\<close> and \<^verbatim>\<open>pthread_create\<close> succeeds the
  values printed are 10, 12 and 14.
\<close>

theorem cpp_program_exact:
  assumes "cpp_main True True True tab segs m = Some s" "\<forall>n l. tab 3333 = Some (n, l) \<longrightarrow> 1 \<le> n"
    and "cpp_run ws s = Some t" "all_created ws"
  shows "length ws \<le> 2640020 \<and> ((\<forall>w. cpp_step w t = None) \<longleftrightarrow> parent t = Returned)
    \<and> (parent t = Returned \<longrightarrow> printed t = [10, 12, 14])"
proof -
  have "cpp_inv True (m(0 := 10, 1 := 12, 2 := 14)) t" "length ws \<le> 2640020"
    using cpp_run_inv [OF assms(3), of True] run_left [OF assms(3)] cpp_main_inv [OF assms(1,2)] assms(4) by auto
  with cpp_progress [OF this(1)] show ?thesis by (auto simp: cpp_inv_def)
qed

theorem cpp_program_exact_witness:
  "\<exists>s ws t. cpp_main True True True (\<lambda>_. None) (\<lambda>_. None) (\<lambda>_. 7) = Some s \<and> cpp_run ws s = Some t \<and> all_created ws
     \<and> parent t = Returned \<and> printed t = [10, 12, 14] \<and> length ws \<le> 2640020"
proof -
  obtain s where s: "cpp_main True True True (\<lambda>_. None) (\<lambda>_. None) (\<lambda>_. 7) = Some s"
    by (simp add: cpp_main_def Shared_mem_def Semaphore_def sem_create_def)
  have "cpp_inv True ((\<lambda>_. 7)(0 := 10, 1 := 12, 2 := 14)) s" using cpp_main_inv [OF s] by simp
  then obtain ws t where "all_created ws" "cpp_run ws s = Some t" "parent t = Returned"
    using cpp_completes by blast
  with cpp_program_exact [OF s _ this(2,1)] s show ?thesis by (intro exI [of _ s] exI [of _ ws] exI [of _ t]) simp
qed

text \<open>
  C21. The undo of semaphore operations keeps the program alive when threads cannot be created: a
  child that exits inside its section without \<^verbatim>\<open>sem_unlock\<close> does not lock out the other one, and
  \<^verbatim>\<open>main\<close> returns in every run, whichever \<^verbatim>\<open>fork\<close> and \<^verbatim>\<open>pthread_create\<close> fail.  Then it has left nothing in
  the kernel: the semaphore is gone, and so is the segment, unless other processes are attached to it.
\<close>

theorem failed_threads_release_semaphore:
  assumes "cpp_main True True True tab segs m = Some s" "\<forall>n l. tab 3333 = Some (n, l) \<longrightarrow> 1 \<le> n"
    and "\<forall>g. segs 2222 = Some g \<longrightarrow> \<not> seg_removed g" and "cpp_run ws s = Some t"
  shows "length ws \<le> 2640020 \<and> ((\<forall>w. cpp_step w t = None) \<longleftrightarrow> parent t = Returned)
    \<and> (parent t = Returned \<longrightarrow> sema t = None
         \<and> (shm t = None \<longleftrightarrow> attached (segs 2222) = 0) \<and> attached (shm t) = attached (segs 2222))"
proof -
  note m = cpp_main_inv [OF assms(1,2)]
  have t: "seg_inv (attached (segs 2222)) t" "cpp_inv False (m(0 := 10, 1 := 12, 2 := 14)) t"
    using cpp_run_seg [OF assms(4) _ cpp_main_seg [OF assms(1,3)]] m by auto
  have "alive_children t = 0" if "parent t = Returned"
  proof -
    have "exits t = length (children t)" using t(2) that exits_le [of t] by (simp add: cpp_inv_def)
    then have "\<forall>c\<in>set (children t). stage c = Exited" using all_exited by (metis in_set_conv_nth)
    then show ?thesis by (simp add: alive_children_def)
  qed
  with t(1) have "parent t = Returned \<longrightarrow> sema t = None
      \<and> (shm t = None \<longleftrightarrow> attached (segs 2222) = 0) \<and> attached (shm t) = attached (segs 2222)"
    by (auto simp: seg_inv_def collect_def attached_def split: if_splits)
  with run_left [OF assms(4)] m cpp_progress [OF t(2)] show ?thesis by simp
qed

theorem failed_threads_release_semaphore_witness:
  "\<exists>s t l. cpp_main True True True (\<lambda>_. None) (\<lambda>_. None) (\<lambda>_. 7) = Some s
     \<and> cpp_run [Parent True, Parent True, Child 0 True, Child 0 True, Child 0 False, Child 1 True] s = Some t
     \<and> sema t = Some l \<and> taken_by l = Some 1 \<and> \<not> (\<forall>w. cpp_step w t = None)"
proof -
  obtain s where s: "cpp_main True True True (\<lambda>_. None) (\<lambda>_. None) (\<lambda>_. 7) = Some s"
    by (simp add: cpp_main_def Shared_mem_def Semaphore_def sem_create_def)
  then have f: "sema s = Some (sem_setval 1)" "children s = []" "parent s = Forking 0"
    by (auto simp: cpp_main_def Shared_mem_def Semaphore_def sem_create_def set_sema_val_def)
  let ?ws = "[Parent True, Parent True, Child 0 True, Child 0 True, Child 0 False, Child 1 True]"
  obtain t l where t: "cpp_run ?ws s = Some t" "sema t = Some l" "taken_by l = Some 1" "parent t = Waiting 0"
    by (simp add: f sem_lock_def semop_def sem_setval_def new_child_def set_child_def child_exit_def sem_undo_def)
  with failed_threads_release_semaphore [OF s _ _ t(1)] s show ?thesis
    by (intro exI [of _ s] exI [of _ t] exI [of _ l]) auto
qed

end
