(* ===== verification/Segment_Lifetime.thy ===== *)
theory Segment_Lifetime
  imports Machine
begin

text \<open>
  How long the shared memory segment of \<^verbatim>\<open>linux_task/shared_memory_process/process1.c\<close> and
  \<^verbatim>\<open>process2.c\<close> lives.  Both programs get it by the same key, attach, count, mark it for removal and
  detach; each of these is one step here (the counting is the subject of \<open>Race_Programs\<close>).  A segment
  marked for removal loses its key and exists until nobody is attached.
\<close>

datatype life = Begun | Got nat | Attached nat | Counted nat | Marked nat | Finished | Failed

record seg_state =
  segs :: "(nat \<times> bool) option list"     \<comment> \<open>by identifier: number of attaches, marked for removal\<close>
  seg_key :: "nat option"                  \<comment> \<open>the identifier the key leads to\<close>
  lives :: "life list"                     \<comment> \<open>the two processes\<close>

definition drop_unused :: "nat \<times> bool \<Rightarrow> (nat \<times> bool) option" where
  "drop_unused s = (if fst s = 0 \<and> snd s then None else Some s)"

definition life_to :: "nat \<Rightarrow> life \<Rightarrow> seg_state \<Rightarrow> seg_state" where
  "life_to p l s = s\<lparr>lives := (lives s)[p := l]\<rparr>"

definition life_get :: "nat \<Rightarrow> seg_state \<Rightarrow> seg_state" where
  \<comment> \<open>\<^verbatim>\<open>shmget(SHM_IPC_KEY, PAGE_SIZE*1, IPC_CREAT|0777)\<close>\<close>
  "life_get p s =
     (case seg_key s of
        Some i \<Rightarrow> life_to p (Got i) s
      | None \<Rightarrow> life_to p (Got (length (segs s)))
          (s\<lparr>segs := segs s @ [Some (0, False)], seg_key := Some (length (segs s))\<rparr>))"

definition life_at :: "nat \<Rightarrow> nat \<Rightarrow> seg_state \<Rightarrow> seg_state" where
  \<comment> \<open>\<^verbatim>\<open>shmat(shm_id, NULL, 0)\<close>; without the segment the program returns \<^verbatim>\<open>EXIT_FAILURE\<close>\<close>
  "life_at p i s =
     (case segs s ! i of
        None \<Rightarrow> life_to p Failed s
      | Some (n, r) \<Rightarrow> life_to p (Attached i) (s\<lparr>segs := (segs s)[i := Some (n + 1, r)]\<rparr>))"

definition life_rmid :: "nat \<Rightarrow> nat \<Rightarrow> seg_state \<Rightarrow> seg_state" where
  \<comment> \<open>\<^verbatim>\<open>shmctl(shm_id, IPC_RMID, 0)\<close>\<close>
  "life_rmid p i s =
     (case segs s ! i of
        None \<Rightarrow> life_to p Failed s
      | Some (n, r) \<Rightarrow> life_to p (Marked i)
          (s\<lparr>segs := (segs s)[i := drop_unused (n, True)],
             seg_key := (if seg_key s = Some i then None else seg_key s)\<rparr>))"

definition life_dt :: "nat \<Rightarrow> nat \<Rightarrow> seg_state \<Rightarrow> seg_state" where
  \<comment> \<open>\<^verbatim>\<open>shmdt(shared_at)\<close>\<close>
  "life_dt p i s =
     (case segs s ! i of
        None \<Rightarrow> life_to p Failed s
      | Some (n, r) \<Rightarrow> life_to p Finished (s\<lparr>segs := (segs s)[i := drop_unused (n - 1, r)]\<rparr>))"

definition life_step :: "nat \<Rightarrow> seg_state \<Rightarrow> seg_state option" where
  "life_step p s =
     (if p \<ge> length (lives s) then None
      else case lives s ! p of
        Begun \<Rightarrow> Some (life_get p s)
      | Got i \<Rightarrow> Some (life_at p i s)
      | Attached i \<Rightarrow> Some (life_to p (Counted i) s)
      | Counted i \<Rightarrow> Some (life_rmid p i s)
      | Marked i \<Rightarrow> Some (life_dt p i s)
      | _ \<Rightarrow> None)"

fun life_run :: "nat list \<Rightarrow> seg_state \<Rightarrow> seg_state option" where
  "life_run [] s = Some s"
| "life_run (p # ps) s = (case life_step p s of None \<Rightarrow> None | Some t \<Rightarrow> life_run ps t)"

definition both_begun :: seg_state where
  "both_begun = \<lparr>segs = [], seg_key = None, lives = [Begun, Begun]\<rparr>"

definition life_successors :: "seg_state \<Rightarrow> seg_state list" where
  "life_successors s = concat (map (\<lambda>p. case life_step p s of None \<Rightarrow> [] | Some t \<Rightarrow> [t]) [0..<length (lives s)])"

interpretation life: exploration life_step life_run life_successors
proof
  fix p s t
  show "life_step p s = Some t \<Longrightarrow> t \<in> set (life_successors s)"
    by (cases "p < length (lives s)") (auto simp: life_successors_def life_step_def intro!: bexI [of _ p])
qed (auto simp: life_successors_def split: option.splits)

definition life_ok :: "seg_state \<Rightarrow> bool" where
  \<comment> \<open>no process is attached to a segment that is gone; at the end no segment is left and a process
     has finished\<close>
  "life_ok s \<longleftrightarrow>
     list_all (\<lambda>l. case l of Attached i \<Rightarrow> segs s ! i \<noteq> None | Counted i \<Rightarrow> segs s ! i \<noteq> None
                    | Marked i \<Rightarrow> segs s ! i \<noteq> None | _ \<Rightarrow> True) (lives s)
     \<and> (life_successors s = [] \<longrightarrow> list_all (\<lambda>g. g = None) (segs s) \<and> seg_key s = None
          \<and> Finished \<in> set (lives s) \<and> set (lives s) \<subseteq> {Finished, Failed})"

lemma life_explored: "explored life_successors life_ok 10 [both_begun]"
  by code_simp

text \<open>
  The segment never leaks and never vanishes under a process: in every interleaving of the two
  programs no process counts in a segment that has been destroyed, and when both have ended no
  segment is left and at least one of them has finished.  One of them can fail: if the other removes
  the segment between its \<^verbatim>\<open>shmget\<close> and its \<^verbatim>\<open>shmat\<close>.
\<close>

lemma segment_lifetime:
  assumes "life_run ps both_begun = Some s"
  shows "length ps \<le> 10 \<and> life_ok s \<and> ((\<exists>p. life_step p s \<noteq> None) \<or> list_all (\<lambda>g. g = None) (segs s))"
  using life.explored_run [OF assms life_explored] life.no_succ [of s] by (auto simp: life_ok_def)

lemma segment_may_vanish:
  "\<exists>s. life_run [0, 1, 0, 0, 0, 0, 1] both_begun = Some s \<and> lives s = [Finished, Failed]"
proof -
  have "map_option lives (life_run [0, 1, 0, 0, 0, 0, 1] both_begun) = Some [Finished, Failed]" by code_simp
  then show ?thesis by auto
qed

end
