(* ===== verification/Reaping.thy ===== *)
theory Reaping
  imports Prelude
begin

text \<open>
  The end of the parent in \<^verbatim>\<open>other/semaphore.c\<close> and \<^verbatim>\<open>other/sharedMem.c\<close>: \<^verbatim>\<open>waitpid(-1, ...)\<close> until no
  child is left, a report on each, and the final values of the shared memory, which the first program
  prints after and the second before it has waited.
\<close>

datatype wait_status = Exit_status int | Term_signal int

datatype wait_line = Cleaned_up int | Normal_success int | Normal_failure int | By_signal int | Final_values s32 s32

fun wait_report :: "int \<times> wait_status \<Rightarrow> wait_line list" where
  "wait_report (pid, Exit_status n) = [Cleaned_up pid, if n = 0 then Normal_success n else Normal_failure n]"
| "wait_report (pid, Term_signal n) = [Cleaned_up pid, By_signal n]"

fun wait_loop :: "(int \<times> (int \<times> wait_status)) list \<Rightarrow> wait_line list option" where
  \<comment> \<open>for each call of \<^verbatim>\<open>waitpid\<close> its result and the pid and status of the child; \<open>None\<close>: it is still waiting\<close>
  "wait_loop [] = None"
| "wait_loop ((r, w) # ws) = (if r > 0 then map_option ((@) (wait_report w)) (wait_loop ws) else Some [])"

definition semaphore_cleanup :: "(int \<times> (int \<times> wait_status)) list \<Rightarrow> (nat \<Rightarrow> s32) \<Rightarrow> wait_line list option" where
  \<comment> \<open>the memory when the loop is left\<close>
  "semaphore_cleanup ws m = map_option (\<lambda>out. out @ [Final_values (m 0) (m 1)]) (wait_loop ws)"

definition sharedMem_cleanup :: "(nat \<Rightarrow> s32) \<Rightarrow> (int \<times> (int \<times> wait_status)) list \<Rightarrow> wait_line list option" where
  \<comment> \<open>the memory when the parent has finished counting, whatever the child is doing\<close>
  "sharedMem_cleanup m ws = map_option ((#) (Final_values (m 0) (m 1))) (wait_loop ws)"

definition waits :: "(int \<times> wait_status) list \<Rightarrow> (int \<times> (int \<times> wait_status)) list" where
  \<comment> \<open>the calls when the children \<open>cs\<close> end in this order: their pids, then -1\<close>
  "waits cs = map (\<lambda>c. (fst c, c)) cs @ [(- 1, (0, Exit_status 0))]"

lemma wait_loop_reports:
  "list_all (\<lambda>c. 0 < fst c) cs \<Longrightarrow> wait_loop (waits cs) = Some (concat (map wait_report cs))"
  by (induction cs) (auto simp: waits_def)

lemma all_children_reported:
  assumes "list_all (\<lambda>c. 0 < fst c) cs"
  shows "semaphore_cleanup (waits cs) m = Some (concat (map wait_report cs) @ [Final_values (m 0) (m 1)])"
    "sharedMem_cleanup m (waits cs) = Some (Final_values (m 0) (m 1) # concat (map wait_report cs))"
  using wait_loop_reports [OF assms] by (simp_all add: semaphore_cleanup_def sharedMem_cleanup_def)

end
