(* ===== verification/Socket_Server.thy ===== *)
theory Socket_Server
  imports Kernel_IO
begin

text \<open>
  The chat server of \<^verbatim>\<open>socket/multi_client_rec\<close>: \<^verbatim>\<open>main\<close> accepts connections and starts a
  reader thread for each, handing it the address of its one variable \<^verbatim>\<open>cl_soc_fd\<close>; the readers put
  what they receive on a pipe; the action thread prints it.  Every atomic piece between two blocking
  calls is an \<open>action\<close>, so a schedule is a list of actions.  A connection is the list of the payloads
  its client sends and whether the client goes away after them without \<^verbatim>\<open>"end"\<close>; both ends transfer
  whole structures, so a stream is a list of payloads, and payloads not sent yet are payloads not read
  yet.  The pipe is taken to be never full (the action thread keeps emptying it) and the writes into
  the pipe and the sockets to succeed.
\<close>

section \<open>The client\<close>

record sock_payload =
  sp_no :: s32
  sp_str :: "char list"      \<comment> \<open>\<^verbatim>\<open>char str[20]\<close>\<close>

fun client_main :: "char list \<Rightarrow> sock_payload \<Rightarrow> string list \<Rightarrow> sock_payload list outcome" where
  \<comment> \<open>the buffer of \<^verbatim>\<open>scanf\<close>, the payload, the words typed: what is written to the socket\<close>
  "client_main buff p [] = Blocked"
| "client_main buff p (w # ws) =
     (let p = p\<lparr>sp_no := 1\<rparr>
      in case strcpy buff w of
           None \<Rightarrow> Fault
         | Some buff \<Rightarrow>
             (case strcpy (sp_str p) (cstr buff) of
                None \<Rightarrow> Fault
              | Some str \<Rightarrow>
                  let p = p\<lparr>sp_str := str\<rparr>
                  in if strcmp_eq buff ''end'' then Done [p]
                     else bind_outcome (client_main buff p ws) (\<lambda>ps. Done (p # ps))))"

section \<open>The server\<close>

record pipe_payload =
  pp_no :: s32
  client_id :: int
  pp_str :: "char list"      \<comment> \<open>\<^verbatim>\<open>char str[20]\<close>\<close>

type_synonym connection = "sock_payload list \<times> bool"

datatype reader =
    Fresh                                   \<comment> \<open>created, has not read \<^verbatim>\<open>*arg\<close> yet\<close>
  | Reading int sock_payload pipe_payload   \<comment> \<open>\<^verbatim>\<open>cl_soc_fd\<close>, \<^verbatim>\<open>soc_payload\<close>, \<^verbatim>\<open>read_msg\<close> at the \<^verbatim>\<open>read\<close>\<close>
  | Sending int sock_payload pipe_payload   \<comment> \<open>at the call of \<^verbatim>\<open>send_message\<close>\<close>
  | Exited

datatype main_pc = Accepting | Creating

record server =
  cl_soc_fd :: int                          \<comment> \<open>the variable of \<^verbatim>\<open>main\<close> the readers point to\<close>
  main_at :: main_pc
  thread_id_flag :: nat
  readers :: "reader list"
  conns :: "int \<Rightarrow> connection option"       \<comment> \<open>open descriptors: payloads to read, hang-up\<close>
  pending :: "connection list"              \<comment> \<open>connections not accepted yet\<close>
  pipe_q :: "pipe_payload list"
  shown :: "(int \<times> string) list"           \<comment> \<open>lines printed: client and payload\<close>
  accepted :: "(int \<times> connection) list"    \<comment> \<open>history of \<^verbatim>\<open>accept\<close> (not in the code)\<close>

datatype action =
    Accept int | Accept_fails | Create bool | Start nat | Read nat | Send nat | Serve

definition server_main :: "bool \<Rightarrow> bool \<Rightarrow> bool \<Rightarrow> connection list \<Rightarrow> int + server" where
  \<comment> \<open>results of \<^verbatim>\<open>socket\<close>, \<^verbatim>\<open>bind\<close> and \<^verbatim>\<open>listen\<close>; a failed \<^verbatim>\<open>pipe\<close> is only printed and not modelled\<close>
  "server_main socket_ok bind_ok listen_ok clients =
     (if \<not> socket_ok then Inl 1 else if \<not> bind_ok then Inl 1 else if \<not> listen_ok then Inl 1
      else Inr \<lparr>cl_soc_fd = 0, main_at = Accepting, thread_id_flag = 0, readers = [], conns = (\<lambda>_. None),
                pending = clients, pipe_q = [], shown = [], accepted = []\<rparr>)"

definition main_accept :: "int \<Rightarrow> server \<Rightarrow> server outcome" where
  \<comment> \<open>the kernel returns a descriptor that is not in use\<close>
  "main_accept fd s =
     (if main_at s \<noteq> Accepting \<or> fd < 0 \<or> conns s fd \<noteq> None then Blocked
      else case pending s of
        [] \<Rightarrow> Blocked
      | c # cs \<Rightarrow> Done (s\<lparr>cl_soc_fd := fd, main_at := Creating, conns := (conns s)(fd \<mapsto> c), pending := cs,
                       accepted := accepted s @ [(fd, c)]\<rparr>))"

definition main_accept_fails :: "server \<Rightarrow> server outcome" where
  \<comment> \<open>printed only; the loop body goes on with -1\<close>
  "main_accept_fails s =
     (if main_at s \<noteq> Accepting then Blocked else Done (s\<lparr>cl_soc_fd := -1, main_at := Creating\<rparr>))"

definition main_create :: "bool \<Rightarrow> server \<Rightarrow> server outcome" where
  \<comment> \<open>\<^verbatim>\<open>pthread_create\<close> and the store into \<^verbatim>\<open>thread_id_arr[20]\<close>\<close>
  "main_create ok s =
     (if main_at s \<noteq> Creating then Blocked
      else let s = (if ok then s\<lparr>readers := readers s @ [Fresh]\<rparr> else s)
           in if thread_id_flag s < 20
              then Done (s\<lparr>thread_id_flag := thread_id_flag s + 1, main_at := Accepting\<rparr>)
              else Fault)"

definition set_reader :: "nat \<Rightarrow> reader \<Rightarrow> server \<Rightarrow> server" where
  "set_reader i r s = s\<lparr>readers := (readers s)[i := r]\<rparr>"

definition reader_start :: "sock_payload \<Rightarrow> pipe_payload \<Rightarrow> nat \<Rightarrow> server \<Rightarrow> server outcome" where
  \<comment> \<open>\<^verbatim>\<open>cl_soc_fd = *ptr\<close>; the two local structures start with whatever the stack holds\<close>
  "reader_start p m i s =
     (if i < length (readers s) \<and> readers s ! i = Fresh
      then Done (set_reader i (Reading (cl_soc_fd s) p m) s) else Blocked)"

definition handle_payload :: "nat \<Rightarrow> int \<Rightarrow> sock_payload \<Rightarrow> pipe_payload \<Rightarrow> server \<Rightarrow> server outcome" where
  \<comment> \<open>the part of the loop after the \<^verbatim>\<open>read\<close>\<close>
  "handle_payload i fd p m s =
     (if \<not> terminated (sp_str p) then Fault
      else if strcmp_eq (sp_str p) ''end''
      then Done (set_reader i Exited (s\<lparr>conns := (conns s)(fd := None)\<rparr>))
      else case strcpy (pp_str m) (cstr (sp_str p)) of
        None \<Rightarrow> Fault
      | Some str \<Rightarrow> Done (set_reader i (Sending fd p (m\<lparr>pp_no := 1, client_id := fd, pp_str := str\<rparr>)) s))"

definition reader_read :: "nat \<Rightarrow> server \<Rightarrow> server outcome" where
  \<comment> \<open>a \<^verbatim>\<open>read\<close> that fails or finds the end of the stream leaves the payload as it was\<close>
  "reader_read i s =
     (if i \<ge> length (readers s) then Blocked
      else case readers s ! i of
        Reading fd p m \<Rightarrow>
          (case conns s fd of
             None \<Rightarrow> handle_payload i fd p m s
           | Some (f # fs, h) \<Rightarrow> handle_payload i fd f m (s\<lparr>conns := (conns s)(fd \<mapsto> (fs, h))\<rparr>)
           | Some ([], h) \<Rightarrow> if h then handle_payload i fd p m s else Blocked)
      | _ \<Rightarrow> Blocked)"

definition reader_send :: "nat \<Rightarrow> server \<Rightarrow> server outcome" where
  "reader_send i s =
     (if i \<ge> length (readers s) then Blocked
      else case readers s ! i of
        Sending fd p m \<Rightarrow> Done (set_reader i (Reading fd p m) (s\<lparr>pipe_q := pipe_q s @ [m]\<rparr>))
      | _ \<Rightarrow> Blocked)"

definition server_action :: "server \<Rightarrow> server outcome" where
  "server_action s =
     (case pipe_q s of
        [] \<Rightarrow> Blocked
      | m # q \<Rightarrow> Done (s\<lparr>pipe_q := q, shown := shown s @ [(client_id m, cstr (pp_str m))]\<rparr>))"

fun srv_step :: "sock_payload \<Rightarrow> pipe_payload \<Rightarrow> action \<Rightarrow> server \<Rightarrow> server outcome" where
  "srv_step p m (Accept fd) s = main_accept fd s"
| "srv_step p m Accept_fails s = main_accept_fails s"
| "srv_step p m (Create ok) s = main_create ok s"
| "srv_step p m (Start i) s = reader_start p m i s"
| "srv_step p m (Read i) s = reader_read i s"
| "srv_step p m (Send i) s = reader_send i s"
| "srv_step p m Serve s = server_action s"

fun srv_run :: "sock_payload \<Rightarrow> pipe_payload \<Rightarrow> action list \<Rightarrow> server \<Rightarrow> server outcome" where
  "srv_run p m [] s = Done s"
| "srv_run p m (a # as) s = bind_outcome (srv_step p m a s) (srv_run p m as)"

section \<open>Bookkeeping of messages\<close>

definition texts :: "sock_payload list \<Rightarrow> string list" where
  "texts fs = map (\<lambda>f. cstr (sp_str f)) fs"

definition said :: "int \<Rightarrow> server \<Rightarrow> string list" where
  \<comment> \<open>what the clients accepted as \<open>fd\<close> say before their final payload\<close>
  "said fd s = concat (map (\<lambda>(f, c). if f = fd then texts (butlast (fst c)) else []) (accepted s))"

definition heard :: "int \<Rightarrow> server \<Rightarrow> string list" where
  "heard fd s = map snd (filter (\<lambda>l. fst l = fd) (shown s))"

definition queued :: "int \<Rightarrow> server \<Rightarrow> string list" where
  "queued fd s = map (\<lambda>m. cstr (pp_str m)) (filter (\<lambda>m. client_id m = fd) (pipe_q s))"

definition in_hand :: "int \<Rightarrow> reader list \<Rightarrow> string list" where
  "in_hand fd rs =
     concat (map (\<lambda>r. case r of Sending f p m \<Rightarrow> if f = fd then [cstr (pp_str m)] else [] | _ \<Rightarrow> []) rs)"

definition to_read :: "int \<Rightarrow> server \<Rightarrow> string list" where
  "to_read fd s = (case conns s fd of None \<Rightarrow> [] | Some (fs, h) \<Rightarrow> texts (butlast fs))"

definition proper :: "sock_payload list \<Rightarrow> bool" where
  \<comment> \<open>a session as the client program sends it: terminated texts, the last one is \<^verbatim>\<open>"end"\<close>\<close>
  "proper fs \<longleftrightarrow> fs \<noteq> [] \<and> (\<forall>f \<in> set fs. terminated (sp_str f) \<and> length (sp_str f) = 20)
     \<and> cstr (sp_str (last fs)) = ''end'' \<and> (\<forall>f \<in> set (butlast fs). cstr (sp_str f) \<noteq> ''end'')"

definition live :: "reader \<Rightarrow> int list" where
  "live r = (case r of Reading f p m \<Rightarrow> [f] | Sending f p m \<Rightarrow> [f] | _ \<Rightarrow> [])"

definition owners :: "server \<Rightarrow> int list" where
  \<comment> \<open>the descriptors the readers use, and the one being handed over\<close>
  "owners s = concat (map live (readers s))
     @ (if main_at s = Creating \<or> Fresh \<in> set (readers s) then [cl_soc_fd s] else [])"

definition reader_ok :: "reader \<Rightarrow> bool" where
  "reader_ok r = (case r of Reading f p m \<Rightarrow> length (pp_str m) = 20
     | Sending f p m \<Rightarrow> client_id m = f \<and> length (pp_str m) = 20 | _ \<Rightarrow> True)"

definition srv_inv :: "server \<Rightarrow> bool" where
  "srv_inv s \<longleftrightarrow> distinct (owners s) \<and> dom (conns s) = set (owners s)
     \<and> length (filter (\<lambda>r. r = Fresh) (readers s)) + (if main_at s = Creating then 1 else 0) \<le> 1
     \<and> (\<forall>fd fs h. conns s fd = Some (fs, h) \<longrightarrow> proper fs) \<and> (\<forall>c \<in> set (pending s). proper (fst c))
     \<and> list_all reader_ok (readers s)
     \<and> (\<forall>fd. heard fd s @ queued fd s @ in_hand fd (readers s) @ to_read fd s = said fd s)"

definition timely :: "action \<Rightarrow> server \<Rightarrow> bool" where
  \<comment> \<open>the calls succeed and a thread reads \<^verbatim>\<open>cl_soc_fd\<close> before the next \<^verbatim>\<open>accept\<close> returns\<close>
  "timely a s = (case a of Accept fd \<Rightarrow> Fresh \<notin> set (readers s) | Accept_fails \<Rightarrow> False
     | Create ok \<Rightarrow> ok | _ \<Rightarrow> True)"

lemma split_reader:
  assumes "i < length (readers s)"
  obtains xs ys where "readers s = xs @ readers s ! i # ys" "\<And>r. (readers s)[i := r] = xs @ r # ys"
  using assms by (metis id_take_nth_drop upd_conv_take_nth_drop)

lemma proper_cases:
  assumes "proper (f # fs)"
  shows "if cstr (sp_str f) = ''end'' then fs = [] else proper fs \<and> texts (butlast (f # fs)) = cstr (sp_str f) # texts (butlast fs)"
  using assms by (cases fs) (auto simp: proper_def texts_def)

lemma properD: "proper (f # fs) \<Longrightarrow> terminated (sp_str f) \<and> length (sp_str f) = 20"
  by (simp add: proper_def)

lemma in_hand_append [simp]: "in_hand fd (xs @ ys) = in_hand fd xs @ in_hand fd ys"
  by (simp add: in_hand_def)

lemma in_hand_Cons [simp]:
  "in_hand fd (Fresh # rs) = in_hand fd rs" "in_hand fd (Exited # rs) = in_hand fd rs"
  "in_hand fd (Reading f p m # rs) = in_hand fd rs"
  "in_hand fd (Sending f p m # rs) = (if f = fd then [cstr (pp_str m)] else []) @ in_hand fd rs"
  "in_hand fd [] = []"
  by (simp_all add: in_hand_def)

lemma live_simps [simp]: "live Fresh = []" "live Exited = []" "live (Reading f p m) = [f]" "live (Sending f p m) = [f]"
  by (simp_all add: live_def)

lemma reader_ok_simps [simp]: "reader_ok Fresh" "reader_ok Exited"
    "reader_ok (Reading f p m) \<longleftrightarrow> length (pp_str m) = 20"
    "reader_ok (Sending f p m) \<longleftrightarrow> client_id m = f \<and> length (pp_str m) = 20"
  by (simp_all add: reader_ok_def)

lemma in_hand_none: "fd \<notin> set (concat (map live rs)) \<Longrightarrow> in_hand fd rs = []"
  by (induction rs) (auto simp: in_hand_def split: reader.splits)

lemma filter_none: "length (filter P xs) + k \<le> 1 \<Longrightarrow> x \<in> set xs \<Longrightarrow> P x \<Longrightarrow> k = 0"
  by (induction xs) (auto split: if_splits)

section \<open>Every action keeps the books\<close>

lemma proper_conn: "srv_inv s \<Longrightarrow> conns s fd = Some (fs, h) \<Longrightarrow> proper fs"
  unfolding srv_inv_def by blast

lemma inv_accept:
  assumes "srv_inv s" "main_accept fd s = Done t" "Fresh \<notin> set (readers s)"
  shows "srv_inv t"
proof -
  have s: "main_at s = Accepting" "conns s fd = None"
    using assms(2) by (cases "conns s fd", auto simp: main_accept_def split: if_splits)+
  then obtain c cs where pend: "pending s = c # cs"
    and t: "t = s\<lparr>cl_soc_fd := fd, main_at := Creating, conns := (conns s)(fd \<mapsto> c), pending := cs,
                  accepted := accepted s @ [(fd, c)]\<rparr>"
    using assms(2) by (auto simp: main_accept_def split: if_splits list.splits)
  have o: "owners s = concat (map live (readers s))" "fd \<notin> set (owners s)" "set (owners s) = dom (conns s)"
    using assms(1,3) s by (auto simp: owners_def srv_inv_def)
  have eq: "heard f s @ queued f s @ in_hand f (readers s) @ to_read f s = said f s" for f
    using assms(1) by (simp add: srv_inv_def)
  have "heard f t @ queued f t @ in_hand f (readers t) @ to_read f t = said f t" for f
    using eq [of f] in_hand_none [of fd "readers s"] o(1,2) s(2)
    by (cases "f = fd") (auto simp: t heard_def queued_def to_read_def said_def split: prod.splits)
  moreover have "owners t = owners s @ [fd]" using assms(3) o(1) by (simp add: owners_def t)
  ultimately show ?thesis
    using assms s pend o by (auto simp: srv_inv_def t filter_empty_conv)
qed

lemma inv_create:
  assumes "srv_inv s" "main_create True s = Done t"
  shows "srv_inv t"
proof -
  have s: "main_at s = Creating"
    and t: "t = s\<lparr>readers := readers s @ [Fresh], thread_id_flag := thread_id_flag s + 1, main_at := Accepting\<rparr>"
    using assms(2) by (auto simp: main_create_def Let_def split: if_splits)
  with assms(1) show ?thesis
    by (auto simp: srv_inv_def owners_def heard_def queued_def to_read_def said_def)
qed

lemma inv_start:
  assumes "srv_inv s" "reader_start p m i s = Done t" "length (pp_str m) = 20"
  shows "srv_inv t"
proof -
  have i: "i < length (readers s)" "readers s ! i = Fresh" and t: "t = set_reader i (Reading (cl_soc_fd s) p m) s"
    using assms(2) by (auto simp: reader_start_def split: if_splits)
  obtain xs ys where r: "readers s = xs @ Fresh # ys"
    and u: "(readers s)[i := Reading (cl_soc_fd s) p m] = xs @ Reading (cl_soc_fd s) p m # ys"
    using split_reader [OF i(1)] i(2) by metis
  have t': "t = s\<lparr>readers := xs @ Reading (cl_soc_fd s) p m # ys\<rparr>" unfolding t set_reader_def u ..
  have "main_at s \<noteq> Creating" "Fresh \<notin> set xs" "Fresh \<notin> set ys"
    using assms(1) by (auto simp: srv_inv_def r filter_empty_conv split: if_splits)
  with assms(1,3) show ?thesis
    by (auto simp: srv_inv_def owners_def heard_def queued_def to_read_def said_def t' r)
qed

lemma inv_read:
  assumes "srv_inv s" "reader_read i s = Done t"
  shows "srv_inv t"
proof -
  have i: "i < length (readers s)" using assms(2) by (simp add: reader_read_def split: if_splits)
  then obtain fd p m where rd: "readers s ! i = Reading fd p m"
    using assms(2) by (auto simp: reader_read_def split: reader.splits)
  obtain xs ys where r: "readers s = xs @ Reading fd p m # ys" and u: "\<And>r. (readers s)[i := r] = xs @ r # ys"
    using split_reader [OF i] rd by metis
  have inv: "distinct (owners s)" "dom (conns s) = set (owners s)" "fd \<in> set (owners s)"
    "length (pp_str m) = 20"
    using assms(1) by (auto simp: srv_inv_def r owners_def)
  then obtain fs h where "conns s fd = Some (fs, h)" by fastforce
  with proper_conn [OF assms(1) this] obtain f fs' where c: "conns s fd = Some (f # fs', h)" "proper (f # fs')"
    by (cases fs) (auto simp: proper_def)
  have hp: "handle_payload i fd f m (s\<lparr>conns := (conns s)(fd \<mapsto> (fs', h))\<rparr>) = Done t"
    using assms(2) i by (simp add: reader_read_def rd c)
  have hand: "in_hand fd xs = []" "in_hand fd ys = []"
    using inv(1) by (auto simp: owners_def r in_hand_none)
  show ?thesis
  proof (cases "cstr (sp_str f) = ''end''")
    case True
    then have "t = s\<lparr>conns := (conns s)(fd := None), readers := xs @ Exited # ys\<rparr>"
      using hp properD [OF c(2)] by (simp add: handle_payload_def strcmp_eq_def set_reader_def u)
    moreover have "fs' = []" using proper_cases [OF c(2)] True by simp
    ultimately have t: "t = s\<lparr>conns := (conns s)(fd := None), readers := xs @ Exited # ys\<rparr>" "fs' = []" by simp_all
    then have "heard k t @ queued k t @ in_hand k (readers t) @ to_read k t
        = heard k s @ queued k s @ in_hand k (readers s) @ to_read k s" for k
      using c(1) by (simp add: heard_def queued_def to_read_def texts_def r)
    moreover have "distinct (owners t)" "set (owners t) = set (owners s) - {fd}"
      using inv(1) by (auto simp: owners_def t r)
    moreover have "said k t = said k s" for k by (simp add: said_def t)
    ultimately show ?thesis
      using assms(1) inv(2) by (simp add: srv_inv_def t(1) r)
  next
    case False
    then obtain str where "strcpy (pp_str m) (cstr (sp_str f)) = Some str"
      and t: "t = s\<lparr>conns := (conns s)(fd \<mapsto> (fs', h)),
        readers := xs @ Sending fd f (m\<lparr>pp_no := 1, client_id := fd, pp_str := str\<rparr>) # ys\<rparr>"
      using hp properD [OF c(2)]
      by (auto simp: handle_payload_def strcmp_eq_def set_reader_def u split: option.splits)
    then have str: "cstr str = cstr (sp_str f)" "length str = 20"
      using strcpy_SomeD [of "pp_str m" "cstr (sp_str f)" str] inv(4) by simp_all
    have p: "proper fs'" "texts (butlast (f # fs')) = cstr (sp_str f) # texts (butlast fs')"
      using proper_cases [OF c(2)] False by simp_all
    have "heard k t @ queued k t @ in_hand k (readers t) @ to_read k t = said k t" for k
    proof -
      have "heard k s @ queued k s @ in_hand k (readers s) @ to_read k s = said k s"
        using assms(1) by (simp add: srv_inv_def)
      then show ?thesis
        using c(1) p(2) hand str by (cases "k = fd") (simp_all add: heard_def queued_def to_read_def said_def t r)
    qed
    moreover have "owners t = owners s" by (simp add: owners_def t r)
    ultimately show ?thesis
      using assms(1) p(1) str inv(3) by (auto simp: srv_inv_def t r)
  qed
qed

lemma inv_send:
  assumes "srv_inv s" "reader_send i s = Done t"
  shows "srv_inv t"
proof -
  have i: "i < length (readers s)" using assms(2) by (simp add: reader_send_def split: if_splits)
  then obtain fd p m where rd: "readers s ! i = Sending fd p m"
    using assms(2) by (auto simp: reader_send_def split: reader.splits)
  obtain xs ys where r: "readers s = xs @ Sending fd p m # ys" and u: "\<And>r. (readers s)[i := r] = xs @ r # ys"
    using split_reader [OF i] rd by metis
  have t: "t = s\<lparr>pipe_q := pipe_q s @ [m], readers := xs @ Reading fd p m # ys\<rparr>"
    using assms(2) i by (simp add: reader_send_def rd set_reader_def u)
  have ok: "client_id m = fd" "in_hand fd xs = []" "in_hand fd ys = []"
    using assms(1) by (auto simp: srv_inv_def owners_def r in_hand_none)
  have "heard k t @ queued k t @ in_hand k (readers t) @ to_read k t = said k t" for k
  proof -
    have "heard k s @ queued k s @ in_hand k (readers s) @ to_read k s = said k s"
      using assms(1) by (simp add: srv_inv_def)
    then show ?thesis
      using ok by (cases "k = fd") (simp_all add: heard_def queued_def to_read_def said_def t r)
  qed
  moreover have "owners t = owners s" by (simp add: owners_def t r)
  ultimately show ?thesis using assms(1) by (auto simp: srv_inv_def t r)
qed

lemma inv_serve:
  assumes "srv_inv s" "server_action s = Done t"
  shows "srv_inv t"
proof -
  obtain m q where q: "pipe_q s = m # q" and t: "t = s\<lparr>pipe_q := q, shown := shown s @ [(client_id m, cstr (pp_str m))]\<rparr>"
    using assms(2) by (auto simp: server_action_def split: list.splits)
  have "heard k t @ queued k t = heard k s @ queued k s" for k
    by (simp add: heard_def queued_def q t)
  then have "heard k t @ queued k t @ in_hand k (readers t) @ to_read k t
      = heard k s @ queued k s @ in_hand k (readers s) @ to_read k s" for k
    by (simp only: append.assoc [symmetric]) (simp add: t to_read_def)
  moreover have "owners t = owners s" "said k t = said k s" for k by (simp_all add: owners_def said_def t)
  ultimately show ?thesis using assms(1) by (simp add: srv_inv_def t)
qed

lemma inv_step:
  assumes "srv_inv s" "srv_step p m a s = Done t" "timely a s" "length (pp_str m) = 20"
  shows "srv_inv t"
  using assms
  by (cases a) (auto simp: timely_def intro: inv_accept inv_create inv_start inv_read inv_send inv_serve)

section \<open>Sessions\<close>

lemma client_main_step:
  assumes "typed w" "length buff = 20" "length (sp_str p) = 20"
  obtains buff' str where "strcpy buff w = Some buff'" "cstr buff' = w" "length buff' = 20"
    "strcpy (sp_str p) w = Some str" "cstr str = w" "length str = 20" "terminated str"
proof -
  from assms obtain b1 b2 where b: "strcpy buff w = Some b1" "strcpy (sp_str p) w = Some b2"
    by (simp add: strcpy_def typed_def)
  moreover have "terminated b2" using b(2) by (auto simp: strcpy_def terminated_def split: if_splits)
  ultimately show thesis
    using that strcpy_SomeD [of _ w] assms by (simp add: typed_def)
qed

lemma client_session:
  assumes "list_all typed ws" "''end'' \<notin> set ws" "length buff = 20" "length (sp_str p) = 20"
  shows "\<exists>ps. client_main buff p (ws @ [''end'']) = Done ps \<and> proper ps \<and> texts (butlast ps) = ws"
  using assms
proof (induction ws arbitrary: buff p)
  case Nil
  have e: "typed ''end''" by (simp add: typed_def)
  obtain b str where "strcpy buff ''end'' = Some b" "cstr b = ''end''" "length b = 20"
    "strcpy (sp_str p) ''end'' = Some str" "cstr str = ''end''" "length str = 20" "terminated str"
    using client_main_step [OF e Nil.prems(3,4)] .
  then show ?case by (simp add: strcmp_eq_def proper_def texts_def)
next
  case (Cons w ws)
  then have w: "typed w" "w \<noteq> ''end''" by auto
  obtain b str where b: "strcpy buff w = Some b" "cstr b = w" "length b = 20"
    "strcpy (sp_str p) w = Some str" "cstr str = w" "length str = 20" "terminated str"
    using client_main_step [OF w(1) Cons.prems(3,4)] .
  obtain ps where ps: "client_main b (p\<lparr>sp_no := 1, sp_str := str\<rparr>) (ws @ [''end'']) = Done ps" "proper ps"
    "texts (butlast ps) = ws"
    using Cons.IH [of b "p\<lparr>sp_no := 1, sp_str := str\<rparr>"] Cons.prems b by auto
  have "ps \<noteq> []" using ps(2) by (simp add: proper_def)
  then have "proper (p\<lparr>sp_no := 1, sp_str := str\<rparr> # ps) \<and> texts (butlast (p\<lparr>sp_no := 1, sp_str := str\<rparr> # ps)) = w # ws"
    using ps b w by (auto simp: proper_def texts_def)
  then show ?case using ps(1) b w by (simp add: strcmp_eq_def Let_def)
qed

section \<open>Orderly runs\<close>

inductive served :: "connection list \<Rightarrow> server \<Rightarrow> bool" for clients where
  served_start: "server_main True True True clients = Inr s \<Longrightarrow> served clients s"
| served_step: "served clients s \<Longrightarrow> srv_step p m a s = Done t \<Longrightarrow> timely a s \<Longrightarrow>
    length (pp_str m) = 20 \<Longrightarrow> served clients t"

definition quiet :: "server \<Rightarrow> bool" where
  \<comment> \<open>every client is accepted and no thread can move\<close>
  "quiet s \<longleftrightarrow> main_at s = Accepting \<and> pending s = [] \<and> server_action s = Blocked
     \<and> (\<forall>i < length (readers s). \<forall>p m. reader_start p m i s = Blocked \<and> reader_read i s = Blocked
          \<and> reader_send i s = Blocked)"

lemma served_inv:
  assumes "served clients s" "\<forall>c \<in> set clients. proper (fst c)"
  shows "srv_inv s"
  using assms(1)
proof induction
  case (served_start s)
  with assms(2) show ?case
    by (auto simp: server_main_def srv_inv_def owners_def heard_def queued_def to_read_def said_def)
next
  case (served_step s p m a t)
  then show ?case by (auto intro: inv_step)
qed

lemma step_counts:
  assumes "srv_step p m a s = Done t" "timely a s"
  shows "map snd (accepted t) @ pending t = map snd (accepted s) @ pending s
    \<and> int (thread_id_flag t) + (if main_at t = Creating then 1 else 0) - int (length (accepted t))
      = int (thread_id_flag s) + (if main_at s = Creating then 1 else 0) - int (length (accepted s))
    \<and> (thread_id_flag s \<le> 20 \<longrightarrow> thread_id_flag t \<le> 20)"
  using assms
  by (cases a)
    (auto simp: timely_def main_accept_def main_create_def reader_start_def reader_read_def reader_send_def
      server_action_def handle_payload_def set_reader_def Let_def
      split: if_splits list.splits reader.splits option.splits prod.splits)

lemma served_counts:
  assumes "served clients s"
  shows "map snd (accepted s) @ pending s = clients
    \<and> thread_id_flag s + (if main_at s = Creating then 1 else 0) = length (accepted s)
    \<and> thread_id_flag s \<le> 20"
  using assms
proof induction
  case (served_start s)
  then show ?case by (auto simp: server_main_def)
next
  case (served_step s p m a t)
  from step_counts [OF served_step(2,3)] served_step.IH show ?case by (auto split: if_splits)
qed

lemma quiet_readers:
  assumes "srv_inv s" "quiet s"
  shows "set (readers s) \<subseteq> {Exited}"
proof
  fix r
  assume "r \<in> set (readers s)"
  then obtain i where i: "i < length (readers s)" "readers s ! i = r" by (auto simp: in_set_conv_nth)
  have q: "reader_start p m i s = Blocked" "reader_read i s = Blocked" "reader_send i s = Blocked" for p m
    using assms(2) i(1) by (simp_all add: quiet_def)
  show "r \<in> {Exited}"
  proof (cases r)
    case Fresh
    with q(1) i show ?thesis by (simp add: reader_start_def)
  next
    case (Reading fd p m)
    then have "fd \<in> set (owners s)" using i by (force simp: owners_def in_set_conv_nth)
    then have "fd \<in> dom (conns s)" using assms(1) by (simp add: srv_inv_def)
    then obtain fs h where c: "conns s fd = Some (fs, h)" by auto
    with proper_conn [OF assms(1) c] obtain f fs' where f: "fs = f # fs'" "terminated (sp_str f)" "length (sp_str f) = 20"
      by (cases fs) (auto simp: proper_def)
    have "length (pp_str m) = 20" using assms(1) i Reading by (auto simp: srv_inv_def list_all_length)
    moreover have "length (cstr (sp_str f)) < 20" using length_cstr_terminated [OF f(2)] f(3) by simp
    ultimately have "reader_read i s \<noteq> Blocked"
      using i Reading c f by (auto simp: reader_read_def handle_payload_def strcpy_def)
    with q(2) show ?thesis by simp
  next
    case (Sending fd p m)
    with q(3) i show ?thesis by (simp add: reader_send_def)
  qed simp
qed

text \<open>
  C13. The server loses, duplicates and reorders nothing as long as each reader thread gets to copy
  \<^verbatim>\<open>cl_soc_fd\<close> before the next connection arrives: at every moment of every such run, what has been
  printed for a client, what is on the pipe, what its thread holds and what it has yet to read are
  together, in this order, what the client typed; and once no thread can move, all clients have
  been accepted, everything they typed is printed, all readers have ended and all connections are
  closed.
\<close>

theorem every_client_heard:
  assumes "served clients s" "\<forall>c \<in> set clients. proper (fst c)"
  shows "(\<forall>fd. heard fd s @ queued fd s @ in_hand fd (readers s) @ to_read fd s = said fd s)
    \<and> (quiet s \<longrightarrow> map snd (accepted s) = clients \<and> (\<forall>fd. heard fd s = said fd s)
         \<and> set (readers s) \<subseteq> {Exited} \<and> (\<forall>fd. conns s fd = None))"
proof (intro conjI impI)
  have inv: "srv_inv s" using served_inv [OF assms] .
  then show eq: "\<forall>fd. heard fd s @ queued fd s @ in_hand fd (readers s) @ to_read fd s = said fd s"
    by (simp add: srv_inv_def)
  assume q: "quiet s"
  show ex: "set (readers s) \<subseteq> {Exited}" using quiet_readers [OF inv q] .
  show "map snd (accepted s) = clients" using served_counts [OF assms(1)] q by (simp add: quiet_def)
  have "concat (map live (readers s)) = []" using ex by auto
  then have "owners s = []" using ex q by (auto simp: owners_def quiet_def)
  then show none: "\<forall>fd. conns s fd = None" using inv by (auto simp: srv_inv_def)
  have "in_hand fd (readers s) = []" for fd
    using \<open>concat (map live (readers s)) = []\<close> in_hand_none by simp
  moreover have "pipe_q s = []" using q by (auto simp: quiet_def server_action_def split: list.splits)
  ultimately show "\<forall>fd. heard fd s = said fd s" using eq none by (simp add: queued_def to_read_def)
qed

section \<open>Capacity and termination\<close>

lemma read_no_fault: "srv_inv s \<Longrightarrow> reader_read i s \<noteq> Fault"
proof (cases "i < length (readers s)")
  case True
  assume inv: "srv_inv s"
  show ?thesis
  proof (cases "readers s ! i")
    case (Reading fd p m)
    then have "fd \<in> set (owners s)" using True by (force simp: owners_def in_set_conv_nth)
    then have "fd \<in> dom (conns s)" using inv by (simp add: srv_inv_def)
    then obtain fs h where c: "conns s fd = Some (fs, h)" by auto
    with proper_conn [OF inv c] obtain f fs' where f: "fs = f # fs'" "terminated (sp_str f)" "length (sp_str f) = 20"
      by (cases fs) (auto simp: proper_def)
    have "length (pp_str m) = 20" using inv True Reading by (auto simp: srv_inv_def list_all_length)
    moreover have "length (cstr (sp_str f)) < 20" using length_cstr_terminated [OF f(2)] f(3) by simp
    ultimately show ?thesis
      using True Reading c f by (auto simp: reader_read_def handle_payload_def strcpy_def)
  qed (simp_all add: reader_read_def)
qed (simp add: reader_read_def)

lemma step_fault:
  assumes "srv_inv s" "timely a s"
  shows "srv_step p m a s = Fault \<longleftrightarrow> a = Create True \<and> main_at s = Creating \<and> 20 \<le> thread_id_flag s"
  using assms read_no_fault [of s]
  by (cases a) (auto simp: timely_def main_accept_def main_create_def reader_start_def reader_send_def
      server_action_def Let_def split: if_splits list.splits reader.splits)

definition reader_weight :: "reader \<Rightarrow> nat" where
  "reader_weight r = (case r of Fresh \<Rightarrow> 1 | Sending f p m \<Rightarrow> 2 | _ \<Rightarrow> 0)"

definition unread :: "(int \<Rightarrow> connection option) \<Rightarrow> nat" where
  "unread C = (\<Sum>fd \<in> dom C. 3 * length (fst (the (C fd))))"

definition weight :: "server \<Rightarrow> nat" where
  \<comment> \<open>a bound on the actions to come\<close>
  "weight s = sum_list (map (\<lambda>c. 3 + 3 * length (fst c)) (pending s)) + (if main_at s = Creating then 2 else 0)
     + sum_list (map reader_weight (readers s)) + length (pipe_q s) + unread (conns s)"

lemma unread_split:
  assumes "finite (dom C)"
  shows "unread C = (case C fd of None \<Rightarrow> 0 | Some c \<Rightarrow> 3 * length (fst c))
    + (\<Sum>k \<in> dom C - {fd}. 3 * length (fst (the (C k))))"
proof (cases "C fd")
  case None
  then have "dom C - {fd} = dom C" by auto
  with None show ?thesis by (simp add: unread_def)
next
  case (Some c)
  then have "fd \<in> dom C" by auto
  from sum.remove [OF assms this, of "\<lambda>k. 3 * length (fst (the (C k)))"] Some show ?thesis by (simp add: unread_def)
qed

lemma unread_upd:
  assumes "finite (dom C)"
  shows "unread (C(fd := x)) + (case C fd of None \<Rightarrow> 0 | Some c \<Rightarrow> 3 * length (fst c))
    = unread C + (case x of None \<Rightarrow> 0 | Some c \<Rightarrow> 3 * length (fst c))"
proof -
  have d: "dom (C(fd := x)) - {fd} = dom C - {fd}" by (auto split: if_splits)
  have "finite (dom (C(fd := x)))" using assms by (cases x) auto
  from unread_split [OF this, of fd]
  have "unread (C(fd := x)) = (case x of None \<Rightarrow> 0 | Some c \<Rightarrow> 3 * length (fst c))
      + (\<Sum>k \<in> dom C - {fd}. 3 * length (fst (the ((C(fd := x)) k))))"
    unfolding d by (simp only: fun_upd_same)
  also have "(\<Sum>k \<in> dom C - {fd}. 3 * length (fst (the ((C(fd := x)) k))))
      = (\<Sum>k \<in> dom C - {fd}. 3 * length (fst (the (C k))))"
    by (intro sum.cong) auto
  finally show ?thesis using unread_split [OF assms, of fd] by linarith
qed

lemma weight_reader:
  assumes "i < length rs"
  shows "sum_list (map reader_weight (rs[i := r])) + reader_weight (rs ! i)
    = sum_list (map reader_weight rs) + reader_weight r"
  using assms by (induction rs arbitrary: i) (auto simp: nth_Cons split: nat.splits)

lemma weight_handle:
  assumes "handle_payload i fd p m s = Done t" "i < length (readers s)" "readers s ! i = Reading fd q m"
  shows "(if cstr (sp_str p) = ''end''
      then conns t = (conns s)(fd := None) \<and> sum_list (map reader_weight (readers t)) = sum_list (map reader_weight (readers s))
      else conns t = conns s \<and> sum_list (map reader_weight (readers t)) = sum_list (map reader_weight (readers s)) + 2)
    \<and> pending t = pending s \<and> main_at t = main_at s \<and> pipe_q t = pipe_q s"
  using assms weight_reader [OF assms(2), of Exited] weight_reader [OF assms(2), of "Sending _ _ _"]
  by (auto simp: handle_payload_def strcmp_eq_def set_reader_def reader_weight_def split: if_splits option.splits)

lemma weight_read:
  assumes "srv_inv s" "reader_read i s = Done t"
  shows "weight t < weight s"
proof -
  have i: "i < length (readers s)" using assms(2) by (simp add: reader_read_def split: if_splits)
  then obtain fd p m where rd: "readers s ! i = Reading fd p m"
    using assms(2) by (auto simp: reader_read_def split: reader.splits)
  then have "fd \<in> set (owners s)" using i by (force simp: owners_def in_set_conv_nth)
  then have "fd \<in> dom (conns s)" and fin: "finite (dom (conns s))" using assms(1) by (simp_all add: srv_inv_def)
  then obtain fs h where "conns s fd = Some (fs, h)" by auto
  with proper_conn [OF assms(1) this] obtain f fs' where c: "conns s fd = Some (f # fs', h)" "proper (f # fs')"
    by (cases fs) (auto simp: proper_def)
  define s' where "s' = s\<lparr>conns := (conns s)(fd \<mapsto> (fs', h))\<rparr>"
  have hp: "handle_payload i fd f m s' = Done t"
    using assms(2) i by (simp add: reader_read_def rd c s'_def)
  have s': "readers s' = readers s" "pending s' = pending s" "main_at s' = main_at s" "pipe_q s' = pipe_q s"
    "conns s' = (conns s)(fd \<mapsto> (fs', h))" by (simp_all add: s'_def)
  note h = weight_handle [OF hp, unfolded s', OF i rd]
  show ?thesis
  proof (cases "cstr (sp_str f) = ''end''")
    case True
    with proper_cases [OF c(2)] c(1) have "conns s fd = Some ([f], h)" by simp
    with True h unread_upd [OF fin, of fd None] show ?thesis by (simp add: weight_def)
  next
    case False
    with h unread_upd [OF fin, of fd "Some (fs', h)"] c(1) show ?thesis by (simp add: weight_def)
  qed
qed

lemma weight_accept:
  assumes "srv_inv s" "main_accept fd s = Done t"
  shows "weight t < weight s"
proof -
  have fin: "finite (dom (conns s))" using assms(1) by (simp add: srv_inv_def)
  have s: "main_at s = Accepting" "conns s fd = None"
    using assms(2) by (cases "conns s fd", auto simp: main_accept_def split: if_splits)+
  then obtain c cs where "pending s = c # cs"
    and "t = s\<lparr>cl_soc_fd := fd, main_at := Creating, conns := (conns s)(fd \<mapsto> c), pending := cs,
               accepted := accepted s @ [(fd, c)]\<rparr>"
    using assms(2) by (auto simp: main_accept_def split: if_splits list.splits)
  with s unread_upd [OF fin, of fd "Some c"] show ?thesis by (simp add: weight_def)
qed

lemma weight_send:
  assumes "reader_send i s = Done t"
  shows "weight t < weight s"
proof -
  have i: "i < length (readers s)" using assms by (simp add: reader_send_def split: if_splits)
  then obtain fd p m where rd: "readers s ! i = Sending fd p m"
    using assms by (auto simp: reader_send_def split: reader.splits)
  then have "t = set_reader i (Reading fd p m) (s\<lparr>pipe_q := pipe_q s @ [m]\<rparr>)"
    using assms i by (simp add: reader_send_def)
  with weight_reader [OF i, of "Reading fd p m"] rd show ?thesis
    by (simp add: set_reader_def weight_def reader_weight_def)
qed

lemma weight_step:
  assumes "srv_inv s" "srv_step p m a s = Done t" "timely a s"
  shows "weight t < weight s"
proof (cases a)
  case (Create ok)
  then show ?thesis
    using assms(2,3) by (auto simp: main_create_def weight_def timely_def reader_weight_def Let_def split: if_splits)
next
  case (Start i)
  then show ?thesis
    using assms(2) weight_reader [of i "readers s" "Reading (cl_soc_fd s) p m"]
    by (auto simp: reader_start_def set_reader_def weight_def reader_weight_def split: if_splits)
qed (use assms weight_accept weight_read weight_send in
    \<open>auto simp: timely_def server_action_def weight_def split: list.splits\<close>)

lemma enabled:
  assumes "srv_inv s" "\<not> quiet s" "main_at s = Creating \<Longrightarrow> thread_id_flag s < 20"
  shows "\<exists>a t. timely a s \<and> srv_step p m a s = Done t"
proof (cases "main_at s = Creating")
  case True
  with assms(3) have "\<exists>t. srv_step p m (Create True) s = Done t" by (simp add: main_create_def)
  moreover have "timely (Create True) s" by (simp add: timely_def)
  ultimately show ?thesis by blast
next
  case False
  then have m: "main_at s = Accepting" by (cases "main_at s") auto
  show ?thesis
  proof (cases "Fresh \<in> set (readers s)")
    case True
    then obtain i where "i < length (readers s)" "readers s ! i = Fresh" by (auto simp: in_set_conv_nth)
    then have "\<exists>t. srv_step p m (Start i) s = Done t" by (simp add: reader_start_def)
    moreover have "timely (Start i) s" by (simp add: timely_def)
    ultimately show ?thesis by blast
  next
    case F: False
    show ?thesis
    proof (cases "pending s")
      case (Cons c cs)
      have "infinite {0 :: int..}" "finite (dom (conns s))"
        using assms(1) by (simp_all add: infinite_Ici srv_inv_def)
      then have "\<not> {0..} \<subseteq> dom (conns s)" using finite_subset by blast
      then obtain fd where "0 \<le> fd" "conns s fd = None" by auto
      then have "\<exists>t. srv_step p m (Accept fd) s = Done t" using m Cons by (simp add: main_accept_def)
      moreover have "timely (Accept fd) s" using F by (simp add: timely_def)
      ultimately show ?thesis by blast
    next
      case Nil
      have no_start: "reader_start p' m' i s = Blocked" for p' m' i
        using F unfolding reader_start_def by (metis nth_mem)
      from assms(2) m Nil no_start consider
        "server_action s \<noteq> Blocked" | i where "reader_read i s \<noteq> Blocked" | i where "reader_send i s \<noteq> Blocked"
        unfolding quiet_def by auto
      then show ?thesis
      proof cases
        case 1
        with step_fault [OF assms(1), of Serve p m] have "\<exists>t. srv_step p m Serve s = Done t"
          by (cases "server_action s") (auto simp: timely_def)
        moreover have "timely Serve s" by (simp add: timely_def)
        ultimately show ?thesis by blast
      next
        case (2 i)
        with step_fault [OF assms(1), of "Read i" p m] have "\<exists>t. srv_step p m (Read i) s = Done t"
          by (cases "reader_read i s") (auto simp: timely_def)
        moreover have "timely (Read i) s" by (simp add: timely_def)
        ultimately show ?thesis by blast
      next
        case (3 i)
        with step_fault [OF assms(1), of "Send i" p m] have "\<exists>t. srv_step p m (Send i) s = Done t"
          by (cases "reader_send i s") (auto simp: timely_def)
        moreover have "timely (Send i) s" by (simp add: timely_def)
        ultimately show ?thesis by blast
      qed
    qed
  qed
qed

fun timely_run :: "sock_payload \<Rightarrow> pipe_payload \<Rightarrow> action list \<Rightarrow> server \<Rightarrow> server option" where
  "timely_run p m [] s = Some s"
| "timely_run p m (a # as) s =
     (if \<not> timely a s then None
      else case srv_step p m a s of Done t \<Rightarrow> timely_run p m as t | _ \<Rightarrow> None)"

lemma timely_run_served:
  "timely_run p m as s = Some t \<Longrightarrow> served clients s \<Longrightarrow> length (pp_str m) = 20 \<Longrightarrow> served clients t"
  by (induction as arbitrary: s) (auto split: if_splits outcome.splits intro: served_step)

lemma timely_run_weight:
  "timely_run p m as s = Some t \<Longrightarrow> srv_inv s \<Longrightarrow> length (pp_str m) = 20 \<Longrightarrow> length as + weight t \<le> weight s"
proof (induction as arbitrary: s)
  case Nil
  then show ?case by simp
next
  case (Cons a as)
  then obtain u where u: "timely a s" "srv_step p m a s = Done u" "timely_run p m as u = Some t"
    by (auto split: if_splits outcome.splits)
  with Cons weight_step [OF Cons.prems(2) u(2,1)] inv_step [OF Cons.prems(2) u(2,1)] show ?case by fastforce
qed

lemma weight_start:
  assumes "server_main True True True clients = Inr s"
  shows "weight s = sum_list (map (\<lambda>c. 3 + 3 * length (fst c)) clients)"
  using assms by (auto simp: server_main_def weight_def unread_def)

text \<open>
  C14. The server serves up to twenty clients to the end: an orderly run takes at most three
  actions per connection and three per payload, and as long as it is not quiet it can go on.  Its
  only failure is the creation of the thread for the twenty-first connection, which writes behind
  \<^verbatim>\<open>thread_id_arr[20]\<close>.
\<close>

theorem server_serves_twenty:
  assumes "server_main True True True clients = Inr s0" "\<forall>c \<in> set clients. proper (fst c)"
    and "timely_run p m as s0 = Some s" "length (pp_str m) = 20"
  shows "length as \<le> sum_list (map (\<lambda>c. 3 + 3 * length (fst c)) clients)
    \<and> (length clients \<le> 20 \<and> \<not> quiet s \<longrightarrow> (\<exists>a t. timely a s \<and> srv_step p m a s = Done t))
    \<and> (\<forall>a. timely a s \<longrightarrow>
         (srv_step p m a s = Fault \<longleftrightarrow> a = Create True \<and> main_at s = Creating \<and> length (accepted s) = 21))"
proof -
  have "served clients s0" using assms(1) by (rule served_start)
  then have sv: "served clients s" using timely_run_served assms(3,4) by blast
  note inv = served_inv [OF sv assms(2)] and n = served_counts [OF sv]
  have "length as \<le> weight s0"
    using timely_run_weight [OF assms(3) served_inv [OF \<open>served clients s0\<close> assms(2)] assms(4)] by simp
  moreover have "length clients = length (accepted s) + length (pending s)"
    using arg_cong [OF conjunct1 [OF n], of length] by simp
  ultimately show ?thesis
    using weight_start [OF assms(1)] enabled [OF inv] step_fault [OF inv] n
    by (auto split: if_splits)
qed

section \<open>Clients that arrive too fast\<close>

definition untouched :: "int \<Rightarrow> connection \<Rightarrow> server \<Rightarrow> bool" where
  "untouched fd c s \<longleftrightarrow> conns s fd = Some c \<and> cl_soc_fd s \<noteq> fd \<and> fd \<notin> set (concat (map live (readers s)))"

lemma live_update: "fd \<notin> set (concat (map live rs)) \<Longrightarrow> fd \<notin> set (live r) \<Longrightarrow> fd \<notin> set (concat (map live (rs[i := r])))"
  by (auto dest!: set_update_subset_insert [THEN subsetD])

lemma live_nth: "fd \<notin> set (concat (map live rs)) \<Longrightarrow> i < length rs \<Longrightarrow> fd \<notin> set (live (rs ! i))"
  by auto

lemma untouched_handle:
  assumes "untouched fd c s" "handle_payload i k p m s = Done t" "k \<noteq> fd"
  shows "untouched fd c t"
  using assms live_update [of fd "readers s" Exited i] live_update [of fd "readers s" "Sending k p _" i]
  by (auto simp: untouched_def handle_payload_def set_reader_def split: if_splits option.splits)

lemma untouched_step:
  assumes "untouched fd c s" "0 \<le> fd" "srv_step p m a s = Done t"
  shows "untouched fd c t"
proof (cases a)
  case (Read i)
  then have i: "i < length (readers s)" using assms(3) by (auto simp: reader_read_def split: if_splits)
  then obtain k q w where rd: "readers s ! i = Reading k q w"
    using assms(3) Read by (auto simp: reader_read_def split: reader.splits)
  with live_nth [OF _ i, of fd] assms(1) have k: "k \<noteq> fd" by (simp add: untouched_def)
  then have "untouched fd c (s\<lparr>conns := (conns s)(k \<mapsto> x)\<rparr>)" for x
    using assms(1) by (simp add: untouched_def)
  note u = untouched_handle [OF assms(1) _ k] untouched_handle [OF this _ k]
  show ?thesis
  proof (cases "conns s k")
    case None
    with assms(3) i rd Read u(1) show ?thesis by (simp add: reader_read_def)
  next
    case (Some x)
    obtain fs h where "x = (fs, h)" by fastforce
    with Some assms(3) i rd Read u show ?thesis
      by (cases fs) (auto simp: reader_read_def split: if_splits)
  qed
next
  case (Send i)
  then have i: "i < length (readers s)" using assms(3) by (auto simp: reader_send_def split: if_splits)
  then obtain k q w where rd: "readers s ! i = Sending k q w"
    using assms(3) Send by (auto simp: reader_send_def split: reader.splits)
  with live_nth [OF _ i, of fd] assms(1) have k: "k \<noteq> fd" by (simp add: untouched_def)
  with assms i rd Send live_update [of fd "readers s" "Reading k q w" i] show ?thesis
    by (auto simp: reader_send_def untouched_def set_reader_def)
next
  case (Start i)
  with assms live_update [of fd "readers s" "Reading (cl_soc_fd s) p m" i] show ?thesis
    by (auto simp: reader_start_def untouched_def set_reader_def split: if_splits)
next
  case (Accept k)
  with assms show ?thesis
    by (cases c) (auto simp: main_accept_def untouched_def split: if_splits list.splits)
next
  case (Create ok)
  with assms show ?thesis
    by (auto simp: main_create_def untouched_def Let_def split: if_splits)
qed (use assms in \<open>auto simp: main_accept_fails_def server_action_def untouched_def split: if_splits list.splits\<close>)

lemma untouched_run:
  "srv_run p m as s = Done t \<Longrightarrow> untouched fd c s \<Longrightarrow> 0 \<le> fd \<Longrightarrow> untouched fd c t"
proof (induction as arbitrary: s)
  case Nil
  then show ?case by simp
next
  case (Cons a as)
  then show ?case by (cases "srv_step p m a s") (auto intro: untouched_step)
qed

text \<open>
  A second client that connects before the first one's thread has read \<^verbatim>\<open>cl_soc_fd\<close> takes the
  first one's place: both threads read the second connection, and in no continuation is anything
  the first client sent ever received.
\<close>

lemma overtaken_client_lost:
  assumes "server_main True True True (c1 # c2 # cs) = Inr s0"
  shows "\<exists>s. srv_run p m [Accept 4, Create True, Accept 5, Create True, Start 0, Start 1] s0 = Done s
    \<and> readers s = [Reading 5 p m, Reading 5 p m]
    \<and> (\<forall>as t. srv_run p m as s = Done t \<longrightarrow> conns t 4 = Some c1)"
proof -
  obtain s where s: "srv_run p m [Accept 4, Create True, Accept 5, Create True, Start 0, Start 1] s0 = Done s"
    "readers s = [Reading 5 p m, Reading 5 p m]" "conns s 4 = Some c1" "cl_soc_fd s = 5"
    using assms by (auto simp: server_main_def main_accept_def main_create_def reader_start_def set_reader_def)
  then have "untouched 4 c1 s" by (simp add: untouched_def)
  then have "conns t 4 = Some c1" if "srv_run p m as s = Done t" for as t
    using untouched_run [OF that] by (simp add: untouched_def)
  with s show ?thesis by blast
qed

text \<open>
  A client that goes away without \<^verbatim>\<open>"end"\<close> is never let go: its thread keeps posting the last
  payload it received, as often as one likes to wait.
\<close>

lemma hangup_repeats_last_payload:
  assumes "i < length (readers s)" "readers s ! i = Reading fd p m" "conns s fd = Some ([], True)"
    and "terminated (sp_str p)" "length (sp_str p) = 20" "length (pp_str m) = 20" "cstr (sp_str p) \<noteq> ''end''"
  shows "\<exists>t. srv_run p' m' (concat (replicate n [Read i, Send i])) s = Done t
    \<and> map (\<lambda>m. (client_id m, cstr (pp_str m))) (pipe_q t)
        = map (\<lambda>m. (client_id m, cstr (pp_str m))) (pipe_q s) @ replicate n (fd, cstr (sp_str p))
    \<and> (\<exists>m. readers t ! i = Reading fd p m)"
  using assms
proof (induction n arbitrary: s m)
  case 0
  then show ?case by auto
next
  case (Suc n)
  have "length (cstr (sp_str p)) < 20" using length_cstr_terminated [OF Suc.prems(4)] Suc.prems(5) by simp
  with Suc.prems(6) obtain str where str: "strcpy (pp_str m) (cstr (sp_str p)) = Some str"
    by (simp add: strcpy_def)
  with strcpy_SomeD [OF this] Suc.prems(6) have str': "cstr str = cstr (sp_str p)" "length str = 20" by simp_all
  define m1 where "m1 = m\<lparr>pp_no := 1, client_id := fd, pp_str := str\<rparr>"
  define s1 where "s1 = s\<lparr>readers := (readers s)[i := Reading fd p m1], pipe_q := pipe_q s @ [m1]\<rparr>"
  have "reader_read i s = Done (set_reader i (Sending fd p m1) s)"
    using Suc.prems str by (simp add: reader_read_def handle_payload_def strcmp_eq_def m1_def)
  moreover have "reader_send i (set_reader i (Sending fd p m1) s) = Done s1"
    using Suc.prems(1) by (simp add: reader_send_def set_reader_def s1_def)
  ultimately have run: "srv_run p' m' (concat (replicate (Suc n) [Read i, Send i])) s
      = srv_run p' m' (concat (replicate n [Read i, Send i])) s1"
    by simp
  have s1: "i < length (readers s1)" "readers s1 ! i = Reading fd p m1" "conns s1 fd = Some ([], True)"
    "length (pp_str m1) = 20"
    using Suc.prems(1,3) str' by (simp_all add: s1_def m1_def)
  from Suc.IH [OF s1(1-3) Suc.prems(4,5) s1(4) Suc.prems(7)] show ?case
    unfolding run by (auto simp: s1_def m1_def str')
qed

section \<open>Instances\<close>

definition frame :: "string \<Rightarrow> sock_payload" where
  "frame w = \<lparr>sp_no = 1, sp_str = w @ replicate (20 - length w) NUL\<rparr>"

definition blank :: pipe_payload where
  "blank = \<lparr>pp_no = 0, client_id = 0, pp_str = replicate 20 NUL\<rparr>"

lemma length_blank [simp]: "length (pp_str blank) = 20"
  by (simp add: blank_def)

lemma frame_text: "NUL \<notin> set w \<Longrightarrow> cstr (sp_str (frame w)) = w"
  by (simp add: frame_def cstr_no_NUL)

lemma frame_ok: "length w < 20 \<Longrightarrow> terminated (sp_str (frame w)) \<and> length (sp_str (frame w)) = 20"
  by (simp add: frame_def terminated_def)

definition hello_session :: connection where
  "hello_session = ([frame ''hi'', frame ''end''], False)"

lemma hello_proper: "proper (fst hello_session)"
  by (simp add: hello_session_def proper_def frame_text frame_ok)

definition started :: "connection list \<Rightarrow> server" where
  "started clients = \<lparr>cl_soc_fd = 0, main_at = Accepting, thread_id_flag = 0, readers = [], conns = (\<lambda>_. None),
     pending = clients, pipe_q = [], shown = [], accepted = []\<rparr>"

lemma server_main_started: "server_main True True True clients = Inr (started clients)"
  by (simp add: server_main_def started_def)

lemma hello_run:
  "\<exists>s. timely_run (frame []) blank [Accept 3, Create True, Start 0, Read 0, Send 0, Serve, Read 0] (started [hello_session]) = Some s
     \<and> shown s = [(3, ''hi'')] \<and> quiet s \<and> accepted s = [(3, hello_session)]"
proof -
  have f: "terminated (sp_str (frame ''hi''))" "terminated (sp_str (frame ''end''))"
    "cstr (sp_str (frame ''hi'')) = ''hi''" "cstr (sp_str (frame ''end'')) = ''end''"
    by (simp_all add: frame_text frame_ok)
  obtain str where s: "strcpy (pp_str blank) ''hi'' = Some str" "cstr str = ''hi''"
    using strcpy_Some_iff [of "pp_str blank" "''hi''"] strcpy_SomeD [of "pp_str blank" "''hi''"] by auto
  show ?thesis
    by (simp add: started_def hello_session_def timely_def main_accept_def main_create_def reader_start_def reader_read_def
      reader_send_def server_action_def handle_payload_def strcmp_eq_def set_reader_def quiet_def f s)
qed

theorem every_client_heard_witness:
  "\<exists>s. served [hello_session] s \<and> quiet s \<and> heard 3 s = [''hi''] \<and> set (readers s) \<subseteq> {Exited}"
proof -
  obtain s where s: "timely_run (frame []) blank [Accept 3, Create True, Start 0, Read 0, Send 0, Serve, Read 0]
      (started [hello_session]) = Some s" "quiet s" "shown s = [(3, ''hi'')]"
    using hello_run by blast
  have sv: "served [hello_session] s"
    using timely_run_served [OF s(1)] served_start [OF server_main_started] by simp
  have "\<forall>c \<in> set [hello_session]. proper (fst c)" by (simp add: hello_proper)
  from every_client_heard [OF sv this] sv s show ?thesis by (auto simp: heard_def)
qed

definition fill :: "nat \<Rightarrow> action list" where
  "fill k = concat (map (\<lambda>i. [Accept (int i), Create True, Start i]) [0..<k])"

lemma timely_run_append:
  "timely_run p m (as @ bs) s = (case timely_run p m as s of None \<Rightarrow> None | Some t \<Rightarrow> timely_run p m bs t)"
  by (induction as arbitrary: s) (auto split: outcome.splits)

lemma fill_run:
  assumes "k \<le> 20" "k \<le> length clients"
  shows "\<exists>s. timely_run p m (fill k) (started clients) = Some s \<and> main_at s = Accepting \<and> thread_id_flag s = k
    \<and> length (readers s) = k \<and> Fresh \<notin> set (readers s) \<and> (\<forall>fd \<ge> int k. conns s fd = None)
    \<and> pending s = drop k clients \<and> length (accepted s) = k"
  using assms
proof (induction k)
  case 0
  then show ?case by (simp add: fill_def started_def)
next
  case (Suc k)
  then obtain s where s: "timely_run p m (fill k) (started clients) = Some s" "main_at s = Accepting" "thread_id_flag s = k"
    "length (readers s) = k" "Fresh \<notin> set (readers s)" "\<forall>fd \<ge> int k. conns s fd = None"
    "pending s = drop k clients" "length (accepted s) = k"
    by auto
  moreover have "drop k clients = clients ! k # drop (Suc k) clients" using Suc.prems(2) by (simp add: Cons_nth_drop_Suc)
  moreover have "fill (Suc k) = fill k @ [Accept (int k), Create True, Start k]" by (simp add: fill_def)
  ultimately show ?case
    using Suc.prems(1)
    by (simp add: timely_run_append timely_def main_accept_def main_create_def reader_start_def set_reader_def
        nth_append list_update_append)
qed

theorem server_serves_twenty_witness:
  "\<exists>s. timely_run (frame []) blank (fill 20 @ [Accept 20]) (started (replicate 21 hello_session)) = Some s
     \<and> length (accepted s) = 21 \<and> srv_step (frame []) blank (Create True) s = Fault
     \<and> length (fill 20 @ [Accept 20]) \<le> sum_list (map (\<lambda>c. 3 + 3 * length (fst c)) (replicate 21 hello_session))"
proof -
  obtain s where s: "timely_run (frame []) blank (fill 20) (started (replicate 21 hello_session)) = Some s"
    "main_at s = Accepting" "Fresh \<notin> set (readers s)" "conns s 20 = None"
    "pending s = [hello_session]" "length (accepted s) = 20"
    using fill_run [of 20 "replicate 21 hello_session" "frame []" blank] by auto
  then obtain t where t: "timely_run (frame []) blank (fill 20 @ [Accept 20]) (started (replicate 21 hello_session)) = Some t"
    "main_at t = Creating" "length (accepted t) = 21"
    by (simp add: timely_run_append timely_def main_accept_def)
  have "\<forall>c \<in> set (replicate 21 hello_session). proper (fst c)" by (simp add: hello_proper)
  note c = server_serves_twenty [OF server_main_started this t(1) length_blank]
  moreover have "timely (Create True) t" by (simp add: timely_def)
  ultimately have "srv_step (frame []) blank (Create True) t = Fault" using t(2,3) by blast
  with c t show ?thesis by blast
qed

end
