(* ===== verification/Single_Sockets.thy ===== *)
theory Single_Sockets
  imports Socket_Server
begin

text \<open>
  The socket programs with one client at a time: \<^verbatim>\<open>socket/socket_server.c\<close>,
  \<^verbatim>\<open>socket/server_publish\<close>, \<^verbatim>\<open>socket/diff_machine_socket\<close> (one connection, messages until
  \<^verbatim>\<open>"end"\<close>) and \<^verbatim>\<open>socket/normal_socket\<close> (one connection per message).  The servers read 24 bytes into
  their payload and do not look at the number of bytes they got, so here a payload is its bytes and a
  \<^verbatim>\<open>read\<close> is an element of \<open>reply\<close>: the bytes that were there, the end of the stream, or a failure.
\<close>

section \<open>Bytes of a payload\<close>

definition payload_bytes :: "sock_payload \<Rightarrow> char list" where
  \<comment> \<open>the 24 bytes of \<^verbatim>\<open>soc_payload\<close>\<close>
  "payload_bytes p = le32 (sp_no p) @ sp_str p"

definition bytes_payload :: "char list \<Rightarrow> sock_payload" where
  "bytes_payload b = \<lparr>sp_no = of_le32 b, sp_str = drop 4 b\<rparr>"

definition zero_payload :: sock_payload where
  \<comment> \<open>the global variable at the start\<close>
  "zero_payload = \<lparr>sp_no = 0, sp_str = replicate 20 NUL\<rparr>"

section \<open>The clients\<close>

fun sender_loop :: "char list \<Rightarrow> sock_payload \<Rightarrow> string list \<Rightarrow> sock_payload list outcome" where
  \<comment> \<open>\<^verbatim>\<open>while(1)\<close>: the words typed so far and what has been written for them\<close>
  "sender_loop buff p [] = Done []"
| "sender_loop buff p (w # ws) =
     (case strcpy buff w of
        None \<Rightarrow> Fault
      | Some buff \<Rightarrow>
          (case strcpy (sp_str p) (cstr buff) of
             None \<Rightarrow> Fault
           | Some str \<Rightarrow>
               (let q = p\<lparr>sp_no := 1, sp_str := str\<rparr>
                in bind_outcome (sender_loop buff q ws) (\<lambda>qs. Done (q # qs)))))"

definition bad_args :: "string list \<Rightarrow> bool" where
  \<comment> \<open>\<^verbatim>\<open>1 == argc || strlen(argv[1]) > 20\<close>, the list being the arguments after the program's name\<close>
  "bad_args argv \<longleftrightarrow> argv = [] \<or> length (hd argv) > 20"

definition socket_client_main ::
  "string list \<Rightarrow> bool \<Rightarrow> bool \<Rightarrow> char list \<Rightarrow> string list \<Rightarrow> int + sock_payload list outcome"
where
  \<comment> \<open>results of \<^verbatim>\<open>socket\<close> and \<^verbatim>\<open>connect\<close>; what the stack holds; the words typed\<close>
  "socket_client_main argv socket_ok connect_ok buff ws =
     (if bad_args argv then Inl 1 else if \<not> socket_ok then Inl 1 else if \<not> connect_ok then Inl 1
      else Inr (sender_loop buff zero_payload ws))"

definition diff_client_main :: "bool \<Rightarrow> bool \<Rightarrow> char list \<Rightarrow> string list \<Rightarrow> int + sock_payload list outcome" where
  "diff_client_main socket_ok connect_ok buff ws =
     (if \<not> socket_ok then Inl 1 else if \<not> connect_ok then Inl 1
      else Inr (sender_loop buff zero_payload ws))"

definition normal_client_main :: "string list \<Rightarrow> bool \<Rightarrow> bool \<Rightarrow> int + sock_payload outcome" where
  "normal_client_main argv socket_ok connect_ok =
     (if bad_args argv then Inl 1 else if \<not> socket_ok then Inl 1 else if \<not> connect_ok then Inl 1
      else Inr (case strcpy (sp_str zero_payload) (hd argv) of
                  None \<Rightarrow> Fault
                | Some str \<Rightarrow> Done (zero_payload\<lparr>sp_no := 1, sp_str := str\<rparr>)))"

definition chat_client_main :: "bool \<Rightarrow> bool \<Rightarrow> char list \<Rightarrow> string list \<Rightarrow> int + sock_payload list outcome" where
  \<comment> \<open>the client of the server for several clients, whose loop ends with the word it sends last\<close>
  "chat_client_main socket_ok connect_ok buff ws =
     (if \<not> socket_ok then Inl 1 else if \<not> connect_ok then Inl 1
      else Inr (client_main buff zero_payload ws))"

lemma chat_session:
  assumes "list_all typed ws" "''end'' \<notin> set ws" "length buff = 20"
  shows "\<exists>ps. chat_client_main True True buff (ws @ [''end'']) = Inr (Done ps) \<and> proper ps \<and> texts (butlast ps) = ws"
  using client_session [OF assms, of zero_payload] by (simp add: chat_client_main_def zero_payload_def)

section \<open>The servers\<close>

datatype reply = Got "char list" | End_of_stream | Read_fails

datatype server_line = Socket_error | Bind_error | Listen_error | Accept_error
  | Here | Read_error | Rec s32 string | Server_exiting

datatype server_end = Waiting | Exit_success | Exit_failure | Crashed

fun receive :: "reply \<Rightarrow> char list \<Rightarrow> char list" where
  \<comment> \<open>\<^verbatim>\<open>read(cl_soc_fd, &soc_payload, sizeof(soc_payload))\<close>\<close>
  "receive (Got d) b = overwrite (take 24 d) b"
| "receive _ b = b"

definition read_error :: "reply \<Rightarrow> server_line list" where
  "read_error r = (if r = Read_fails then [Read_error] else [])"

definition received_line :: "char list \<Rightarrow> server_line" where
  "received_line b = Rec (sp_no (bytes_payload b)) (cstr (sp_str (bytes_payload b)))"

fun socket_loop :: "reply list \<Rightarrow> char list \<Rightarrow> server_line list \<times> server_end" where
  \<comment> \<open>the \<^verbatim>\<open>while(1)\<close> loop of \<^verbatim>\<open>socket/socket_server.c\<close> with the results of its reads; a text that is not
     terminated makes \<^verbatim>\<open>printf\<close> run out of the payload\<close>
  "socket_loop [] b = ([], Waiting)"
| "socket_loop (r # rs) b =
     (let b = receive r b; out = Here # read_error r; str = sp_str (bytes_payload b)
      in if \<not> terminated str then (out, Crashed)
         else if strcmp_eq str ''end'' then (out @ [received_line b, Server_exiting], Exit_success)
         else case socket_loop rs b of (rest, e) \<Rightarrow> (out @ received_line b # rest, e))"

fun publish_loop :: "reply list \<Rightarrow> char list \<Rightarrow> server_line list \<times> server_end" where
  \<comment> \<open>that of \<^verbatim>\<open>server_publish\<close> and \<^verbatim>\<open>diff_machine_socket\<close>\<close>
  "publish_loop [] b = ([], Waiting)"
| "publish_loop (r # rs) b =
     (let b = receive r b; str = sp_str (bytes_payload b)
      in if \<not> terminated str then (read_error r, Crashed)
         else if strcmp_eq str ''end'' then (read_error r @ [received_line b, Server_exiting], Exit_success)
         else case publish_loop rs b of (rest, e) \<Rightarrow> (read_error r @ received_line b # rest, e))"

fun normal_loop :: "reply option list \<Rightarrow> char list \<Rightarrow> server_line list \<times> server_end" where
  \<comment> \<open>one connection per round: \<open>None\<close>: \<^verbatim>\<open>accept\<close> failed, otherwise the result of the only \<^verbatim>\<open>read\<close>\<close>
  "normal_loop [] b = ([], Waiting)"
| "normal_loop (None # cs) b = ([Accept_error], Exit_failure)"
| "normal_loop (Some r # cs) b =
     (let b = receive r b; str = sp_str (bytes_payload b)
      in if \<not> terminated str then (read_error r, Crashed)
         else if strcmp_eq str ''end'' then (read_error r @ [received_line b, Server_exiting], Exit_success)
         else case normal_loop cs b of (rest, e) \<Rightarrow> (read_error r @ received_line b # rest, e))"

definition open_server ::
  "bool \<Rightarrow> bool \<Rightarrow> bool \<Rightarrow> server_line list \<times> server_end \<Rightarrow> server_line list \<times> server_end" where
  \<comment> \<open>results of \<^verbatim>\<open>socket\<close>, \<^verbatim>\<open>bind\<close> and \<^verbatim>\<open>listen\<close>\<close>
  "open_server socket_ok bind_ok listen_ok go_on =
     (if \<not> socket_ok then ([Socket_error], Exit_failure) else if \<not> bind_ok then ([Bind_error], Exit_failure)
      else if \<not> listen_ok then ([Listen_error], Exit_failure) else go_on)"

definition socket_server_main :: "bool \<Rightarrow> bool \<Rightarrow> bool \<Rightarrow> bool \<Rightarrow> reply list \<Rightarrow> server_line list \<times> server_end" where
  "socket_server_main socket_ok bind_ok listen_ok accept_ok rs =
     open_server socket_ok bind_ok listen_ok
       (if \<not> accept_ok then ([Accept_error], Exit_failure) else socket_loop rs (payload_bytes zero_payload))"

definition publish_server_main :: "bool \<Rightarrow> bool \<Rightarrow> bool \<Rightarrow> bool \<Rightarrow> reply list \<Rightarrow> server_line list \<times> server_end" where
  "publish_server_main socket_ok bind_ok listen_ok accept_ok rs =
     open_server socket_ok bind_ok listen_ok
       (if \<not> accept_ok then ([Accept_error], Exit_failure) else publish_loop rs (payload_bytes zero_payload))"

definition diff_server_main :: "bool \<Rightarrow> bool \<Rightarrow> bool \<Rightarrow> bool \<Rightarrow> reply list \<Rightarrow> server_line list \<times> server_end" where
  "diff_server_main socket_ok bind_ok listen_ok accept_ok rs =
     open_server socket_ok bind_ok listen_ok
       (if \<not> accept_ok then ([Accept_error], Exit_failure) else publish_loop rs (payload_bytes zero_payload))"

definition normal_server_main :: "bool \<Rightarrow> bool \<Rightarrow> bool \<Rightarrow> reply option list \<Rightarrow> server_line list \<times> server_end" where
  "normal_server_main socket_ok bind_ok listen_ok cs =
     open_server socket_ok bind_ok listen_ok (normal_loop cs (payload_bytes zero_payload))"

section \<open>What the clients send\<close>

lemma bytes_of_payload [simp]: "bytes_payload (payload_bytes p) = p"
  by (simp add: bytes_payload_def payload_bytes_def of_le32_le32)

lemma length_payload_bytes [simp]: "length (payload_bytes p) = 4 + length (sp_str p)"
  by (simp add: payload_bytes_def)

definition carries :: "sock_payload \<Rightarrow> string \<Rightarrow> bool" where
  "carries p w \<longleftrightarrow> sp_no p = 1 \<and> cstr (sp_str p) = w \<and> terminated (sp_str p) \<and> length (sp_str p) = 20"

lemma receive_payload: "length (sp_str p) = 20 \<Longrightarrow> length b = 24 \<Longrightarrow> receive (Got (payload_bytes p)) b = payload_bytes p"
  by (simp add: overwrite_def)

lemma strcpy_typed:
  assumes "typed w" "length b = 20"
  shows "\<exists>s. strcpy b w = Some s \<and> cstr s = w \<and> terminated s \<and> length s = 20"
  using assms by (auto simp: typed_def strcpy_def cstr_append_NUL terminated_def)

lemma sender_carries:
  "list_all typed ws \<Longrightarrow> length buff = 20 \<Longrightarrow> length (sp_str p) = 20 \<Longrightarrow>
   \<exists>ps. sender_loop buff p ws = Done ps \<and> list_all2 carries ps ws"
proof (induction ws arbitrary: buff p)
  case Nil
  then show ?case by simp
next
  case (Cons w ws)
  obtain b where b: "strcpy buff w = Some b" "cstr b = w" "length b = 20"
    using strcpy_typed [of w buff] Cons.prems by auto
  obtain t where t: "strcpy (sp_str p) w = Some t" "cstr t = w" "terminated t" "length t = 20"
    using strcpy_typed [of w "sp_str p"] Cons.prems by auto
  obtain ps where "sender_loop b (p\<lparr>sp_no := 1, sp_str := t\<rparr>) ws = Done ps" "list_all2 carries ps ws"
    using Cons.IH [of b "p\<lparr>sp_no := 1, sp_str := t\<rparr>"] Cons.prems b(3) t(4) by auto
  moreover have "carries (p\<lparr>sp_no := 1, sp_str := t\<rparr>) w" using t by (simp add: carries_def)
  ultimately show ?case using b t by (intro exI [of _ "p\<lparr>sp_no := 1, sp_str := t\<rparr> # ps"]) (simp add: Let_def)
qed

lemma normal_client_carries:
  assumes "typed w"
  shows "\<exists>p. normal_client_main [w] True True = Inr (Done p) \<and> carries p w"
  using strcpy_typed [OF assms, of "replicate 20 NUL"] assms
  by (auto simp: normal_client_main_def bad_args_def typed_def zero_payload_def carries_def)

lemma normal_clients_carry:
  "list_all typed ws \<Longrightarrow>
   \<exists>qs. list_all2 carries qs ws \<and> list_all2 (\<lambda>p w. normal_client_main [w] True True = Inr (Done p)) qs ws"
proof (induction ws)
  case Nil
  then show ?case by simp
next
  case (Cons w ws)
  then obtain q qs where "list_all2 carries qs ws" "list_all2 (\<lambda>p w. normal_client_main [w] True True = Inr (Done p)) qs ws"
    "normal_client_main [w] True True = Inr (Done q)" "carries q w"
    using normal_client_carries [of w] by auto
  then show ?case by (intro exI [of _ "q # qs"]) simp
qed

section \<open>What the servers print\<close>

lemma normal_is_publish: "normal_loop (map Some rs) b = publish_loop rs b"
  by (induction rs arbitrary: b) (auto simp: Let_def)

text \<open>
  What a server has to print, said of the messages and without their bytes: after each read it shows the
  payload that arrived last (the zeroed one before the first), up to the first that is \<^verbatim>\<open>"end"\<close>.  An arrival is
  a whole payload, the end of the stream or a failed read.
\<close>

datatype arrival = Message sock_payload | Closed | Failing

fun reply_of :: "arrival \<Rightarrow> reply" where
  "reply_of (Message p) = Got (payload_bytes p)"
| "reply_of Closed = End_of_stream"
| "reply_of Failing = Read_fails"

fun messages :: "arrival list \<Rightarrow> sock_payload list" where
  "messages [] = []"
| "messages (Message p # es) = p # messages es"
| "messages (e # es) = messages es"

definition shown :: "sock_payload \<Rightarrow> arrival list \<Rightarrow> nat \<Rightarrow> sock_payload" where
  "shown q es i = last (q # messages (take (Suc i) es))"

definition endless :: "sock_payload \<Rightarrow> bool" where
  \<comment> \<open>the text has no end within its 20 bytes\<close>
  "endless p \<longleftrightarrow> NUL \<notin> set (sp_str p)"

definition text_of :: "sock_payload \<Rightarrow> string" where
  "text_of p = takeWhile (\<lambda>c. c \<noteq> NUL) (sp_str p)"

definition complaint :: "server_line list \<Rightarrow> arrival \<Rightarrow> server_line list" where
  "complaint greet e = greet @ (if e = Failing then [Read_error] else [])"

definition shown_lines :: "server_line list \<Rightarrow> sock_payload \<Rightarrow> arrival list \<Rightarrow> nat \<Rightarrow> server_line list" where
  "shown_lines greet q es i =
     complaint greet (es ! i) @ [Rec (sp_no (shown q es i)) (text_of (shown q es i))]"

definition shown_session :: "server_line list \<Rightarrow> sock_payload \<Rightarrow> arrival list \<Rightarrow> server_line list \<times> server_end" where
  "shown_session greet q es =
     (case find (\<lambda>i. endless (shown q es i) \<or> text_of (shown q es i) = ''end'') [0..<length es] of
        None \<Rightarrow> (concat (map (shown_lines greet q es) [0..<length es]), Waiting)
      | Some n \<Rightarrow>
          (let before = concat (map (shown_lines greet q es) [0..<n])
           in if endless (shown q es n) then (before @ complaint greet (es ! n), Crashed)
              else (before @ shown_lines greet q es n @ [Server_exiting], Exit_success)))"

definition whole_arrival :: "arrival \<Rightarrow> bool" where
  "whole_arrival e = (case e of Message p \<Rightarrow> length (sp_str p) = 20 | _ \<Rightarrow> True)"

fun latest :: "sock_payload \<Rightarrow> arrival \<Rightarrow> sock_payload" where
  "latest q (Message p) = p"
| "latest q _ = q"

lemma messages_Cons: "last (q # messages (e # es)) = last (latest q e # messages es)"
  by (cases e) simp_all

lemma shown_Cons: "shown q (e # es) 0 = latest q e" "shown q (e # es) (Suc i) = shown (latest q e) es i"
  by (simp_all only: shown_def take_Suc_Cons messages_Cons) simp

lemma shown_lines_Cons:
  "shown_lines g q (e # es) 0 = complaint g e @ [Rec (sp_no (latest q e)) (text_of (latest q e))]"
  "shown_lines g q (e # es) (Suc i) = shown_lines g (latest q e) es i"
  by (simp_all add: shown_lines_def shown_Cons)

lemma find_upt_Suc:
  "find P [0..<Suc n] = (if P 0 then Some 0 else map_option Suc (find (\<lambda>i. P (Suc i)) [0..<n]))"
proof -
  have "find P (map Suc xs) = map_option Suc (find (\<lambda>i. P (Suc i)) xs)" for xs by (induction xs) auto
  then show ?thesis by (simp only: upt_conv_Cons [OF zero_less_Suc] map_Suc_upt [symmetric] find.simps)
qed

lemma concat_upt_Suc: "concat (map f [0..<Suc n]) = f 0 @ concat (map (\<lambda>i. f (Suc i)) [0..<n])"
  by (simp only: upt_conv_Cons [OF zero_less_Suc] map_Suc_upt [symmetric] list.map concat.simps map_map comp_def)

lemma shown_session_Nil: "shown_session g q [] = ([], Waiting)"
  by (simp add: shown_session_def)

lemma shown_session_Cons:
  "shown_session g q (e # es) =
     (let p = latest q e
      in if endless p then (complaint g e, Crashed)
         else if text_of p = ''end'' then (complaint g e @ [Rec (sp_no p) (text_of p), Server_exiting], Exit_success)
         else case shown_session g p es of (rest, x) \<Rightarrow> (complaint g e @ Rec (sp_no p) (text_of p) # rest, x))"
  by (auto simp: shown_session_def Let_def find_upt_Suc shown_Cons shown_lines_Cons concat_upt_Suc list.size(4)
      simp del: upt_Suc split: option.splits)

lemma arrival_received:
  assumes "whole_arrival e" "length (sp_str q) = 20"
  shows "receive (reply_of e) (payload_bytes q) = payload_bytes (latest q e)" "length (sp_str (latest q e)) = 20"
    "read_error (reply_of e) = complaint [] e"
  using assms receive_payload [of "latest q e" "payload_bytes q"]
  by (cases e; simp add: whole_arrival_def read_error_def complaint_def del: receive.simps(1))+

lemma payload_shown:
  "terminated (sp_str p) \<longleftrightarrow> \<not> endless p" "received_line (payload_bytes p) = Rec (sp_no p) (text_of p)"
  "terminated (sp_str p) \<Longrightarrow> strcmp_eq (sp_str p) ''end'' \<longleftrightarrow> text_of p = ''end''"
  by (auto simp: endless_def terminated_def received_line_def text_of_def cstr_def strcmp_eq_def)

lemma publish_served:
  "list_all whole_arrival es \<Longrightarrow> length (sp_str q) = 20 \<Longrightarrow>
     publish_loop (map reply_of es) (payload_bytes q) = shown_session [] q es"
proof (induction es arbitrary: q)
  case Nil
  then show ?case by (simp add: shown_session_Nil)
next
  case (Cons e es)
  then have e: "whole_arrival e" "list_all whole_arrival es" by simp_all
  note r = arrival_received [OF e(1) Cons.prems(2)]
  show ?case
    by (simp add: shown_session_Cons r payload_shown Cons.IH [OF e(2) r(2)] Let_def)
qed

lemma socket_served:
  "list_all whole_arrival es \<Longrightarrow> length (sp_str q) = 20 \<Longrightarrow>
     socket_loop (map reply_of es) (payload_bytes q) = shown_session [Here] q es"
proof (induction es arbitrary: q)
  case Nil
  then show ?case by (simp add: shown_session_Nil)
next
  case (Cons e es)
  then have e: "whole_arrival e" "list_all whole_arrival es" by simp_all
  note r = arrival_received [OF e(1) Cons.prems(2)]
  have c: "Here # complaint [] e = complaint [Here] e" by (simp add: complaint_def)
  show ?case
    by (simp add: shown_session_Cons r c payload_shown Cons.IH [OF e(2) r(2)] Let_def)
qed

text \<open>
  C33. The single-client servers implement one specification, which knows nothing of bytes, buffers and
  reads: after every read \<open>i\<close> they show number and text of the payload that arrived last, a failed read with
  its error line first, until the first payload that reads \<^verbatim>\<open>"end"\<close>, at which they exit successfully.
  \<^verbatim>\<open>socket_server.c\<close> prints \<^verbatim>\<open>"Here"\<close> before each of these lines; the publishing server, the one for
  different machines, and the one that accepts a connection for every payload print exactly the lines of the
  specification.  The payloads arrive whole (24 bytes per read).
\<close>

theorem single_servers_equivalent:
  assumes "list_all whole_arrival es"
  shows "socket_server_main True True True True (map reply_of es) = shown_session [Here] zero_payload es
    \<and> publish_server_main True True True True (map reply_of es) = shown_session [] zero_payload es
    \<and> diff_server_main True True True True (map reply_of es) = shown_session [] zero_payload es
    \<and> normal_server_main True True True (map (\<lambda>e. Some (reply_of e)) es) = shown_session [] zero_payload es"
proof -
  have z: "length (sp_str zero_payload) = 20" by (simp add: zero_payload_def)
  have "map (\<lambda>e. Some (reply_of e)) es = map Some (map reply_of es)" by simp
  then show ?thesis
    unfolding socket_server_main_def publish_server_main_def diff_server_main_def normal_server_main_def open_server_def
    by (simp only: socket_served [OF assms z] publish_served [OF assms z] normal_is_publish simp_thms if_True if_False)
qed

theorem single_servers_equivalent_witness:
  "socket_server_main True True True True
     (map reply_of [Message \<lparr>sp_no = 7, sp_str = ''hi'' @ replicate 18 NUL\<rparr>, Failing, Closed,
                    Message \<lparr>sp_no = 8, sp_str = ''end'' @ replicate 17 NUL\<rparr>, Closed])
   = ([Here, Rec 7 ''hi'', Here, Read_error, Rec 7 ''hi'', Here, Rec 7 ''hi'', Here, Rec 8 ''end'', Server_exiting],
      Exit_success)"
proof -
  let ?es = "[Message \<lparr>sp_no = 7, sp_str = ''hi'' @ replicate 18 NUL\<rparr>, Failing, Closed,
    Message \<lparr>sp_no = 8, sp_str = ''end'' @ replicate 17 NUL\<rparr>, Closed]"
  have "list_all whole_arrival ?es" by (simp add: whole_arrival_def)
  note single_servers_equivalent [OF this, THEN conjunct1]
  also have "shown_session [Here] zero_payload ?es
      = ([Here, Rec 7 ''hi'', Here, Read_error, Rec 7 ''hi'', Here, Rec 7 ''hi'', Here, Rec 8 ''end'', Server_exiting],
         Exit_success)"
    by (simp add: shown_session_Cons shown_session_Nil complaint_def text_of_def endless_def)
  finally show ?thesis .
qed

definition until_end :: "string list \<Rightarrow> string list" where
  "until_end ws = takeWhile (\<lambda>w. w \<noteq> ''end'') ws @ (if ''end'' \<in> set ws then [''end''] else [])"

definition session_lines :: "string list \<Rightarrow> server_line list \<times> server_end" where
  \<comment> \<open>every word up to \<^verbatim>\<open>"end"\<close>, with message number 1\<close>
  "session_lines ws =
     (map (Rec 1) (until_end ws) @ (if ''end'' \<in> set ws then [Server_exiting] else []),
      if ''end'' \<in> set ws then Exit_success else Waiting)"

lemma serve_session:
  "list_all2 carries ps ws \<Longrightarrow> length b = 24 \<Longrightarrow>
   publish_loop (map (\<lambda>p. Got (payload_bytes p)) ps) b = session_lines ws"
proof (induction ps ws arbitrary: b rule: list_all2_induct)
  case Nil
  then show ?case by (simp add: session_lines_def until_end_def)
next
  case (Cons p ps w ws)
  then have r: "receive (Got (payload_bytes p)) b = payload_bytes p" "length (payload_bytes p) = 24"
    by (simp_all add: receive_payload carries_def del: receive.simps)
  show ?case
    using Cons.hyps Cons.IH [OF r(2)] r(1)
    by (auto simp: carries_def strcmp_eq_def received_line_def read_error_def session_lines_def until_end_def Let_def
        simp del: receive.simps)
qed

text \<open>
  C34. Client and server together: the words typed at the client (each of at most 19 characters) are
  printed by the server in order with message number 1, up to and including the first \<^verbatim>\<open>"end"\<close>, at
  which it exits successfully; one-message clients deliver the same to the server that accepts a
  connection per message.  The reads are taken to return whole payloads.
\<close>

theorem socket_session_delivered:
  assumes "list_all typed ws" "length buff = 20"
  shows "(\<exists>ps. sender_loop buff zero_payload ws = Done ps
        \<and> publish_server_main True True True True (map (\<lambda>p. Got (payload_bytes p)) ps) = session_lines ws)
    \<and> (\<exists>ps. list_all2 (\<lambda>p w. normal_client_main [w] True True = Inr (Done p)) ps ws
        \<and> normal_server_main True True True (map (\<lambda>p. Some (Got (payload_bytes p))) ps) = session_lines ws)"
proof
  have z: "length (payload_bytes zero_payload) = 24" by (simp add: zero_payload_def)
  have "length (sp_str zero_payload) = 20" by (simp add: zero_payload_def)
  from sender_carries [OF assms this] obtain ps where
    ps: "sender_loop buff zero_payload ws = Done ps" "list_all2 carries ps ws" by blast
  with serve_session [OF ps(2) z]
  show "\<exists>ps. sender_loop buff zero_payload ws = Done ps
      \<and> publish_server_main True True True True (map (\<lambda>p. Got (payload_bytes p)) ps) = session_lines ws"
    by (auto simp: publish_server_main_def open_server_def)
next
  have z: "length (payload_bytes zero_payload) = 24" by (simp add: zero_payload_def)
  obtain qs where qs: "list_all2 carries qs ws"
    "list_all2 (\<lambda>p w. normal_client_main [w] True True = Inr (Done p)) qs ws"
    using normal_clients_carry [OF assms(1)] by blast
  then show "\<exists>ps. list_all2 (\<lambda>p w. normal_client_main [w] True True = Inr (Done p)) ps ws
      \<and> normal_server_main True True True (map (\<lambda>p. Some (Got (payload_bytes p))) ps) = session_lines ws"
    using serve_session [OF qs(1) z] normal_is_publish [of "map (\<lambda>p. Got (payload_bytes p)) qs"]
    by (intro exI [of _ qs]) (simp add: normal_server_main_def open_server_def comp_def)
qed

theorem socket_session_delivered_witness:
  "\<exists>ps. sender_loop (replicate 20 NUL) zero_payload [''hi'', ''end''] = Done ps
     \<and> publish_server_main True True True True (map (\<lambda>p. Got (payload_bytes p)) ps)
       = ([Rec 1 ''hi'', Rec 1 ''end'', Server_exiting], Exit_success)"
  using socket_session_delivered [of "[''hi'', ''end'']" "replicate 20 NUL"]
  by (simp add: typed_def session_lines_def until_end_def)

definition text_payload :: "string \<Rightarrow> sock_payload" where
  "text_payload w = \<lparr>sp_no = 1, sp_str = w @ replicate (20 - length w) NUL\<rparr>"

lemma le32_1: "le32 1 = [CHR 0x01, NUL, NUL, NUL]"
  by (simp add: le32_def char_of_def bit_Suc_0_iff)

lemma le32_0: "le32 0 = [NUL, NUL, NUL, NUL]"
  by (simp add: le32_def char_of_def)

lemma text_bytes: "payload_bytes (text_payload w) = [CHR 0x01, NUL, NUL, NUL] @ w @ replicate (20 - length w) NUL"
  by (simp add: payload_bytes_def text_payload_def le32_1)

lemma zero_bytes: "payload_bytes zero_payload = replicate 24 NUL"
  by (simp add: payload_bytes_def zero_payload_def le32_0 numeral_eq_Suc)

text \<open>
  The servers ignore how much a \<^verbatim>\<open>read\<close> returned.  After a client has gone without \<^verbatim>\<open>"end"\<close> its last
  message is printed again for every further \<^verbatim>\<open>read\<close>, for ever; and a message that arrives in two
  pieces (8 and 16 bytes of \<^verbatim>\<open>"hello"\<close>) is printed as two messages, neither of which was sent.
\<close>

lemma read_length_ignored:
  "publish_server_main True True True True (Got (payload_bytes (text_payload ''hi'')) # replicate n End_of_stream)
     = (replicate (Suc n) (Rec 1 ''hi''), Waiting)
   \<and> publish_server_main True True True True
       [Got (take 8 (payload_bytes (text_payload ''hello''))), Got (drop 8 (payload_bytes (text_payload ''hello'')))]
     = ([Rec 1 ''hell'', Rec 111 []], Waiting)"
proof
  let ?p = "text_payload ''hi''"
  have c: "carries ?p ''hi''" by (simp add: carries_def terminated_def cstr_def text_payload_def)
  have "publish_loop (replicate n End_of_stream) (payload_bytes ?p) = (replicate n (Rec 1 ''hi''), Waiting)"
    using c by (induction n) (simp_all add: carries_def strcmp_eq_def received_line_def read_error_def)
  moreover have "receive (Got (payload_bytes ?p)) (payload_bytes zero_payload) = payload_bytes ?p"
    using c by (intro receive_payload) (simp_all add: carries_def zero_payload_def)
  ultimately show "publish_server_main True True True True (Got (payload_bytes ?p) # replicate n End_of_stream)
     = (replicate (Suc n) (Rec 1 ''hi''), Waiting)"
    using c by (simp add: publish_server_main_def open_server_def carries_def strcmp_eq_def received_line_def read_error_def
        del: receive.simps)
next
  show "publish_server_main True True True True
       [Got (take 8 (payload_bytes (text_payload ''hello''))), Got (drop 8 (payload_bytes (text_payload ''hello'')))]
     = ([Rec 1 ''hell'', Rec 111 []], Waiting)"
    by (simp add: publish_server_main_def open_server_def text_bytes zero_bytes Let_def overwrite_def
        bytes_payload_def of_le32_def terminated_def strcmp_eq_def cstr_def received_line_def read_error_def replicate_def)
qed

end
