(* ===== verification/Ipc_Programs.thy ===== *)
theory Ipc_Programs
  imports Kernel_IO Channel_Contract
begin

text \<open>
  The programs that pass short strings between processes: through a pipe
  (\<^verbatim>\<open>ipc_mechanisms/pipe/simple_pipe.c\<close>, \<^verbatim>\<open>parent_child_pipe.c\<close>,
  \<^verbatim>\<open>linux_task/pipe_parent_child_comm/pipe_task.c\<close>), a FIFO (\<^verbatim>\<open>ipc_mechanisms/fifo\<close>) and a System V
  message queue (\<^verbatim>\<open>ipc_mechanisms/msg_queue\<close>).  Results of system calls are arguments; what a program
  prints is the list of the strings it puts into its output lines.  An exit status is 1 for
  \<^verbatim>\<open>EXIT_FAILURE\<close> and 0 otherwise.
\<close>

definition printf_s :: "char list \<Rightarrow> string outcome" where
  \<comment> \<open>\<^verbatim>\<open>%s\<close> of an array: without a NUL byte in it the array is left\<close>
  "printf_s b = (if terminated b then Done (cstr b) else Fault)"

section \<open>A pipe within one process\<close>

definition simple_pipe_main :: "string list \<Rightarrow> bool \<Rightarrow> bool \<Rightarrow> (int \<times> string list) outcome" where
  \<comment> \<open>\<^verbatim>\<open>argv\<close>, results of \<^verbatim>\<open>pipe\<close> and \<^verbatim>\<open>write\<close>; \<^verbatim>\<open>test_pipe.c\<close> is the same program\<close>
  "simple_pipe_main argv pipe_ok write_ok =
     (if length argv \<le> 1 \<or> length (argv ! 1) > 20 then Done (1, [])
      else if \<not> pipe_ok then Done (1, [])
      else if \<not> write_ok then Done (1, [])
      else let pipe_content = take (length (argv ! 1) + 1) (argv ! 1 @ [NUL]);
               read_buf = overwrite (take 20 pipe_content) (replicate 20 NUL)
           in bind_outcome (printf_s read_buf) (\<lambda>l. Done (0, [l])))"

section \<open>FIFO\<close>

definition fifo_p2_main :: "string list \<Rightarrow> bool \<Rightarrow> bool \<Rightarrow> bool \<Rightarrow> bool \<Rightarrow> int \<times> char list" where
  \<comment> \<open>the FIFO exists, results of \<^verbatim>\<open>mkfifo\<close>, \<^verbatim>\<open>open\<close>, \<^verbatim>\<open>write\<close>; the bytes written\<close>
  "fifo_p2_main argv exists mkfifo_ok open_ok write_ok =
     (if length argv = 1 \<or> length (argv ! 1) > 20 then (1, [])
      else if \<not> exists \<and> \<not> mkfifo_ok then (1, [])
      else if \<not> open_ok then (1, [])
      else if \<not> write_ok then (1, [])
      else (0, argv ! 1))"

datatype fifo_session = Open_fails | Read_fails | Delivers "char list"

fun fifo_p1_loop :: "char list \<Rightarrow> fifo_session list \<Rightarrow> (int option \<times> string list) outcome" where
  \<comment> \<open>\<^verbatim>\<open>read_buf\<close> and what the successive openings bring; \<open>None\<close>: it waits for a writer\<close>
  "fifo_p1_loop read_buf [] = Done (None, [])"
| "fifo_p1_loop read_buf (Open_fails # ss) = Done (Some 1, [])"
| "fifo_p1_loop read_buf (Read_fails # ss) = Done (Some 1, [])"
| "fifo_p1_loop read_buf (Delivers d # ss) =
     (let read_buf = overwrite (take 20 d) read_buf
      in bind_outcome (printf_s read_buf) (\<lambda>l.
           if strcmp_eq read_buf ''end'' then Done (Some 0, [l])
           else bind_outcome (fifo_p1_loop (memset read_buf NUL 20) ss) (\<lambda>(r, ls). Done (r, l # ls))))"

definition fifo_p1_main :: "bool \<Rightarrow> bool \<Rightarrow> fifo_session list \<Rightarrow> (int option \<times> string list) outcome" where
  "fifo_p1_main exists mkfifo_ok sessions =
     (if \<not> exists \<and> \<not> mkfifo_ok then Done (Some 1, []) else fifo_p1_loop (replicate 20 NUL) sessions)"

section \<open>Message queue\<close>

definition queue_p1_main :: "string list \<Rightarrow> bool \<Rightarrow> bool \<Rightarrow> char list list \<Rightarrow> (int \<times> char list list) outcome" where
  \<comment> \<open>results of \<^verbatim>\<open>msgget\<close> and \<^verbatim>\<open>msgsnd\<close>; the queue is the list of the texts of its messages of type 1\<close>
  "queue_p1_main argv msgget_ok msgsnd_ok q =
     (if length argv = 1 \<or> length (argv ! 1) > 20 then Done (1, q)
      else if \<not> msgget_ok then Done (1, q)
      else case strcpy (replicate 20 NUL) (argv ! 1) of
        None \<Rightarrow> Fault
      | Some arr \<Rightarrow> if \<not> msgsnd_ok then Done (1, q) else Done (0, q @ [arr]))"

definition queue_p2_main :: "bool \<Rightarrow> bool \<Rightarrow> bool \<Rightarrow> char list list \<Rightarrow> (int \<times> string list \<times> char list list option) outcome" where
  \<comment> \<open>results of \<^verbatim>\<open>msgget\<close>, \<^verbatim>\<open>msgrcv\<close> and \<^verbatim>\<open>msgctl\<close>; \<open>None\<close>: the queue is removed\<close>
  "queue_p2_main msgget_ok msgrcv_ok msgctl_ok q =
     (if \<not> msgget_ok then Done (1, [], Some q)
      else if \<not> msgrcv_ok then Done (1, [], Some q)
      else case q of
        [] \<Rightarrow> Blocked
      | arr # q \<Rightarrow>
          bind_outcome (printf_s arr) (\<lambda>l.
            if strcmp_eq arr ''end''
            then (if msgctl_ok then Done (0, [l], None) else Done (1, [l], Some q))
            else Done (0, [l], Some q)))"

lemma overwrite_text:
  "length w < n \<Longrightarrow> NUL \<notin> set w \<Longrightarrow>
     cstr (overwrite w (replicate n NUL)) = w \<and> terminated (overwrite w (replicate n NUL))"
  by (simp add: overwrite_def terminated_def cstr_no_NUL)

lemma overwrite_text_NUL:
  "length w < n \<Longrightarrow> NUL \<notin> set w \<Longrightarrow>
     cstr (overwrite (w @ [NUL]) (replicate n NUL)) = w \<and> terminated (overwrite (w @ [NUL]) (replicate n NUL))"
  by (simp add: overwrite_def terminated_def cstr_append_NUL)

lemma strcpy_text: "length w < n \<Longrightarrow> strcpy (replicate n NUL) w = Some (w @ replicate (n - length w) NUL)"
  by (simp add: strcpy_def Suc_diff_Suc flip: replicate_Suc)

lemma text_buffer: "length w < n \<Longrightarrow> NUL \<notin> set w \<Longrightarrow> cstr (w @ replicate (n - length w) NUL) = w
    \<and> terminated (w @ replicate (n - length w) NUL)"
  by (simp add: terminated_def cstr_no_NUL)

text \<open>
  The string programs hand over what they are given: an argument of up to 19 characters comes
  out of the pipe, the FIFO reader and the queue reader as it went in, and \<^verbatim>\<open>end\<close> removes the queue;
  the argument of 20 characters that all of them let through leaves a 20-byte array without its NUL
  byte (pipe, FIFO) or is written beyond it (queue).
\<close>

lemma string_programs:
  assumes "NUL \<notin> set w" "length w \<le> 20"
  shows "if length w < 20
     then simple_pipe_main [prog, w] True True = Done (0, [w])
       \<and> fifo_p1_main True ok [Delivers (snd (fifo_p2_main [prog, w] True ok True True))]
           = Done (if w = ''end'' then Some 0 else None, [w])
       \<and> (\<exists>arr. queue_p1_main [prog, w] True True [] = Done (0, [arr])
            \<and> queue_p2_main True True True [arr] = Done (0, [w], if w = ''end'' then None else Some []))
     else simple_pipe_main [prog, w] True True = Fault
       \<and> fifo_p1_main True ok [Delivers (snd (fifo_p2_main [prog, w] True ok True True))] = Fault
       \<and> queue_p1_main [prog, w] True True q = Fault"
proof (cases "length w < 20")
  case True
  then have "queue_p1_main [prog, w] True True [] = Done (0, [w @ replicate (20 - length w) NUL])"
    by (simp add: queue_p1_main_def strcpy_text)
  with True assms(1) overwrite_text [of w 20] overwrite_text_NUL [of w 20] text_buffer [of w 20] show ?thesis
    by (simp add: simple_pipe_main_def fifo_p1_main_def fifo_p2_main_def queue_p2_main_def printf_s_def strcmp_eq_def)
next
  case False
  with assms(2) have "length w = 20" by simp
  moreover from this assms(1) have "\<not> terminated (overwrite w (replicate 20 NUL))"
    by (simp add: terminated_def overwrite_def)
  ultimately show ?thesis
    by (simp add: simple_pipe_main_def fifo_p1_main_def fifo_p2_main_def queue_p1_main_def printf_s_def strcpy_def)
qed

section \<open>Sequences of messages\<close>

definition send_text :: "string \<Rightarrow> char list list \<Rightarrow> char list list" where
  \<comment> \<open>a run of \<^verbatim>\<open>queue_p1\<close>\<close>
  "send_text w q = (case queue_p1_main [''queue_p1'', w] True True q of Done (_, q') \<Rightarrow> q' | _ \<Rightarrow> q)"

definition receive_text :: "char list list \<Rightarrow> (string \<times> char list list) option" where
  \<comment> \<open>a run of \<^verbatim>\<open>queue_p2\<close>\<close>
  "receive_text q = (case queue_p2_main True True True q of
     Done (_, [l], Some q') \<Rightarrow> Some (l, q') | Done (_, [l], None) \<Rightarrow> Some (l, []) | _ \<Rightarrow> None)"

definition text_queue :: "char list list \<Rightarrow> bool" where
  "text_queue q \<longleftrightarrow> list_all (\<lambda>a. terminated a \<and> cstr a \<noteq> ''end'') q"

interpretation string_queue: mailbox send_text receive_text "map cstr" text_queue "\<lambda>w. typed w \<and> w \<noteq> ''end''"
proof
  fix q :: "char list list" and w :: string
  assume "text_queue q" and w: "typed w \<and> w \<noteq> ''end''"
  then show "text_queue (send_text w q)" "map cstr (send_text w q) = map cstr q @ [w]"
    using text_buffer [of w 20]
    by (simp_all add: send_text_def queue_p1_main_def strcpy_text text_queue_def typed_def)
next
  fix q :: "char list list" and q' and w
  assume q: "text_queue q"
  then show "(receive_text q = None) = (map cstr q = [])"
    by (cases q) (auto simp: receive_text_def queue_p2_main_def printf_s_def strcmp_eq_def text_queue_def)
  assume "receive_text q = Some (w, q')"
  with q show "map cstr q = w # map cstr q' \<and> text_queue q'"
    by (cases q) (auto simp: receive_text_def queue_p2_main_def printf_s_def strcmp_eq_def text_queue_def)
qed

lemma fifo_loop:
  assumes "list_all typed ws" "''end'' \<notin> set ws"
  shows "fifo_p1_loop (replicate 20 NUL)
      (map (\<lambda>w. Delivers (snd (fifo_p2_main [''fifo_p2'', w] True True True True))) (ws @ [''end'']))
    = Done (Some 0, ws @ [''end''])"
  using assms
proof (induction ws)
  case Nil
  show ?case using overwrite_text [of "''end''" 20]
    by (simp add: fifo_p2_main_def printf_s_def strcmp_eq_def Let_def)
next
  case (Cons w ws)
  then have w: "length w < 20" "NUL \<notin> set w" "w \<noteq> ''end''" by (auto simp: typed_def)
  have clear: "memset (overwrite w (replicate 20 NUL)) NUL 20 = replicate 20 NUL"
    using w(1) by (simp add: memset_def overwrite_def)
  show ?case
    using Cons w overwrite_text [OF w(1,2)] by (simp add: fifo_p2_main_def printf_s_def strcmp_eq_def clear)
qed

text \<open>
  Any number of messages arrives in order: the FIFO reader prints the texts of all writers,
  one opening each, and ends with \<^verbatim>\<open>end\<close>; texts put on the queue by successive runs of
  \<^verbatim>\<open>queue_p1\<close> are printed by as many runs of \<^verbatim>\<open>queue_p2\<close> in the order sent, leaving the queue empty.
\<close>

lemma string_streams:
  assumes "list_all typed ws" "''end'' \<notin> set ws"
  shows "fifo_p1_main True True
      (map (\<lambda>w. Delivers (snd (fifo_p2_main [''fifo_p2'', w] True True True True))) (ws @ [''end'']))
    = Done (Some 0, ws @ [''end''])
    \<and> string_queue.fetch_n (length ws) (fold send_text ws []) = Some (ws, [])"
proof -
  have "list_all (\<lambda>w. typed w \<and> w \<noteq> ''end'') ws" using assms by (auto simp: list_all_iff)
  from string_queue.fifo [OF _ _ this, of "[]"]
  have "string_queue.fetch_n (length ws) (string_queue.post_all ws []) = Some (ws, [])" by (simp add: text_queue_def)
  moreover have "string_queue.post_all ws q = fold send_text ws q" for q
    by (induction ws arbitrary: q) simp_all
  ultimately show ?thesis using fifo_loop [OF assms] by (simp add: fifo_p1_main_def)
qed

section \<open>A pipe between parent and child\<close>

record pipe_procs =
  pc_words :: "string list"      \<comment> \<open>what will be typed at the parent\<close>
  write_buf :: "char list"
  pc_pipe :: "char list"
  parent_exit :: "int option"
  read_buf :: "char list"
  child_out :: "string list"
  child_exit :: "int option"

definition parent_child_main :: "bool \<Rightarrow> bool \<Rightarrow> string list \<Rightarrow> int + pipe_procs" where
  \<comment> \<open>results of \<^verbatim>\<open>pipe\<close> and \<^verbatim>\<open>fork\<close>\<close>
  "parent_child_main pipe_ok fork_ok ws =
     (if \<not> pipe_ok then Inl 1 else if \<not> fork_ok then Inl 1
      else Inr \<lparr>pc_words = ws, write_buf = replicate 20 NUL, pc_pipe = [], parent_exit = None,
                read_buf = replicate 20 NUL, child_out = [], child_exit = None\<rparr>)"

definition parent_loop :: "bool \<Rightarrow> pipe_procs \<Rightarrow> pipe_procs outcome" where
  \<comment> \<open>one round: \<^verbatim>\<open>scanf("%s", write_buf)\<close> and the \<^verbatim>\<open>write\<close> of 20 bytes\<close>
  "parent_loop write_ok s =
     (if parent_exit s \<noteq> None then Blocked
      else case pc_words s of
        [] \<Rightarrow> Blocked
      | w # ws \<Rightarrow>
          (case strcpy (write_buf s) w of
             None \<Rightarrow> Fault
           | Some b \<Rightarrow>
               (let s = s\<lparr>pc_words := ws, write_buf := b,
                          pc_pipe := (if write_ok then pc_pipe s @ take 20 b else pc_pipe s)\<rparr>
                in if strcmp_eq b ''end'' then Done (s\<lparr>parent_exit := Some 0\<rparr>)
                   else if \<not> write_ok then Done (s\<lparr>parent_exit := Some 1\<rparr>)
                   else Done s)))"

definition child_loop :: "pipe_procs \<Rightarrow> pipe_procs outcome" where
  \<comment> \<open>one round; when the parent is gone, \<^verbatim>\<open>read\<close> on the empty pipe returns and leaves the buffer\<close>
  "child_loop s =
     (if child_exit s \<noteq> None then Blocked
      else if pc_pipe s = [] \<and> parent_exit s = None then Blocked
      else let s = s\<lparr>read_buf := overwrite (take 20 (pc_pipe s)) (read_buf s), pc_pipe := drop 20 (pc_pipe s)\<rparr>
           in bind_outcome (printf_s (read_buf s)) (\<lambda>l.
             let s = s\<lparr>child_out := child_out s @ [l]\<rparr>
             in if strcmp_eq (read_buf s) ''end'' then Done (s\<lparr>child_exit := Some 0\<rparr>) else Done s))"

fun procs_run :: "bool list \<Rightarrow> pipe_procs \<Rightarrow> pipe_procs outcome" where
  \<comment> \<open>\<open>True\<close>: the parent goes round its loop\<close>
  "procs_run [] s = Done s"
| "procs_run (b # bs) s = bind_outcome (if b then parent_loop True s else child_loop s) (procs_run bs)"

definition procs_inv :: "string list \<Rightarrow> pipe_procs \<Rightarrow> bool" where
  "procs_inv ws s \<longleftrightarrow> (\<exists>fs. pc_pipe s = concat fs \<and> list_all (\<lambda>f. length f = 20 \<and> terminated f) fs
       \<and> child_out s @ map cstr fs @ pc_words s = ws @ [''end''])
     \<and> length (write_buf s) = 20 \<and> length (read_buf s) = 20
     \<and> parent_exit s = (if pc_words s = [] then Some 0 else None)
     \<and> child_exit s = (if child_out s = ws @ [''end''] then Some 0 else None)"

lemma last_of_prefix:
  "as @ w # bs = ws @ [e] \<Longrightarrow> e \<notin> set ws \<Longrightarrow> (w = e) = (bs = [])"
  by (cases bs rule: rev_cases) (auto simp: append_eq_append_conv2 Cons_eq_append_conv)

lemma parent_keeps:
  assumes "procs_inv ws s" "list_all typed ws" "''end'' \<notin> set ws" "parent_exit s = None"
  shows "\<exists>t. parent_loop True s = Done t \<and> procs_inv ws t \<and> length (pc_words s) = Suc (length (pc_words t))
    \<and> child_out t = child_out s"
proof -
  obtain fs where fs: "pc_pipe s = concat fs" "list_all (\<lambda>f. length f = 20 \<and> terminated f) fs"
    "child_out s @ map cstr fs @ pc_words s = ws @ [''end'']"
    using assms(1) by (auto simp: procs_inv_def)
  obtain w vs where w: "pc_words s = w # vs"
    using assms(1,4) by (cases "pc_words s") (auto simp: procs_inv_def)
  have "set (w # vs) \<subseteq> set (ws @ [''end''])"
    using arg_cong [OF fs(3), of set] w by auto
  then have "typed w" using assms(2) by (auto simp: list_all_iff typed_def)
  then have l: "length w < 20" "NUL \<notin> set w" by (simp_all add: typed_def)
  moreover have "length (write_buf s) = 20" using assms(1) by (simp add: procs_inv_def)
  ultimately obtain b where b: "strcpy (write_buf s) w = Some b" by (simp add: strcpy_def)
  then have "b = w @ NUL # drop (Suc (length w)) (write_buf s)" by (simp add: strcpy_def split: if_splits)
  then have "terminated b" by (simp add: terminated_def)
  with strcpy_SomeD [OF b l(2)] \<open>length (write_buf s) = 20\<close>
  have b': "cstr b = w" "length b = 20" "terminated b" by simp_all
  have e: "(w = ''end'') = (vs = [])"
    using last_of_prefix [of "child_out s @ map cstr fs" w vs ws "''end''"] fs(3) w assms(3) by simp
  define t where "t = s\<lparr>pc_words := vs, write_buf := b, pc_pipe := pc_pipe s @ b,
      parent_exit := if vs = [] then Some 0 else None\<rparr>"
  have "parent_loop True s = Done t"
    using assms(4) w b b' e by (simp add: parent_loop_def strcmp_eq_def Let_def t_def)
  moreover have "\<exists>gs. pc_pipe s @ b = concat gs \<and> list_all (\<lambda>f. length f = 20 \<and> terminated f) gs
      \<and> child_out s @ map cstr gs @ vs = ws @ [''end'']"
    using fs b' w by (intro exI [of _ "fs @ [b]"]) simp
  then have "procs_inv ws t"
    using assms(1) b' unfolding procs_inv_def t_def by simp
  ultimately show ?thesis using w by (auto simp: t_def)
qed

lemma child_keeps:
  assumes "procs_inv ws s" "''end'' \<notin> set ws" "child_exit s = None" "pc_pipe s \<noteq> [] \<or> parent_exit s \<noteq> None"
  shows "\<exists>t. child_loop s = Done t \<and> procs_inv ws t \<and> pc_words t = pc_words s
    \<and> length (child_out t) = Suc (length (child_out s))"
proof -
  obtain fs where fs: "pc_pipe s = concat fs" "list_all (\<lambda>f. length f = 20 \<and> terminated f) fs"
    "child_out s @ map cstr fs @ pc_words s = ws @ [''end'']"
    using assms(1) by (auto simp: procs_inv_def)
  obtain f gs where f: "fs = f # gs"
    using assms fs by (cases fs) (auto simp: procs_inv_def split: if_splits)
  with fs have f': "length f = 20" "terminated f" "pc_pipe s = f @ concat gs" by simp_all
  have "length (read_buf s) = 20" using assms(1) by (simp add: procs_inv_def)
  with f' have o: "overwrite (take 20 (pc_pipe s)) (read_buf s) = f" "drop 20 (pc_pipe s) = concat gs"
    by (simp_all add: overwrite_whole)
  have "(cstr f = ''end'') = (map cstr gs @ pc_words s = [])"
    using last_of_prefix [of "child_out s" "cstr f" "map cstr gs @ pc_words s" ws "''end''"] fs(3) f assms(2) by simp
  moreover have "(child_out s @ [cstr f] = ws @ [''end'']) = (map cstr gs @ pc_words s = [])"
    using fs(3) f by auto
  moreover define t where "t = s\<lparr>read_buf := f, pc_pipe := concat gs, child_out := child_out s @ [cstr f],
      child_exit := if child_out s @ [cstr f] = ws @ [''end''] then Some 0 else None\<rparr>"
  ultimately have "child_loop s = Done t"
    using assms(3,4) f' o by (auto simp: child_loop_def printf_s_def strcmp_eq_def Let_def)
  moreover have "list_all (\<lambda>f. length f = 20 \<and> terminated f) gs" "child_out s @ [cstr f] @ map cstr gs @ pc_words s = ws @ [''end'']"
    using fs f by simp_all
  then have "procs_inv ws t" using assms(1) f' unfolding procs_inv_def t_def by auto
  ultimately show ?thesis by (auto simp: t_def)
qed

lemma procs_progress:
  assumes "procs_inv ws s" "list_all typed ws" "''end'' \<notin> set ws"
  shows "(\<exists>b t. (if b then parent_loop True s else child_loop s) = Done t)
    \<or> child_out s = ws @ [''end''] \<and> parent_exit s = Some 0 \<and> child_exit s = Some 0"
proof (cases "parent_exit s = None")
  case True
  with parent_keeps [OF assms] have "\<exists>t. (if True then parent_loop True s else child_loop s) = Done t" by simp blast
  then show ?thesis by blast
next
  case False
  then have p: "parent_exit s = Some 0" using assms(1) by (auto simp: procs_inv_def split: if_splits)
  show ?thesis
  proof (cases "child_exit s = None")
    case True
    with child_keeps [OF assms(1,3)] p have "\<exists>t. (if False then parent_loop True s else child_loop s) = Done t"
      by simp blast
    then show ?thesis by blast
  next
    case False
    with assms(1) p show ?thesis by (auto simp: procs_inv_def split: if_splits)
  qed
qed

lemma procs_run_inv:
  assumes "procs_inv ws s" "list_all typed ws" "''end'' \<notin> set ws"
  shows "procs_run sched s \<noteq> Fault
    \<and> (\<forall>t. procs_run sched s = Done t \<longrightarrow> procs_inv ws t
         \<and> length sched + length (child_out s) + length (pc_words t) = length (child_out t) + length (pc_words s))"
  using assms(1)
proof (induction sched arbitrary: s)
  case Nil
  then show ?case by simp
next
  case (Cons b sched)
  show ?case
  proof (cases b)
    case True
    show ?thesis
    proof (cases "parent_exit s = None")
      case False
      with True show ?thesis by (simp add: parent_loop_def)
    next
      case run: True
      then obtain t where t: "parent_loop True s = Done t" "procs_inv ws t"
        "length (pc_words s) = Suc (length (pc_words t))" "child_out t = child_out s"
        using parent_keeps [OF Cons.prems assms(2,3)] by blast
      with Cons.IH [OF t(2)] True show ?thesis by auto
    qed
  next
    case False
    show ?thesis
    proof (cases "child_exit s = None \<and> (pc_pipe s \<noteq> [] \<or> parent_exit s \<noteq> None)")
      case stop: False
      then have "child_loop s = Blocked" by (auto simp: child_loop_def)
      with False show ?thesis by simp
    next
      case run: True
      then obtain t where t: "child_loop s = Done t" "procs_inv ws t" "pc_words t = pc_words s"
        "length (child_out t) = Suc (length (child_out s))"
        using child_keeps [OF Cons.prems assms(3)] by blast
      with Cons.IH [OF t(2)] False show ?thesis by auto
    qed
  qed
qed

lemma procs_start:
  assumes "parent_child_main True True (ws @ [''end'']) = Inr s"
  shows "procs_inv ws s \<and> child_out s = [] \<and> length (pc_words s) = Suc (length ws)"
  using assms by (auto simp: parent_child_main_def procs_inv_def)

text \<open>
  C35. The child prints what is typed at the parent, in order and completely, however the two
  processes are scheduled: at every moment the child's output is a beginning of the words typed; no
  round of either touches memory outside its buffer; while something is left to print one of them
  can go on; and after one round per word and process both have exited with status 0.
\<close>

theorem parent_child_pipe:
  assumes "list_all typed ws" "''end'' \<notin> set ws" "parent_child_main True True (ws @ [''end'']) = Inr s0"
  shows "procs_run sched s0 \<noteq> Fault
    \<and> (\<forall>s. procs_run sched s0 = Done s \<longrightarrow>
         (\<exists>later. child_out s @ later = ws @ [''end''])
         \<and> length sched \<le> 2 * length (ws @ [''end''])
         \<and> ((\<exists>b t. (if b then parent_loop True s else child_loop s) = Done t)
            \<or> child_out s = ws @ [''end''] \<and> parent_exit s = Some 0 \<and> child_exit s = Some 0))"
proof (intro conjI allI impI)
  note r = procs_run_inv [OF conjunct1 [OF procs_start [OF assms(3)]] assms(1,2), of sched]
  then show "procs_run sched s0 \<noteq> Fault" by simp
  fix s
  assume "procs_run sched s0 = Done s"
  with r have inv: "procs_inv ws s" and len: "length sched + length (child_out s0) + length (pc_words s)
      = length (child_out s) + length (pc_words s0)" by auto
  from inv obtain fs where "child_out s @ map cstr fs @ pc_words s = ws @ [''end'']" by (auto simp: procs_inv_def)
  moreover from arg_cong [OF this, of length] len procs_start [OF assms(3)]
  show "length sched \<le> 2 * length (ws @ [''end''])" by simp
  ultimately show "\<exists>later. child_out s @ later = ws @ [''end'']" by blast
  show "(\<exists>b t. (if b then parent_loop True s else child_loop s) = Done t)
      \<or> child_out s = ws @ [''end''] \<and> parent_exit s = Some 0 \<and> child_exit s = Some 0"
    using procs_progress [OF inv assms(1,2)] .
qed

theorem parent_child_pipe_witness:
  "\<exists>s0. parent_child_main True True ([''hi''] @ [''end'']) = Inr s0 \<and> procs_run [True, False, True, False] s0 \<noteq> Fault"
proof -
  obtain s0 where s: "parent_child_main True True ([''hi''] @ [''end'']) = Inr s0" by (simp add: parent_child_main_def)
  have "list_all typed [''hi'']" "''end'' \<notin> set [''hi'']" by (simp_all add: typed_def)
  from parent_child_pipe [OF this s] s show ?thesis by blast
qed

section \<open>A starting signal\<close>

definition pipe_task_parent :: "bool \<Rightarrow> int \<times> char list" where
  \<comment> \<open>exit status and what it writes: \<^verbatim>\<open>sizeof("GO")\<close> bytes\<close>
  "pipe_task_parent write_ok = (if \<not> write_ok then (1, []) else (0, ''GO'' @ [NUL]))"

definition pipe_task_child :: "char list option \<Rightarrow> int \<times> string list" where
  \<comment> \<open>what \<^verbatim>\<open>read\<close> delivers, \<open>None\<close> for -1\<close>
  "pipe_task_child rd =
     (case rd of
        None \<Rightarrow> (1, [])
      | Some d \<Rightarrow>
          (let ip_char = overwrite (take 5 d) (replicate 5 NUL)
           in if strcmp_eq ip_char ''GO'' then (0, map (\<lambda>i. ''I am Child'') [0..<5]) else (0, [])))"

lemma pipe_task_go: "pipe_task_child (Some (snd (pipe_task_parent True))) = (0, replicate 5 ''I am Child'')"
  using overwrite_text_NUL [of "''GO''" 5]
  by (simp add: pipe_task_parent_def pipe_task_child_def strcmp_eq_def upt_rec numeral_eq_Suc)

definition pipe_task_main :: "bool \<Rightarrow> bool \<Rightarrow> bool \<Rightarrow> bool \<Rightarrow> (int option \<times> string list) \<times> (int \<times> string list) option" where
  \<comment> \<open>results of \<^verbatim>\<open>pipe\<close>, \<^verbatim>\<open>fork\<close>, \<^verbatim>\<open>write\<close> and \<^verbatim>\<open>read\<close>; exit status and output of the parent and of the child.
     The parent has closed its own read end, so without a child its write is answered by \<^verbatim>\<open>SIGPIPE\<close>, which
     kills it (\<open>None\<close>); a child whose parent could not write reads the end of the file\<close>
  "pipe_task_main pipe_ok fork_ok write_ok read_ok =
     (if \<not> pipe_ok then ((Some 1, []), None)
      else if \<not> fork_ok then ((None, []), None)
      else let (status, sent) = pipe_task_parent write_ok
           in ((Some status, if status = 0 then [''parent Exit''] else []),
               Some (pipe_task_child (if read_ok then Some sent else None))))"

lemma pipe_task_all_well:
  "pipe_task_main True True True True = ((Some 0, [''parent Exit'']), Some (0, replicate 5 ''I am Child''))"
  using pipe_task_go by (simp add: pipe_task_main_def pipe_task_parent_def)

lemma pipe_task_no_order: "write_ok = False \<Longrightarrow> pipe_task_main True True write_ok True = ((Some 1, []), Some (0, []))"
  by (simp add: pipe_task_main_def pipe_task_parent_def pipe_task_child_def overwrite_def strcmp_eq_def cstr_def)

end
