(* ===== verification/Pipe_Race.thy ===== *)
theory Pipe_Race
  imports Machine
begin

text \<open>
  \<^verbatim>\<open>ipc_mechanisms/pipe/parent_child_pipe_race_condition.c\<close>: parent and child both write 20 bytes at a
  time into one pipe, which only the child reads.  The texts written are string literals shorter than
  20 bytes; what follows them in the program's data is a parameter.  The pipe holds \<open>cap\<close> bytes, and a
  write of 20 bytes is atomic: it waits until they all fit.
\<close>

section \<open>The program\<close>

datatype parent_at = P_print | P_write | P_check | P_exited bool     \<comment> \<open>\<open>True\<close>: with success\<close>
datatype child_at = C_write | C_read | C_exited

record race_state =
  pr_pipe :: "char list"
  pr_parent :: parent_at
  pr_child :: child_at
  write_buf :: "char list"
  read_buf :: "char list"
  said :: "string list"               \<comment> \<open>what the child printed after \<^verbatim>\<open>Child Read String\<close>\<close>

datatype mover = Par bool | Chi       \<comment> \<open>the flag: \<^verbatim>\<open>write\<close> succeeds\<close>

definition race_pipe_main :: "bool \<Rightarrow> bool \<Rightarrow> int + race_state" where
  \<comment> \<open>results of \<^verbatim>\<open>pipe\<close> and \<^verbatim>\<open>fork\<close>\<close>
  "race_pipe_main pipe_ok fork_ok =
     (if \<not> pipe_ok then Inl 1 else if \<not> fork_ok then Inl 1
      else Inr \<lparr>pr_pipe = [], pr_parent = P_print, pr_child = C_write, write_buf = replicate 20 NUL,
                read_buf = replicate 20 NUL, said = []\<rparr>)"

fun race_parent :: "nat \<Rightarrow> char list \<Rightarrow> bool \<Rightarrow> race_state \<Rightarrow> parent_at \<Rightarrow> race_state option" where
  \<comment> \<open>\<open>cap\<close>, the bytes at \<^verbatim>\<open>"parent"\<close>, the result of \<^verbatim>\<open>write\<close>\<close>
  "race_parent cap lit ok s P_print = Some (s\<lparr>pr_parent := P_write\<rparr>)"
| "race_parent cap lit ok s P_write =
     (if \<not> ok then Some (s\<lparr>pr_parent := if strcmp_eq (write_buf s) ''end'' then P_exited True else P_exited False\<rparr>)
      else if length (pr_pipe s) + 20 > cap then None
      else Some (s\<lparr>pr_pipe := pr_pipe s @ take 20 lit, pr_parent := P_check\<rparr>))"
| "race_parent cap lit ok s P_check =
     Some (s\<lparr>pr_parent := if strcmp_eq (write_buf s) ''end'' then P_exited True else P_print\<rparr>)"
| "race_parent cap lit ok s (P_exited b) = None"

fun race_child :: "nat \<Rightarrow> char list \<Rightarrow> race_state \<Rightarrow> child_at \<Rightarrow> race_state option" where
  "race_child cap lit s C_write =
     (if length (pr_pipe s) + 20 > cap then None
      else Some (s\<lparr>pr_pipe := pr_pipe s @ take 20 lit, pr_child := C_read\<rparr>))"
| "race_child cap lit s C_read =
     (if pr_pipe s = [] then None
      else let b = overwrite (take 20 (pr_pipe s)) (read_buf s)
           in Some (s\<lparr>pr_pipe := drop 20 (pr_pipe s), read_buf := b, said := said s @ [cstr b],
                      pr_child := if strcmp_eq b ''end'' then C_exited else C_write\<rparr>))"
| "race_child cap lit s C_exited = None"

fun race_step :: "nat \<Rightarrow> char list \<Rightarrow> char list \<Rightarrow> mover \<Rightarrow> race_state \<Rightarrow> race_state option" where
  "race_step cap pl cl (Par ok) s = race_parent cap pl ok s (pr_parent s)"
| "race_step cap pl cl Chi s = race_child cap cl s (pr_child s)"

fun race_run :: "nat \<Rightarrow> char list \<Rightarrow> char list \<Rightarrow> mover list \<Rightarrow> race_state \<Rightarrow> race_state option" where
  "race_run cap pl cl [] s = Some s"
| "race_run cap pl cl (m # ms) s =
     (case race_step cap pl cl m s of None \<Rightarrow> None | Some t \<Rightarrow> race_run cap pl cl ms t)"

interpretation race: machine "race_step cap pl cl" "race_run cap pl cl" for cap pl cl
  by unfold_locales simp_all

definition literal :: "string \<Rightarrow> char list \<Rightarrow> bool" where
  \<comment> \<open>the bytes at a string literal: the text, its NUL byte and whatever follows\<close>
  "literal w b \<longleftrightarrow> (\<exists>r. b = w @ NUL # r) \<and> 20 \<le> length b \<and> NUL \<notin> set w"

section \<open>What is on the pipe\<close>

definition race_inv :: "nat \<Rightarrow> char list \<Rightarrow> char list \<Rightarrow> race_state \<Rightarrow> bool" where
  "race_inv cap pl cl s \<longleftrightarrow>
     (\<exists>fs. pr_pipe s = concat fs \<and> set fs \<subseteq> {take 20 pl, take 20 cl} \<and> (pr_child s = C_read \<longrightarrow> fs \<noteq> []))
     \<and> length (pr_pipe s) \<le> cap \<and> length (read_buf s) = 20 \<and> write_buf s = replicate 20 NUL
     \<and> (\<forall>b. pr_parent s \<noteq> P_exited b) \<and> pr_child s \<noteq> C_exited \<and> set (said s) \<subseteq> {''parent'', ''Child''}"

lemma literal_frame: "literal w b \<Longrightarrow> length w < 20 \<Longrightarrow> length (take 20 b) = 20 \<and> cstr (take 20 b) = w"
  by (auto simp: literal_def take_Cons' cstr_append_NUL)

lemma cstr_NULs: "cstr (replicate n NUL) = []"
  by (cases n) (simp_all add: cstr_def)

lemma race_step_inv:
  assumes inv: "race_inv cap pl cl s" and lits: "literal ''parent'' pl" "literal ''Child'' cl"
    and t: "race_step cap pl cl m s = Some t" "m \<noteq> Par False"
  shows "race_inv cap pl cl t"
proof -
  obtain fs where fs: "pr_pipe s = concat fs" "set fs \<subseteq> {take 20 pl, take 20 cl}" "pr_child s = C_read \<longrightarrow> fs \<noteq> []"
    using inv by (auto simp: race_inv_def)
  have lp: "length (take 20 pl) = 20" "cstr (take 20 pl) = ''parent''" using literal_frame [OF lits(1)] by simp_all
  have lc: "length (take 20 cl) = 20" "cstr (take 20 cl) = ''Child''" using literal_frame [OF lits(2)] by simp_all
  have wb: "\<not> strcmp_eq (write_buf s) ''end''" using inv by (simp add: race_inv_def strcmp_eq_def cstr_NULs)
  show ?thesis
  proof (cases m)
    case (Par ok)
    with t(2) have ok: "ok" by simp
    show ?thesis
    proof (cases "pr_parent s")
      case P_write
      then have "t = s\<lparr>pr_pipe := pr_pipe s @ take 20 pl, pr_parent := P_check\<rparr>" "length (pr_pipe s) + 20 \<le> cap"
        using t(1) Par ok by (auto split: if_splits)
      then show ?thesis using inv fs lp(1) by (auto simp: race_inv_def intro!: exI [of _ "fs @ [take 20 pl]"])
    qed (use inv t Par ok wb in \<open>auto simp: race_inv_def\<close>)
  next
    case Chi
    show ?thesis
    proof (cases "pr_child s")
      case C_write
      then have "t = s\<lparr>pr_pipe := pr_pipe s @ take 20 cl, pr_child := C_read\<rparr>" "length (pr_pipe s) + 20 \<le> cap"
        using t(1) Chi by (auto split: if_splits)
      then show ?thesis using inv fs lc(1) by (auto simp: race_inv_def intro!: exI [of _ "fs @ [take 20 cl]"])
    next
      case C_read
      then obtain f gs where f: "fs = f # gs" using fs(3) by (cases fs) auto
      then have "f = take 20 pl \<or> f = take 20 cl" using fs(2) by auto
      then have g: "length f = 20" "cstr f \<in> {''parent'', ''Child''}" using lp lc by auto
      have "pr_pipe s = f @ concat gs" using fs(1) f by simp
      then have p: "take 20 (pr_pipe s) = f" "drop 20 (pr_pipe s) = concat gs" "pr_pipe s \<noteq> []" using g(1) by auto
      have b: "overwrite f (read_buf s) = f" using inv g(1) by (simp add: race_inv_def overwrite_whole)
      have "\<not> strcmp_eq f ''end''" using g(2) by (auto simp: strcmp_eq_def)
      then have "t = s\<lparr>pr_pipe := concat gs, read_buf := f, said := said s @ [cstr f], pr_child := C_write\<rparr>"
        using t(1) Chi C_read p b by (simp add: Let_def)
      moreover have "length (concat gs) \<le> cap" using inv unfolding p(2) [symmetric] race_inv_def length_drop by linarith
      ultimately show ?thesis using inv fs(2) f g by (auto simp: race_inv_def)
    qed (use inv in \<open>simp add: race_inv_def\<close>)
  qed
qed

lemma race_pipe_nonempty:
  assumes "race_inv cap pl cl s" "literal ''parent'' pl" "literal ''Child'' cl" "pr_child s = C_read"
  shows "pr_pipe s \<noteq> []"
  using assms literal_frame [OF assms(2)] literal_frame [OF assms(3)]
  by (auto simp: race_inv_def literal_def neq_Nil_conv)

lemma race_run_inv:
  "race_run cap pl cl ms s = Some t \<Longrightarrow> race_inv cap pl cl s \<Longrightarrow> literal ''parent'' pl \<Longrightarrow> literal ''Child'' cl \<Longrightarrow>
   Par False \<notin> set ms \<Longrightarrow> race_inv cap pl cl t"
  by (erule (1) race.run_inv) (metis race_step_inv)

section \<open>Both wait\<close>

lemma fill_pipe:
  "pr_parent s = P_print \<Longrightarrow> write_buf s = replicate 20 NUL \<Longrightarrow> length (pr_pipe s) + 20 * n \<le> cap \<Longrightarrow> 20 \<le> length pl \<Longrightarrow>
   \<exists>t. race_run cap pl cl (concat (replicate n [Par True, Par True, Par True])) s = Some t
     \<and> pr_parent t = P_print \<and> write_buf t = replicate 20 NUL \<and> pr_child t = pr_child s
     \<and> length (pr_pipe t) = length (pr_pipe s) + 20 * n"
proof (induction n arbitrary: s)
  case 0
  then show ?case by simp
next
  case (Suc n)
  define u where "u = s\<lparr>pr_pipe := pr_pipe s @ take 20 pl, pr_parent := P_print\<rparr>"
  have "race_run cap pl cl [Par True, Par True, Par True] s = Some u"
    using Suc.prems by (simp add: u_def strcmp_eq_def cstr_NULs)
  moreover obtain t where "race_run cap pl cl (concat (replicate n [Par True, Par True, Par True])) u = Some t"
     "pr_parent t = P_print" "write_buf t = replicate 20 NUL" "pr_child t = pr_child u"
     "length (pr_pipe t) = length (pr_pipe u) + 20 * n"
    using Suc.IH [of u] Suc.prems by (auto simp: u_def)
  ultimately show ?case using Suc.prems(4)
    by (intro exI [of _ t]) (auto simp: u_def split: option.splits)
qed

text \<open>
  C36. Two writers and one reader on a full pipe wait for each other: whatever follows the literals in
  memory and however the two processes are scheduled, every line the child prints is \<^verbatim>\<open>parent\<close> or
  \<^verbatim>\<open>Child\<close>, neither process ever exits, and no process can move exactly when both are at their write
  and 20 bytes no longer fit; that state is reached, for every size of the pipe, when the parent
  fills it before the child's first write.
\<close>

theorem pipe_writers_deadlock:
  assumes "race_pipe_main True True = Inr s" "literal ''parent'' pl" "literal ''Child'' cl"
  shows "(\<forall>ms t. Par False \<notin> set ms \<and> race_run cap pl cl ms s = Some t \<longrightarrow>
        set (said t) \<subseteq> {''parent'', ''Child''} \<and> (\<forall>b. pr_parent t \<noteq> P_exited b) \<and> pr_child t \<noteq> C_exited
        \<and> (race_step cap pl cl (Par True) t = None \<and> race_step cap pl cl Chi t = None
             \<longleftrightarrow> pr_parent t = P_write \<and> pr_child t = C_write \<and> length (pr_pipe t) + 20 > cap))
    \<and> (\<exists>ms t. Par False \<notin> set ms \<and> race_run cap pl cl ms s = Some t
        \<and> race_step cap pl cl (Par True) t = None \<and> race_step cap pl cl Chi t = None)"
proof
  have s: "s = \<lparr>pr_pipe = [], pr_parent = P_print, pr_child = C_write, write_buf = replicate 20 NUL,
                read_buf = replicate 20 NUL, said = []\<rparr>"
    using assms(1) by (simp add: race_pipe_main_def)
  then have inv: "race_inv cap pl cl s" by (auto simp: race_inv_def intro!: exI [of _ "[]"])
  show "\<forall>ms t. Par False \<notin> set ms \<and> race_run cap pl cl ms s = Some t \<longrightarrow>
        set (said t) \<subseteq> {''parent'', ''Child''} \<and> (\<forall>b. pr_parent t \<noteq> P_exited b) \<and> pr_child t \<noteq> C_exited
        \<and> (race_step cap pl cl (Par True) t = None \<and> race_step cap pl cl Chi t = None
             \<longleftrightarrow> pr_parent t = P_write \<and> pr_child t = C_write \<and> length (pr_pipe t) + 20 > cap)"
  proof (intro allI impI, elim conjE)
    fix ms t
    assume "Par False \<notin> set ms" "race_run cap pl cl ms s = Some t"
    then have t: "race_inv cap pl cl t" using race_run_inv [OF _ inv assms(2,3)] by blast
    have "race_step cap pl cl (Par True) t = None \<longleftrightarrow> pr_parent t = P_write \<and> length (pr_pipe t) + 20 > cap"
      using t by (cases "pr_parent t") (auto simp: race_inv_def)
    moreover have "race_step cap pl cl Chi t = None \<longleftrightarrow> pr_child t = C_write \<and> length (pr_pipe t) + 20 > cap"
      using t race_pipe_nonempty [OF t] assms(2,3) by (cases "pr_child t") (auto simp: race_inv_def Let_def)
    ultimately show "set (said t) \<subseteq> {''parent'', ''Child''} \<and> (\<forall>b. pr_parent t \<noteq> P_exited b) \<and> pr_child t \<noteq> C_exited
        \<and> (race_step cap pl cl (Par True) t = None \<and> race_step cap pl cl Chi t = None
             \<longleftrightarrow> pr_parent t = P_write \<and> pr_child t = C_write \<and> length (pr_pipe t) + 20 > cap)"
      using t by (auto simp: race_inv_def)
  qed
  have "20 \<le> length pl" using assms(2) by (simp add: literal_def)
  then obtain t where t: "race_run cap pl cl (concat (replicate (cap div 20) [Par True, Par True, Par True])) s = Some t"
    "pr_parent t = P_print" "pr_child t = C_write" "length (pr_pipe t) = 20 * (cap div 20)"
    using fill_pipe [of s "cap div 20" cap pl cl] by (auto simp: s)
  have full: "cap < length (pr_pipe t) + 20" unfolding t(4) by (metis add.commute dividend_less_div_times mult.commute zero_less_numeral)
  define ms where "ms = concat (replicate (cap div 20) [Par True, Par True, Par True]) @ [Par True]"
  have "Par False \<notin> set ms" by (auto simp: ms_def)
  moreover have "race_run cap pl cl ms s = Some (t\<lparr>pr_parent := P_write\<rparr>)"
    using t(1,2) by (simp add: ms_def race.run_append)
  ultimately show "\<exists>ms t. Par False \<notin> set ms \<and> race_run cap pl cl ms s = Some t
        \<and> race_step cap pl cl (Par True) t = None \<and> race_step cap pl cl Chi t = None"
    using full t(3) by (intro exI [of _ ms] exI [of _ "t\<lparr>pr_parent := P_write\<rparr>"]) simp
qed

theorem pipe_writers_deadlock_witness:
  "\<exists>s ms t. race_pipe_main True True = Inr s
     \<and> race_run 65536 (''parent'' @ replicate 14 NUL) (''Child'' @ replicate 15 NUL) ms s = Some t
     \<and> race_step 65536 (''parent'' @ replicate 14 NUL) (''Child'' @ replicate 15 NUL) (Par True) t = None
     \<and> race_step 65536 (''parent'' @ replicate 14 NUL) (''Child'' @ replicate 15 NUL) Chi t = None"
proof -
  obtain s where s: "race_pipe_main True True = Inr s" by (simp add: race_pipe_main_def)
  have "literal ''parent'' (''parent'' @ replicate 14 NUL)" "literal ''Child'' (''Child'' @ replicate 15 NUL)"
    by (auto simp: literal_def numeral_eq_Suc)
  from pipe_writers_deadlock [OF s this, of 65536] s show ?thesis by blast
qed

end
