(* ===== verification/Process_Programs.thy ===== *)
theory Process_Programs
  imports Machine
begin

text \<open>
  Programs about processes: \<^verbatim>\<open>linux_task/parent_child_basic\<close>, where \<^verbatim>\<open>main.c\<close> forks two children that
  execute \<^verbatim>\<open>t1\<close> and \<^verbatim>\<open>t2\<close> (\<^verbatim>\<open>task1.c\<close>, \<^verbatim>\<open>task2.c\<close>) and waits for both, and
  \<^verbatim>\<open>parent_child/zombie_handle.c\<close>, whose signal handler reaps the child.  Both are step functions over
  schedules; all processes of a program are in one process group.
\<close>

section \<open>Two children with execl\<close>

datatype out_line = Fork_failed | Execl_failed | Child_normal | Bye | Alive nat   \<comment> \<open>\<^verbatim>\<open>P<i + 1>:I am Alive\<close>\<close>

datatype pc_parent = Forking nat | Waiting nat | Leaving | Returned | Exit_failure | Parent_killed

datatype kid = Exec nat | Failed nat | Running nat nat | Exited nat | Reaped nat | Killed
  \<comment> \<open>the child of round \<open>i\<close>: before \<^verbatim>\<open>execl\<close>; at \<^verbatim>\<open>kill\<close>, after the message about a failed \<^verbatim>\<open>execl\<close>;
     its program with so many lines to print; ...\<close>

fun is_reaped :: "kid \<Rightarrow> bool" where
  "is_reaped (Reaped i) = True"
| "is_reaped _ = False"

record pc_state =
  pc_parent :: pc_parent
  kids :: "kid list"
  status_exited :: bool   \<comment> \<open>\<^verbatim>\<open>WIFEXITED(status)\<close>; \<^verbatim>\<open>status\<close> is 0 at first\<close>
  pc_out :: "out_line list"

datatype pc_mover = Parent bool | Reap nat | Kid nat bool   \<comment> \<open>the flags: \<^verbatim>\<open>fork\<close> and \<^verbatim>\<open>execl\<close> succeed\<close>

definition print_line :: "out_line \<Rightarrow> pc_state \<Rightarrow> pc_state" where
  "print_line x s = s\<lparr>pc_out := pc_out s @ [x]\<rparr>"

definition kill_group :: "pc_state \<Rightarrow> pc_state" where
  \<comment> \<open>\<^verbatim>\<open>kill(0, 9)\<close>: every process of the caller's group\<close>
  "kill_group s =
     s\<lparr>pc_parent := (if pc_parent s \<in> {Returned, Exit_failure} then pc_parent s else Parent_killed),
       kids := map (\<lambda>k. case k of Exec i \<Rightarrow> Killed | Failed i \<Rightarrow> Killed | Running i n \<Rightarrow> Killed | _ \<Rightarrow> k) (kids s)\<rparr>"

definition basic_main :: pc_state where
  "basic_main = \<lparr>pc_parent = Forking 0, kids = [], status_exited = True, pc_out = []\<rparr>"

fun basic_parent :: "bool \<Rightarrow> pc_state \<Rightarrow> pc_parent \<Rightarrow> pc_state option" where
  "basic_parent ok s (Forking i) =
     Some (if \<not> ok then (print_line Fork_failed s)\<lparr>pc_parent := Exit_failure\<rparr>
           else s\<lparr>kids := kids s @ [Exec i], pc_parent := if i = 0 then Forking 1 else Waiting 0\<rparr>)"
| "basic_parent ok s (Waiting n) =
     \<comment> \<open>\<^verbatim>\<open>waitpid\<close> fails when no child is left; the status is then still that of the last child\<close>
     (if list_all is_reaped (kids s)
      then Some ((if status_exited s then print_line Child_normal s else s)
                   \<lparr>pc_parent := if n = 0 then Waiting 1 else Leaving\<rparr>)
      else None)"
| "basic_parent ok s Leaving = Some ((print_line Bye s)\<lparr>pc_parent := Returned\<rparr>)"
| "basic_parent ok s _ = None"

fun basic_reap :: "nat \<Rightarrow> pc_state \<Rightarrow> pc_parent \<Rightarrow> pc_state option" where
  \<comment> \<open>\<^verbatim>\<open>waitpid(-1, &status, 0)\<close> returns child \<open>j\<close>; \<^verbatim>\<open>WIFEXITED\<close> holds if it was not killed\<close>
  "basic_reap j s (Waiting n) =
     (if j < length (kids s) then
        (let go = s\<lparr>kids := (kids s)[j := Reaped j], pc_parent := if n = 0 then Waiting 1 else Leaving\<rparr>
         in case kids s ! j of
              Exited i \<Rightarrow> Some (print_line Child_normal (go\<lparr>status_exited := True\<rparr>))
            | Killed \<Rightarrow> Some (go\<lparr>status_exited := False\<rparr>)
            | _ \<Rightarrow> None)
      else None)"
| "basic_reap j s _ = None"

definition task_step :: "nat \<Rightarrow> nat \<Rightarrow> (out_line \<times> nat) option" where
  \<comment> \<open>the loop of \<^verbatim>\<open>task1.c\<close> (\<open>i = 0\<close>) and \<^verbatim>\<open>task2.c\<close> (\<open>i = 1\<close>) with \<open>n\<close> of its five rounds to go\<close>
  "task_step i n = (if n = 0 then None else Some (Alive i, n - 1))"

definition basic_kid :: "nat \<Rightarrow> bool \<Rightarrow> pc_state \<Rightarrow> pc_state option" where
  \<comment> \<open>\<^verbatim>\<open>child1_pid\<close> and \<^verbatim>\<open>child2_pid\<close> are 0 in the children, so after a failed \<^verbatim>\<open>execl\<close> the first \<^verbatim>\<open>kill\<close>
     is \<^verbatim>\<open>kill(0, 9)\<close>, which the child itself does not survive; others can run before it\<close>
  "basic_kid j ok s =
     (if j < length (kids s) then
        (case kids s ! j of
           Exec i \<Rightarrow> Some (if ok then s\<lparr>kids := (kids s)[j := Running i 5]\<rparr>
                            else print_line Execl_failed (s\<lparr>kids := (kids s)[j := Failed i]\<rparr>))
         | Failed i \<Rightarrow> Some (kill_group s)
         | Running i n \<Rightarrow> Some (case task_step i n of
                None \<Rightarrow> s\<lparr>kids := (kids s)[j := Exited i]\<rparr>
              | Some (out, n') \<Rightarrow> print_line out (s\<lparr>kids := (kids s)[j := Running i n']\<rparr>))
         | _ \<Rightarrow> None)
      else None)"

fun basic_step :: "pc_mover \<Rightarrow> pc_state \<Rightarrow> pc_state option" where
  "basic_step (Parent ok) s = basic_parent ok s (pc_parent s)"
| "basic_step (Reap j) s = basic_reap j s (pc_parent s)"
| "basic_step (Kid j ok) s = basic_kid j ok s"

fun basic_run :: "pc_mover list \<Rightarrow> pc_state \<Rightarrow> pc_state option" where
  "basic_run [] s = Some s"
| "basic_run (m # ms) s = (case basic_step m s of None \<Rightarrow> None | Some t \<Rightarrow> basic_run ms t)"

interpretation basic: machine basic_step basic_run
  by unfold_locales simp_all

fun smooth :: "pc_mover \<Rightarrow> bool" where
  "smooth (Parent ok) = ok"
| "smooth (Kid j ok) = ok"
| "smooth (Reap j) = True"

section \<open>Invariant\<close>

fun lines_done :: "kid \<Rightarrow> nat" where
  "lines_done (Exec i) = 0"
| "lines_done (Running i n) = 5 - n"
| "lines_done _ = 5"

fun kid_ok :: "nat \<Rightarrow> kid \<Rightarrow> bool" where
  "kid_ok j (Exec i) = (i = j)"
| "kid_ok j (Running i n) = (i = j \<and> n \<le> 5)"
| "kid_ok j (Exited i) = (i = j)"
| "kid_ok j (Reaped i) = (i = j)"
| "kid_ok j (Failed i) = False"
| "kid_ok j Killed = False"

definition reaped :: "kid list \<Rightarrow> nat" where
  "reaped ks = length (filter is_reaped ks)"

fun parent_fits :: "pc_parent \<Rightarrow> kid list \<Rightarrow> bool" where
  "parent_fits (Forking i) ks \<longleftrightarrow> i < 2 \<and> length ks = i \<and> reaped ks = 0"
| "parent_fits (Waiting n) ks \<longleftrightarrow> n < 2 \<and> length ks = 2 \<and> reaped ks = n"
| "parent_fits Leaving ks \<longleftrightarrow> length ks = 2 \<and> reaped ks = 2"
| "parent_fits Returned ks \<longleftrightarrow> length ks = 2 \<and> reaped ks = 2"
| "parent_fits _ ks \<longleftrightarrow> False"

definition pc_inv :: "pc_state \<Rightarrow> bool" where
  "pc_inv s \<longleftrightarrow> parent_fits (pc_parent s) (kids s)
     \<and> (\<forall>j<length (kids s). kid_ok j (kids s ! j) \<and> count_list (pc_out s) (Alive j) = lines_done (kids s ! j))
     \<and> (\<forall>j\<ge>length (kids s). count_list (pc_out s) (Alive j) = 0)
     \<and> count_list (pc_out s) Child_normal = reaped (kids s)
     \<and> set (pc_out s) \<subseteq> {Child_normal, Bye} \<union> range Alive
     \<and> (if pc_parent s = Returned then last (pc_out s) = Bye \<and> count_list (pc_out s) Bye = 1
        else count_list (pc_out s) Bye = 0)"

lemma reaped_simps [simp]: "reaped [] = 0" "reaped (k # ks) = (if is_reaped k then 1 else 0) + reaped ks"
  by (simp_all add: reaped_def)

lemma reaped_update:
  "j < length ks \<Longrightarrow> \<not> is_reaped (ks ! j) \<Longrightarrow> reaped (ks[j := k]) = reaped ks + (if is_reaped k then 1 else 0)"
proof (induction ks arbitrary: j)
  case Nil
  then show ?case by simp
next
  case (Cons a ks)
  then show ?case by (cases j) auto
qed

lemma reaped_append [simp]: "reaped (ks @ [Exec i]) = reaped ks"
  by (simp add: reaped_def)

lemma reaped_le: "reaped ks \<le> length ks"
  by (simp add: reaped_def)

lemma all_reaped: "reaped ks = length ks \<Longrightarrow> j < length ks \<Longrightarrow> is_reaped (ks ! j)"
  unfolding reaped_def by (metis length_filter_less nth_mem order_less_irrefl)

lemma not_all_reaped: "list_all is_reaped ks \<Longrightarrow> reaped ks < length ks \<Longrightarrow> False"
proof -
  assume "list_all is_reaped ks"
  then have "filter is_reaped ks = ks" by (simp add: list_all_iff filter_id_conv)
  moreover assume "reaped ks < length ks"
  ultimately show False by (simp add: reaped_def)
qed

lemma print_line_simps [simp]:
  "pc_parent (print_line x s) = pc_parent s" "kids (print_line x s) = kids s" "pc_out (print_line x s) = pc_out s @ [x]"
  by (simp_all add: print_line_def)

lemma count_list_snoc [simp]: "count_list (xs @ [x]) y = count_list xs y + (if x = y then 1 else 0)"
  by simp

lemma kid_inv:
  assumes inv: "pc_inv s" and t: "basic_kid j True s = Some t"
  shows "pc_inv t"
proof -
  have j: "j < length (kids s)" and k: "kid_ok j (kids s ! j)" "count_list (pc_out s) (Alive j) = lines_done (kids s ! j)"
    using inv t by (auto simp: basic_kid_def task_step_def pc_inv_def split: if_splits)
  have nr: "\<not> is_reaped (kids s ! j)" using t j by (cases "kids s ! j") (auto simp: basic_kid_def task_step_def)
  obtain k' b where k': "kids t = (kids s)[j := k']" "pc_parent t = pc_parent s" "kid_ok j k'" "\<not> is_reaped k'"
    "pc_out t = (if b then pc_out s @ [Alive j] else pc_out s)" "lines_done k' = lines_done (kids s ! j) + (if b then 1 else 0)"
  proof (cases "kids s ! j")
    case (Exec i)
    then show ?thesis using t j k by (intro that [of "Running i 5" False]) (auto simp: basic_kid_def task_step_def)
  next
    case (Running i n)
    show ?thesis
    proof (cases n)
      case 0
      then show ?thesis using t j k Running by (intro that [of "Exited i" False]) (auto simp: basic_kid_def task_step_def)
    next
      case (Suc m)
      then show ?thesis using t j k Running by (intro that [of "Running i m" True]) (auto simp: basic_kid_def task_step_def)
    qed
  qed (use t j k in \<open>simp_all add: basic_kid_def task_step_def\<close>)
  have r: "reaped (kids t) = reaped (kids s)" using reaped_update [OF j nr] k'(1,4) by simp
  have np: "pc_parent s \<noteq> Returned"
  proof
    assume "pc_parent s = Returned"
    then have "reaped (kids s) = length (kids s)" using inv by (simp add: pc_inv_def)
    with all_reaped j nr show False by blast
  qed
  have "parent_fits (pc_parent s) (kids t)" using inv r k'(1) by (cases "pc_parent s") (auto simp: pc_inv_def)
  then show ?thesis using inv k' r np k j by (auto simp: pc_inv_def nth_list_update)
qed

lemma reap_inv:
  assumes inv: "pc_inv s" and t: "basic_reap j s (pc_parent s) = Some t"
  shows "pc_inv t"
proof -
  obtain n where n: "pc_parent s = Waiting n" "j < length (kids s)"
    using t by (cases "pc_parent s") (auto split: if_splits)
  then have k: "kids s ! j = Exited j" using inv t by (cases "kids s ! j") (auto simp: pc_inv_def Let_def)
  have "reaped ((kids s)[j := Reaped j]) = Suc (reaped (kids s))" using reaped_update [OF n(2), of "Reaped j"] k by simp
  then show ?thesis using inv t n k by (auto simp: pc_inv_def Let_def nth_list_update split: if_splits)
qed

lemma basic_parent_inv:
  assumes inv: "pc_inv s" and t: "basic_parent True s (pc_parent s) = Some t"
  shows "pc_inv t"
proof (cases "pc_parent s")
  case (Forking i)
  then show ?thesis using inv t by (auto simp: pc_inv_def nth_append less_2_cases_iff split: if_splits)
next
  case (Waiting n)
  then show ?thesis using inv t not_all_reaped [of "kids s"] by (auto simp: pc_inv_def split: if_splits)
next
  case Leaving
  then show ?thesis using inv t by (auto simp: pc_inv_def)
qed (use t in simp_all)

lemma smooth_inv: "pc_inv s \<Longrightarrow> smooth m \<Longrightarrow> basic_step m s = Some t \<Longrightarrow> pc_inv t"
  using basic_parent_inv [of s t] reap_inv [of s _ t] kid_inv [of s _ t] by (cases m) simp_all

lemma smooth_run: "basic_run ms s = Some t \<Longrightarrow> pc_inv s \<Longrightarrow> list_all smooth ms \<Longrightarrow> pc_inv t"
  by (erule (1) basic.run_inv) (metis smooth_inv list_all_iff)

lemma start_inv: "pc_inv basic_main"
  by (simp add: pc_inv_def basic_main_def reaped_def)

section \<open>Progress and termination\<close>

lemma basic_can_move:
  assumes inv: "pc_inv s" and nr: "pc_parent s \<noteq> Returned"
  shows "\<exists>m t. smooth m \<and> basic_step m s = Some t"
proof (cases "\<exists>n. pc_parent s = Waiting n")
  case False
  with inv nr have "basic_step (Parent True) s \<noteq> None" by (cases "pc_parent s") (auto simp: pc_inv_def)
  then show ?thesis by (intro exI [of _ "Parent True"]) auto
next
  case True
  then obtain n where n: "pc_parent s = Waiting n" "reaped (kids s) < length (kids s)" using inv by (auto simp: pc_inv_def)
  then have "\<not> list_all is_reaped (kids s)" using not_all_reaped by blast
  then obtain j where j: "j < length (kids s)" "\<not> is_reaped (kids s ! j)" by (auto simp: list_all_length)
  then have "kid_ok j (kids s ! j)" using inv by (simp add: pc_inv_def)
  then have "basic_step (Kid j True) s \<noteq> None \<or> basic_step (Reap j) s \<noteq> None"
    using j n(1) by (cases "kids s ! j") (auto simp: basic_kid_def task_step_def Let_def)
  then show ?thesis by (metis not_None_eq smooth.simps(2,3))
qed

lemma basic_progress:
  assumes inv: "pc_inv s"
  shows "(\<forall>m. basic_step m s = None) \<longleftrightarrow> pc_parent s = Returned"
proof
  assume "\<forall>m. basic_step m s = None"
  with basic_can_move [OF inv] show "pc_parent s = Returned" by auto
next
  assume r: "pc_parent s = Returned"
  then have "reaped (kids s) = length (kids s)" using inv by (simp add: pc_inv_def)
  then have k: "is_reaped (kids s ! j)" if "j < length (kids s)" for j using all_reaped that by blast
  show "\<forall>m. basic_step m s = None"
  proof
    fix m
    show "basic_step m s = None"
    proof (cases m)
      case (Kid j ok)
      with k [of j] show ?thesis by (cases "kids s ! j") (auto simp: basic_kid_def task_step_def)
    qed (simp_all add: r)
  qed
qed

fun kid_left :: "kid \<Rightarrow> nat" where
  "kid_left (Exec i) = 8"
| "kid_left (Running i n) = n + 2"
| "kid_left (Failed i) = 1"
| "kid_left (Exited i) = 1"
| "kid_left _ = 0"

fun parent_left :: "pc_parent \<Rightarrow> nat" where
  "parent_left (Forking i) = (if i = 0 then 21 else 12)"
| "parent_left (Waiting n) = (if n = 0 then 3 else 2)"
| "parent_left Leaving = 1"
| "parent_left _ = 0"

definition basic_left :: "pc_state \<Rightarrow> nat" where
  "basic_left s = parent_left (pc_parent s) + sum_list (map kid_left (kids s))"

lemma kill_group_left:
  assumes "j < length (kids s)" "kids s ! j = Failed i"
  shows "basic_left (kill_group s) < basic_left s"
proof -
  let ?f = "\<lambda>k. case k of Exec i \<Rightarrow> Killed | Failed i \<Rightarrow> Killed | Running i n \<Rightarrow> Killed | _ \<Rightarrow> k"
  have le: "kid_left (?f k) \<le> kid_left k" for k by (cases k) auto
  have "sum_list (map (kid_left \<circ> ?f) (kids s)) < sum_list (map kid_left (kids s))"
  proof -
    obtain a b where ks: "kids s = a @ Failed i # b" using assms by (metis id_take_nth_drop)
    have "sum_list (map (kid_left \<circ> ?f) ks) \<le> sum_list (map kid_left ks)" for ks
      using le by (intro sum_list_mono) simp
    from this [of a] this [of b] show ?thesis by (simp add: ks)
  qed
  moreover have "parent_left (pc_parent (kill_group s)) \<le> parent_left (pc_parent s)" by (simp add: kill_group_def)
  ultimately show ?thesis by (simp add: basic_left_def kill_group_def)
qed

lemma basic_left_step:
  assumes "basic_step m s = Some t"
  shows "basic_left t < basic_left s"
proof (cases m)
  case (Parent ok)
  with assms show ?thesis by (cases "pc_parent s") (auto simp: basic_left_def split: if_splits)
next
  case (Reap j)
  then obtain n where n: "pc_parent s = Waiting n" using assms by (cases "pc_parent s") auto
  then have j: "j < length (kids s)" using assms Reap by (auto split: if_splits)
  from sum_list_update [OF j, of kid_left "Reaped j"] show ?thesis
    using assms Reap n j by (cases "kids s ! j") (auto simp: basic_left_def Let_def)
next
  case (Kid j ok)
  then have j: "j < length (kids s)" using assms by (auto simp: basic_kid_def split: if_splits)
  show ?thesis
  proof (cases "kids s ! j")
    case (Exec i)
    with sum_list_update [OF j, of kid_left "if ok then Running i 5 else Failed i"] assms Kid j show ?thesis
      by (auto simp: basic_left_def basic_kid_def split: if_splits)
  next
    case (Failed i)
    with kill_group_left [OF j Failed] assms Kid j show ?thesis by (simp add: basic_kid_def)
  next
    case (Running i n)
    with sum_list_update [OF j, of kid_left "if n = 0 then Exited i else Running i (n - 1)"] assms Kid j show ?thesis
      by (auto simp: basic_left_def basic_kid_def task_step_def split: if_splits)
  qed (use assms Kid j in \<open>simp_all add: basic_kid_def\<close>)
qed

lemma basic_run_left: "basic_run ms basic_main = Some t \<Longrightarrow> length ms \<le> 21"
  using basic.run_bound [of ms basic_main t "\<lambda>_. True" basic_left] basic_left_step by (simp add: basic_left_def basic_main_def)

text \<open>
  C37. When every \<^verbatim>\<open>fork\<close> and \<^verbatim>\<open>execl\<close> succeeds the program always comes to its end: no run has more than
  21 steps, some process can move until the parent returns, and then each child has printed its line
  five times, both have been reported as exited normally, and \<^verbatim>\<open>Bye Bye...\<close> is the last line, printed once.
\<close>

theorem children_awaited:
  assumes "basic_run ms basic_main = Some s" "list_all smooth ms"
  shows "length ms \<le> 21 \<and> ((\<forall>m. basic_step m s = None) \<longleftrightarrow> pc_parent s = Returned)
    \<and> (pc_parent s = Returned \<longrightarrow> count_list (pc_out s) (Alive 0) = 5 \<and> count_list (pc_out s) (Alive 1) = 5
         \<and> count_list (pc_out s) Child_normal = 2 \<and> count_list (pc_out s) Bye = 1 \<and> last (pc_out s) = Bye)"
proof -
  have inv: "pc_inv s" using smooth_run [OF assms(1) start_inv assms(2)] .
  have "length ms \<le> 21" by (rule basic_run_left [OF assms(1)])
  moreover have "count_list (pc_out s) (Alive j) = 5" if "pc_parent s = Returned" "j < 2" for j
  proof -
    have r: "length (kids s) = 2" "reaped (kids s) = 2" using that(1) inv by (simp_all add: pc_inv_def)
    then have "is_reaped (kids s ! j)" using all_reaped [of "kids s" j] that(2) by simp
    then have "lines_done (kids s ! j) = 5" by (cases "kids s ! j") simp_all
    then show ?thesis using inv r(1) that(2) by (simp add: pc_inv_def)
  qed
  moreover have "pc_parent s = Returned \<longrightarrow> count_list (pc_out s) Child_normal = 2 \<and> count_list (pc_out s) Bye = 1
      \<and> last (pc_out s) = Bye"
    using inv by (auto simp: pc_inv_def)
  ultimately show ?thesis using basic_progress [OF inv] by simp
qed

theorem children_awaited_witness:
  "\<exists>ms s. basic_run ms basic_main = Some s \<and> list_all smooth ms \<and> length ms = 19 \<and> pc_parent s = Returned
     \<and> count_list (pc_out s) (Alive 1) = 5"
proof -
  let ?ms = "[Parent True, Kid 0 True, Parent True, Kid 1 True] @ replicate 6 (Kid 1 True) @ replicate 6 (Kid 0 True)
     @ [Reap 0, Reap 1, Parent True]"
  have "map_option pc_parent (basic_run ?ms basic_main) = Some Returned" by code_simp
  then obtain s where s: "basic_run ?ms basic_main = Some s" "pc_parent s = Returned" by auto
  moreover have "list_all smooth ?ms" "length ?ms = 19" by code_simp+
  moreover from children_awaited [OF s(1) this(1)] s(2) have "count_list (pc_out s) (Alive 1) = 5" by simp
  ultimately show ?thesis by blast
qed

section \<open>A failed execl\<close>

definition all_dead :: "pc_state \<Rightarrow> bool" where
  "all_dead s \<longleftrightarrow> (\<forall>m. basic_step m s = None) \<and> pc_parent s \<in> {Parent_killed, Exit_failure}"

definition kill_pending :: "pc_state \<Rightarrow> bool" where
  \<comment> \<open>a child has printed the message and not called \<^verbatim>\<open>kill\<close> yet\<close>
  "kill_pending s \<longleftrightarrow> (\<exists>j<length (kids s). \<exists>i. kids s ! j = Failed i)"

fun parent_place :: "pc_parent \<Rightarrow> kid list \<Rightarrow> bool" where
  "parent_place (Forking i) ks \<longleftrightarrow> i < 2 \<and> length ks = i \<and> reaped ks = 0"
| "parent_place (Waiting n) ks \<longleftrightarrow> n < 2 \<and> length ks = 2 \<and> reaped ks = n"
| "parent_place Exit_failure ks \<longleftrightarrow> True"
| "parent_place Parent_killed ks \<longleftrightarrow> False"
| "parent_place _ ks \<longleftrightarrow> length ks = 2 \<and> reaped ks = 2"

definition undisturbed :: "pc_state \<Rightarrow> bool" where
  "undisturbed s \<longleftrightarrow> parent_place (pc_parent s) (kids s) \<and> Killed \<notin> set (kids s)
     \<and> (Execl_failed \<in> set (pc_out s) \<longrightarrow> kill_pending s) \<and> (Bye \<in> set (pc_out s) \<longrightarrow> pc_parent s = Returned)"

lemma pending_not_done:
  assumes "undisturbed s" "kill_pending s"
  shows "pc_parent s \<notin> {Leaving, Returned} \<and> Bye \<notin> set (pc_out s)"
proof -
  from assms(2) obtain j i where j: "j < length (kids s)" "kids s ! j = Failed i" by (auto simp: kill_pending_def)
  then have "reaped (kids s) \<noteq> length (kids s)" using all_reaped by fastforce
  then show ?thesis using assms(1) by (auto simp: undisturbed_def)
qed

lemma kill_group_dead:
  assumes "undisturbed s" "kill_pending s"
  shows "all_dead (kill_group s)" "Bye \<notin> set (pc_out (kill_group s))"
proof -
  let ?t = "kill_group s"
  have p: "pc_parent ?t \<in> {Parent_killed, Exit_failure}"
    using pending_not_done [OF assms] by (auto simp: kill_group_def)
  have "basic_kid k ok ?t = None" for k ok
    by (auto simp: basic_kid_def kill_group_def split: kid.splits)
  then have "basic_step m ?t = None" for m using p by (cases m) auto
  with p show "all_dead ?t" by (simp add: all_dead_def)
  show "Bye \<notin> set (pc_out ?t)" using pending_not_done [OF assms] by (simp add: kill_group_def)
qed

lemma pending_kept:
  "kill_pending s \<Longrightarrow> j < length (kids s) \<Longrightarrow> \<not> (\<exists>i. kids s ! j = Failed i) \<Longrightarrow> kill_pending (s\<lparr>kids := (kids s)[j := k]\<rparr>)"
  unfolding kill_pending_def by (metis length_list_update nth_list_update_neq select_convs(2) surjective update_convs(2))

lemma failing_step:
  assumes u: "undisturbed s" and j: "j < length (kids s)" "kids s ! j = Exec i"
  shows "undisturbed (print_line Execl_failed (s\<lparr>kids := (kids s)[j := Failed i]\<rparr>))"
proof -
  have "pc_parent s \<noteq> Leaving \<and> pc_parent s \<noteq> Returned"
    using u j all_reaped [of "kids s" j] by (auto simp: undisturbed_def)
  moreover have "reaped ((kids s)[j := Failed i]) = reaped (kids s)" using reaped_update [OF j(1), of "Failed i"] j by simp
  ultimately have "parent_place (pc_parent s) ((kids s)[j := Failed i])"
    using u by (cases "pc_parent s") (auto simp: undisturbed_def)
  moreover have "kill_pending (print_line Execl_failed (s\<lparr>kids := (kids s)[j := Failed i]\<rparr>))"
    using j by (auto simp: kill_pending_def)
  ultimately show ?thesis
    using u set_update_subset_insert [of "kids s" j "Failed i"] by (auto simp: undisturbed_def)
qed

lemma pending_same_kids: "kids t = kids s \<Longrightarrow> kill_pending s \<Longrightarrow> kill_pending t"
  by (simp add: kill_pending_def)

lemma undisturbed_parent:
  assumes u: "undisturbed s" and t: "basic_parent ok s (pc_parent s) = Some t"
  shows "undisturbed t"
proof -
  have pend: "kill_pending t" if "kill_pending s" "\<exists>ks. kids t = kids s @ ks"
    using that unfolding kill_pending_def by (metis length_append nth_append trans_less_add1)
  show ?thesis
  proof (cases "pc_parent s")
    case (Forking i)
    then show ?thesis using u t pend by (auto simp: undisturbed_def less_2_cases_iff split: if_splits)
  next
    case (Waiting n)
    then show ?thesis using u t not_all_reaped [of "kids s"] by (auto simp: undisturbed_def split: if_splits)
  next
    case Leaving
    then show ?thesis using u t pend by (auto simp: undisturbed_def)
  qed (use t in simp_all)
qed

lemma undisturbed_update:
  assumes u: "undisturbed s" and j: "j < length (kids s)" "\<not> is_reaped (kids s ! j)" "\<not> (\<exists>i. kids s ! j = Failed i)"
    and k: "k \<noteq> Killed" and t: "kids t = (kids s)[j := k]" "parent_place (pc_parent t) (kids t)"
    "Execl_failed \<in> set (pc_out t) \<longrightarrow> Execl_failed \<in> set (pc_out s)" "Bye \<in> set (pc_out t) \<longrightarrow> Bye \<in> set (pc_out s)"
  shows "undisturbed t"
proof -
  have "Bye \<notin> set (pc_out s)"
    using u j(1,2) all_reaped [of "kids s" j] by (auto simp: undisturbed_def)
  moreover have "kill_pending t" if "kill_pending s"
    using pending_kept [OF that j(1,3), of k] t(1) by (simp add: kill_pending_def)
  ultimately show ?thesis
    using u k t set_update_subset_insert [of "kids s" j k] by (auto simp: undisturbed_def)
qed

lemma undisturbed_reap:
  assumes u: "undisturbed s" and t: "basic_reap j s (pc_parent s) = Some t"
  shows "undisturbed t"
proof -
  obtain n where n: "pc_parent s = Waiting n" "j < length (kids s)"
    using t by (cases "pc_parent s") (auto split: if_splits)
  have "kids s ! j \<noteq> Killed" using u n(2) by (metis nth_mem undisturbed_def)
  then obtain i where i: "kids s ! j = Exited i" using t n by (cases "kids s ! j") (auto simp: Let_def)
  show ?thesis
    using u t n i reaped_update [OF n(2), of "Reaped j"]
    by (intro undisturbed_update [OF u n(2), of "Reaped j"]) (auto simp: undisturbed_def Let_def split: if_splits)
qed

lemma undisturbed_go:
  assumes u: "undisturbed s" and j: "j < length (kids s)" "\<not> is_reaped (kids s ! j)" "\<not> (\<exists>i. kids s ! j = Failed i)"
    and k: "k \<noteq> Killed" "\<not> is_reaped k"
  shows "undisturbed (s\<lparr>kids := (kids s)[j := k]\<rparr>)"
    and "undisturbed (print_line (Alive i) (s\<lparr>kids := (kids s)[j := k]\<rparr>))"
proof -
  have "reaped ((kids s)[j := k]) = reaped (kids s)" using reaped_update [OF j(1,2), of k] k(2) by simp
  then have p: "parent_place (pc_parent s) ((kids s)[j := k])"
    using u by (cases "pc_parent s") (auto simp: undisturbed_def)
  show "undisturbed (s\<lparr>kids := (kids s)[j := k]\<rparr>)"
    using p k by (intro undisturbed_update [OF u j, of k]) simp_all
  show "undisturbed (print_line (Alive i) (s\<lparr>kids := (kids s)[j := k]\<rparr>))"
    using p k by (intro undisturbed_update [OF u j, of k]) simp_all
qed

lemma undisturbed_kid:
  assumes u: "undisturbed s" and t: "basic_kid j ok s = Some t"
  shows "undisturbed t \<or> all_dead t \<and> Bye \<notin> set (pc_out t)"
proof -
  have j: "j < length (kids s)" using t by (auto simp: basic_kid_def split: if_splits)
  show ?thesis
  proof (cases "kids s ! j")
    case (Exec i)
    then show ?thesis using t j failing_step [OF u j Exec] undisturbed_go(1) [OF u j, of "Running i 5"]
      by (auto simp: basic_kid_def split: if_splits)
  next
    case (Failed i)
    then have "kill_pending s" using j by (auto simp: kill_pending_def)
    then show ?thesis using kill_group_dead [OF u] t j Failed by (simp add: basic_kid_def)
  next
    case (Running i n)
    then show ?thesis
      using t j undisturbed_go(1) [OF u j, of "Exited i"] undisturbed_go(2) [OF u j, of "Running i (n - 1)" i]
      by (auto simp: basic_kid_def task_step_def split: if_splits)
  qed (use t j in \<open>simp_all add: basic_kid_def\<close>)
qed

lemma undisturbed_step:
  assumes "undisturbed s" "basic_step m s = Some t"
  shows "undisturbed t \<or> all_dead t \<and> Bye \<notin> set (pc_out t)"
  using assms undisturbed_parent [of s _ t] undisturbed_reap [of s _ t] undisturbed_kid [of s _ _ t] by (cases m) auto

lemma undisturbed_run:
  "basic_run ms s = Some t \<Longrightarrow> undisturbed s \<or> all_dead s \<and> Bye \<notin> set (pc_out s)
     \<Longrightarrow> undisturbed t \<or> all_dead t \<and> Bye \<notin> set (pc_out t)"
  by (erule (1) basic.run_inv) (metis all_dead_def option.distinct(1) undisturbed_step)

lemma start_undisturbed: "undisturbed basic_main"
  by (simp add: undisturbed_def basic_main_def)

text \<open>
  C40.  When \<^verbatim>\<open>execl\<close> fails in a child, the message and the \<^verbatim>\<open>kill\<close> after it are two calls: between them the
  other processes can run and the second child can fail too.  Yet once a message is printed, the parent
  can no longer reach its end, because the child at \<^verbatim>\<open>kill\<close> is not one it could have waited for: \<^verbatim>\<open>Bye Bye...\<close>
  is never printed.  Either the whole group has been killed already and no process moves again, or a child
  is at its \<^verbatim>\<open>kill\<close>, and that call, whenever it comes, ends every process.  Every run
  has at most 21 steps, whichever calls fail.
\<close>

theorem failed_execl_kills_group:
  assumes "basic_run ms basic_main = Some s" "Execl_failed \<in> set (pc_out s)"
  shows "length ms \<le> 21 \<and> pc_parent s \<notin> {Leaving, Returned} \<and> Bye \<notin> set (pc_out s)
    \<and> ((\<forall>m. basic_step m s = None) \<and> pc_parent s \<in> {Parent_killed, Exit_failure}
       \<or> (\<exists>j i t. j < length (kids s) \<and> kids s ! j = Failed i \<and> basic_step (Kid j True) s = Some t
            \<and> (\<forall>m. basic_step m t = None) \<and> pc_parent t \<in> {Parent_killed, Exit_failure} \<and> Bye \<notin> set (pc_out t)))"
proof -
  have le: "length ms \<le> 21" by (rule basic_run_left [OF assms(1)])
  from undisturbed_run [OF assms(1)] start_undisturbed
  consider "undisturbed s" | "all_dead s" "Bye \<notin> set (pc_out s)" by blast
  then show ?thesis
  proof cases
    case 1
    then have pend: "kill_pending s" using assms(2) by (simp add: undisturbed_def)
    then obtain j i where j: "j < length (kids s)" "kids s ! j = Failed i" by (auto simp: kill_pending_def)
    then have "basic_step (Kid j True) s = Some (kill_group s)" by (simp add: basic_kid_def)
    moreover have "(\<forall>m. basic_step m (kill_group s) = None) \<and> pc_parent (kill_group s) \<in> {Parent_killed, Exit_failure}"
      using kill_group_dead(1) [OF 1 pend] unfolding all_dead_def .
    ultimately show ?thesis using le j kill_group_dead(2) [OF 1 pend] pending_not_done [OF 1 pend] by blast
  next
    case 2
    then show ?thesis using le by (auto simp: all_dead_def)
  qed
qed

theorem failed_execl_kills_group_witness:
  "\<exists>s. basic_run [Parent True, Kid 0 True, Kid 0 True, Parent True, Kid 1 False, Kid 0 True, Kid 1 True] basic_main = Some s
     \<and> pc_out s = [Alive 0, Execl_failed, Alive 0] \<and> pc_parent s = Parent_killed \<and> (\<forall>m. basic_step m s = None)"
proof -
  let ?ms = "[Parent True, Kid 0 True, Kid 0 True, Parent True, Kid 1 False, Kid 0 True, Kid 1 True]"
  have "map_option (\<lambda>s. (pc_out s, pc_parent s, kids s)) (basic_run ?ms basic_main)
      = Some ([Alive 0, Execl_failed, Alive 0], Parent_killed, [Killed, Killed])" by code_simp
  then obtain s where s: "basic_run ?ms basic_main = Some s" "pc_out s = [Alive 0, Execl_failed, Alive 0]"
    "pc_parent s = Parent_killed" "kids s = [Killed, Killed]" by auto
  then have "\<nexists>j i. j < length (kids s) \<and> kids s ! j = Failed i" by (auto simp: less_Suc_eq nth_Cons')
  with failed_execl_kills_group [OF s(1)] s(2) have "\<forall>m. basic_step m s = None" by auto
  with s show ?thesis by blast
qed

section \<open>Reaping in a signal handler\<close>

datatype zchild = No_child | Alive_child | Stopped_child | Zombie | Gone

datatype zline = Parent_pid | Child_pid | Parent_hello | Waitpid int

record zombie_state =
  z_main :: nat                  \<comment> \<open>0: before \<^verbatim>\<open>signal\<close>, 1: before \<^verbatim>\<open>fork\<close>, 2: in the loop\<close>
  handler_set :: bool
  z_child :: zchild
  sigchld :: bool                \<comment> \<open>pending for the parent\<close>
  z_out :: "zline list"

datatype zaction = Main bool | Child_returns | Child_stopped | Child_continued | Deliver

definition zombie_main :: zombie_state where
  "zombie_main = \<lparr>z_main = 0, handler_set = False, z_child = No_child, sigchld = False, z_out = [Parent_pid]\<rparr>"

definition ctrl_c_handler :: "int \<Rightarrow> zombie_state \<Rightarrow> zombie_state" where
  \<comment> \<open>\<^verbatim>\<open>waitpid(-1, &status, WNOHANG)\<close>, the child's pid being the argument\<close>
  "ctrl_c_handler pid s =
     (let r = (if z_child s = Zombie then pid else if z_child s \<in> {Alive_child, Stopped_child} then 0 else - 1)
      in s\<lparr>z_child := (if z_child s = Zombie then Gone else z_child s), z_out := z_out s @ [Waitpid r]\<rparr>)"

fun zombie_step :: "int \<Rightarrow> zaction \<Rightarrow> zombie_state \<Rightarrow> zombie_state option" where
  "zombie_step pid (Main ok) s =
     (if z_main s = 0 then Some (s\<lparr>z_main := 1, handler_set := True\<rparr>)
      else if z_main s = 1 then
        \<comment> \<open>a failed \<^verbatim>\<open>fork\<close> returns -1, so the loop is entered as well\<close>
        Some (s\<lparr>z_main := 2, z_child := if ok then Alive_child else No_child,
               z_out := z_out s @ (if ok then [Child_pid] else [])\<rparr>)
      else Some (s\<lparr>z_out := z_out s @ [Parent_hello]\<rparr>))"
| "zombie_step pid Child_returns s =
     (if z_child s \<noteq> Alive_child then None else Some (s\<lparr>z_child := Zombie, sigchld := True\<rparr>))"
| "zombie_step pid Child_stopped s =
     (if z_child s \<noteq> Alive_child then None else Some (s\<lparr>z_child := Stopped_child, sigchld := True\<rparr>))"
| "zombie_step pid Child_continued s =
     (if z_child s \<noteq> Stopped_child then None else Some (s\<lparr>z_child := Alive_child, sigchld := True\<rparr>))"
| "zombie_step pid Deliver s =
     (if \<not> sigchld s then None
      else Some (if handler_set s then ctrl_c_handler pid (s\<lparr>sigchld := False\<rparr>) else s\<lparr>sigchld := False\<rparr>))"

fun zombie_run :: "int \<Rightarrow> zaction list \<Rightarrow> zombie_state \<Rightarrow> zombie_state option" where
  "zombie_run pid [] s = Some s"
| "zombie_run pid (a # as) s = (case zombie_step pid a s of None \<Rightarrow> None | Some t \<Rightarrow> zombie_run pid as t)"

interpretation zombie: machine "zombie_step pid" "zombie_run pid" for pid
  by unfold_locales simp_all

definition zombie_inv :: "int \<Rightarrow> zombie_state \<Rightarrow> bool" where
  "zombie_inv pid s \<longleftrightarrow> (z_child s = Zombie \<longrightarrow> sigchld s) \<and> (z_child s = Gone \<longrightarrow> Waitpid pid \<in> set (z_out s))
     \<and> (z_main s = 0 \<longrightarrow> \<not> handler_set s) \<and> (z_main s \<noteq> 0 \<longrightarrow> handler_set s) \<and> (z_main s < 2 \<longrightarrow> z_child s = No_child)"

lemma zombie_step_inv: "zombie_inv pid s \<Longrightarrow> zombie_step pid a s = Some t \<Longrightarrow> zombie_inv pid t"
  by (cases a) (auto simp: zombie_inv_def ctrl_c_handler_def Let_def split: if_splits)

lemma zombie_run_inv: "zombie_run pid as s = Some t \<Longrightarrow> zombie_inv pid s \<Longrightarrow> zombie_inv pid t"
  by (erule (1) zombie.run_inv) (rule zombie_step_inv)

text \<open>
  The child of \<^verbatim>\<open>zombie_handle.c\<close> never stays a zombie: the handler is installed before the fork, so
  in every run, also if the child is stopped and continued and signals merge, a zombie has its signal
  pending and the next delivery reaps it; a child that is gone has been reported by \<^verbatim>\<open>waitpid\<close>; and the
  parent goes on printing.
\<close>

lemma zombie_reaped:
  assumes "zombie_run pid as zombie_main = Some s"
  shows "(z_child s = Zombie \<longrightarrow> (\<exists>t. zombie_step pid Deliver s = Some t \<and> z_child t = Gone \<and> last (z_out t) = Waitpid pid))
    \<and> (z_child s = Gone \<longrightarrow> Waitpid pid \<in> set (z_out s)) \<and> zombie_step pid (Main True) s \<noteq> None"
proof -
  have "zombie_inv pid zombie_main" by (simp add: zombie_inv_def zombie_main_def)
  with zombie_run_inv [OF assms] have "zombie_inv pid s" .
  then show ?thesis by (auto simp: zombie_inv_def ctrl_c_handler_def Let_def)
qed

end
