(* ===== verification/Timer_Programs.thy ===== *)
theory Timer_Programs
  imports Machine
begin

text \<open>
  The demonstrations of POSIX timers, \<^verbatim>\<open>software_timer/software_timer_signal.c\<close> and
  \<^verbatim>\<open>software_timer_thread.c\<close>: a timer of five seconds whose expiry runs a handler in a signal or in a
  thread of its own, while \<^verbatim>\<open>main\<close> prints ten lines.  When the timer expires is left open: it is an
  argument of the first program and a step of the second.
\<close>

datatype tline = Warn_attr | Warn_detach | Warn_sigaction | Warn_create | Timer_id | Settime_failed
  | Waiting_for_expiry | I_am_main | Expiry_handler | Destroy_id | Destroy_error | In_handler | I_am_thread

definition warn :: "bool \<Rightarrow> tline \<Rightarrow> tline list" where
  \<comment> \<open>\<^verbatim>\<open>if (0 != call) printf(...)\<close>\<close>
  "warn ok x = (if ok then [] else [x])"

section \<open>Expiry by a signal\<close>

definition signal_handler :: "bool \<Rightarrow> tline list" where
  \<comment> \<open>\<^verbatim>\<open>timer_exp_handler\<close> with the result of \<^verbatim>\<open>timer_delete\<close>\<close>
  "signal_handler delete_ok = [Expiry_handler, Destroy_id] @ warn delete_ok Destroy_error @ replicate 5 In_handler"

fun activations :: "bool \<Rightarrow> bool list \<Rightarrow> tline list \<times> bool" where
  \<comment> \<open>is the timer armed; for each expiry during one \<^verbatim>\<open>sleep\<close> of \<^verbatim>\<open>main\<close> the result of \<^verbatim>\<open>timer_delete\<close>.
     A disarmed timer does not expire\<close>
  "activations armed [] = ([], armed)"
| "activations armed (d # ds) =
     (if armed then (case activations (\<not> d) ds of (out, a) \<Rightarrow> (signal_handler d @ out, a)) else ([], False))"

fun signal_loop :: "nat \<Rightarrow> bool \<Rightarrow> bool \<Rightarrow> bool list list \<Rightarrow> tline list \<times> bool" where
  \<comment> \<open>rounds to go; armed; is the handler installed; the expiries of each round's \<^verbatim>\<open>sleep\<close>.  The flag
     of the result: \<^verbatim>\<open>main\<close> returned (otherwise the unhandled signal has killed the process)\<close>
  "signal_loop 0 armed installed es = ([], True)"
| "signal_loop (Suc n) armed installed es =
     (let e = (if es = [] then [] else hd es) in
      if armed \<and> \<not> installed \<and> e \<noteq> [] then ([I_am_main], False)
      else case activations armed e of (out, a) \<Rightarrow>
        (case signal_loop n a installed (tl es) of (out', r) \<Rightarrow> (I_am_main # out @ out', r)))"

definition signal_main :: "bool \<Rightarrow> bool \<Rightarrow> bool \<Rightarrow> bool \<Rightarrow> bool \<Rightarrow> bool list list \<Rightarrow> tline list \<times> bool" where
  "signal_main attr_ok detach_ok sigaction_ok create_ok settime_ok es =
     (case signal_loop 10 (create_ok \<and> settime_ok) sigaction_ok es of (out, r) \<Rightarrow>
        (warn attr_ok Warn_attr @ warn detach_ok Warn_detach @ warn sigaction_ok Warn_sigaction
         @ warn create_ok Warn_create @ [Timer_id] @ warn settime_ok Settime_failed @ [Waiting_for_expiry] @ out, r))"

lemma disarmed: "activations False ds = ([], False)"
  by (cases ds) simp_all

lemma disarmed_loop: "signal_loop n False ins es = (replicate n I_am_main, True)"
  by (induction n arbitrary: es) (simp_all add: disarmed)

lemma armed_loop:
  assumes "list_all (list_all (\<lambda>d. d)) es"
  shows "\<exists>k h. signal_loop n True True es = (replicate k I_am_main @ (if h then signal_handler True else []) @ replicate (n - k) I_am_main, True)
    \<and> k \<le> n"
  using assms
proof (induction n arbitrary: es)
  case 0
  then show ?case by (intro exI [of _ 0] exI [of _ False]) simp
next
  case (Suc n)
  define e where "e = (if es = [] then [] else hd es)"
  have e: "list_all (\<lambda>d. d) e" using Suc.prems by (cases es) (simp_all add: e_def)
  show ?case
  proof (cases e)
    case Nil
    have "list_all (list_all (\<lambda>d. d)) (tl es)" using Suc.prems by (cases es) simp_all
    with Suc.IH obtain k h where
      "signal_loop n True True (tl es) = (replicate k I_am_main @ (if h then signal_handler True else []) @ replicate (n - k) I_am_main, True)"
      "k \<le> n" by blast
    with Nil show ?thesis
      by (intro exI [of _ "Suc k"] exI [of _ h]) (simp add: Let_def e_def [symmetric])
  next
    case (Cons d ds)
    with e have "d" by simp
    with Cons show ?thesis
      by (intro exI [of _ 1] exI [of _ True]) (simp add: Let_def e_def [symmetric] disarmed disarmed_loop)
  qed
qed

text \<open>
  If the timer can be deleted the handler runs at most once, within one of the sleeps of \<^verbatim>\<open>main\<close>,
  however often the period of five seconds passes: \<^verbatim>\<open>main\<close> prints its ten lines and returns, and the
  handler's lines stand together between two of them.  If no handler could be installed the first
  expiry kills the process.
\<close>

lemma timer_handler_runs_once:
  assumes "list_all (list_all (\<lambda>d. d)) es"
  shows "(\<exists>k h. k \<le> 10 \<and> signal_main True True True True True es
      = ([Timer_id, Waiting_for_expiry] @ replicate k I_am_main @ (if h then signal_handler True else [])
          @ replicate (10 - k) I_am_main, True))
    \<and> snd (signal_main at de True cr se es) \<and> \<not> snd (signal_main at de False True True ([d] # es))"
proof -
  obtain k h where k: "k \<le> 10" "signal_loop 10 True True es = (replicate k I_am_main @ (if h then signal_handler True else [])
      @ replicate (10 - k) I_am_main, True)"
    using armed_loop [OF assms, of 10] by blast
  moreover have "snd (signal_loop 10 (cr \<and> se) True es)"
    using k(2) disarmed_loop [of 10 True es] by (cases cr; cases se) simp_all
  moreover have "\<not> snd (signal_loop 10 True False ([d] # es))"
    by (simp add: numeral_eq_Suc)
  ultimately show ?thesis by (auto simp: signal_main_def warn_def split: prod.splits)
qed

section \<open>Expiry in a thread\<close>

record timer_thread =
  tt_main :: nat                 \<comment> \<open>lines \<^verbatim>\<open>main\<close> has still to print\<close>
  tt_armed :: bool
  tt_handlers :: "nat option list"   \<comment> \<open>the handler threads: \<open>None\<close>: at their beginning; lines still to print\<close>
  tt_over :: bool                \<comment> \<open>the process has ended\<close>
  tt_out :: "tline list"

datatype tt_mover = Main | Fire | Handler nat bool     \<comment> \<open>the flag: \<^verbatim>\<open>timer_delete\<close> succeeds\<close>

definition thread_timer_main :: "bool \<Rightarrow> bool \<Rightarrow> bool \<Rightarrow> bool \<Rightarrow> timer_thread" where
  "thread_timer_main attr_ok detach_ok create_ok settime_ok =
     \<lparr>tt_main = 10, tt_armed = (create_ok \<and> settime_ok), tt_handlers = [], tt_over = False,
      tt_out = warn attr_ok Warn_attr @ warn detach_ok Warn_detach @ warn create_ok Warn_create @ [Timer_id]
        @ warn settime_ok Settime_failed @ [Waiting_for_expiry]\<rparr>"

definition thread_handler :: "nat \<Rightarrow> bool \<Rightarrow> timer_thread \<Rightarrow> timer_thread option" where
  \<comment> \<open>\<^verbatim>\<open>timer_exp_handler\<close>; its \<^verbatim>\<open>exit\<close> ends the process\<close>
  "thread_handler i delete_ok s =
     (if i \<ge> length (tt_handlers s) then None
      else case tt_handlers s ! i of
        None \<Rightarrow> Some (s\<lparr>tt_handlers := (tt_handlers s)[i := Some 5], tt_armed := (tt_armed s \<and> \<not> delete_ok),
                         tt_out := tt_out s @ [Expiry_handler, Destroy_id] @ warn delete_ok Destroy_error\<rparr>)
      | Some 0 \<Rightarrow> Some (s\<lparr>tt_over := True\<rparr>)
      | Some (Suc n) \<Rightarrow> Some (s\<lparr>tt_handlers := (tt_handlers s)[i := Some n], tt_out := tt_out s @ [I_am_thread]\<rparr>))"

definition tt_step :: "tt_mover \<Rightarrow> timer_thread \<Rightarrow> timer_thread option" where
  "tt_step m s =
     (if tt_over s then None
      else case m of
        Main \<Rightarrow> Some (if tt_main s = 0 then s\<lparr>tt_over := True\<rparr>
                      else s\<lparr>tt_main := tt_main s - 1, tt_out := tt_out s @ [I_am_main]\<rparr>)
      | Fire \<Rightarrow> if tt_armed s then Some (s\<lparr>tt_handlers := tt_handlers s @ [None]\<rparr>) else None
      | Handler i ok \<Rightarrow> thread_handler i ok s)"

fun tt_run :: "tt_mover list \<Rightarrow> timer_thread \<Rightarrow> timer_thread option" where
  "tt_run [] s = Some s"
| "tt_run (m # ms) s = (case tt_step m s of None \<Rightarrow> None | Some t \<Rightarrow> tt_run ms t)"

interpretation tt: machine tt_step tt_run
  by unfold_locales simp_all

definition tt_left :: "nat option \<Rightarrow> nat" where
  "tt_left h = (case h of None \<Rightarrow> 5 | Some n \<Rightarrow> n)"

definition tt_inv :: "timer_thread \<Rightarrow> bool" where
  "tt_inv s \<longleftrightarrow> count_list (tt_out s) I_am_main + tt_main s = 10
     \<and> count_list (tt_out s) I_am_thread + sum_list (map tt_left (tt_handlers s)) = 5 * length (tt_handlers s)
     \<and> list_all (\<lambda>h. tt_left h \<le> 5) (tt_handlers s)
     \<and> (tt_over s \<longrightarrow> tt_main s = 0 \<or> (\<exists>i<length (tt_handlers s). tt_handlers s ! i = Some 0))"

lemma warn_counts: "x \<noteq> I_am_main \<Longrightarrow> x \<noteq> I_am_thread \<Longrightarrow> I_am_main \<notin> set (warn ok x) \<and> I_am_thread \<notin> set (warn ok x)"
  by (simp add: warn_def)

lemma tt_step_inv:
  assumes inv: "tt_inv s" and t: "tt_step m s = Some t"
  shows "tt_inv t"
proof (cases m)
  case (Handler i ok)
  then have i: "i < length (tt_handlers s)" "thread_handler i ok s = Some t" "\<not> tt_over s"
    using t by (auto simp: tt_step_def thread_handler_def split: if_splits)
  show ?thesis
  proof (cases "tt_handlers s ! i")
    case None
    with i inv sum_list_update [OF i(1), of tt_left "Some 5"] show ?thesis
      by (auto simp: tt_inv_def thread_handler_def tt_left_def warn_def list_all_length nth_list_update)
  next
    case (Some k)
    then have "k \<le> 5" using inv i(1) by (auto simp: tt_inv_def tt_left_def list_all_length dest: spec [of _ i])
    with Some i inv sum_list_update [OF i(1), of tt_left "Some (k - 1)"] show ?thesis
      by (cases k) (auto simp: tt_inv_def thread_handler_def tt_left_def list_all_length nth_list_update)
  qed
qed (use inv t in \<open>auto simp: tt_inv_def tt_step_def tt_left_def split: if_splits\<close>)

lemma tt_run_inv: "tt_run ms s = Some t \<Longrightarrow> tt_inv s \<Longrightarrow> tt_inv t"
  by (erule (1) tt.run_inv) (rule tt_step_inv)

text \<open>
  The version with a handler thread: the process ends by \<^verbatim>\<open>main\<close> after its ten lines or by a handler
  after its five, whichever comes first, and it is never stuck before.
\<close>

lemma timer_thread_ends:
  assumes "tt_run ms (thread_timer_main at de cr se) = Some s"
  shows "count_list (tt_out s) I_am_main \<le> 10 \<and> (\<not> tt_over s \<longrightarrow> tt_step Main s \<noteq> None)
    \<and> (tt_over s \<longrightarrow> count_list (tt_out s) I_am_main = 10 \<or> 5 \<le> count_list (tt_out s) I_am_thread)"
proof -
  have "tt_inv (thread_timer_main at de cr se)" by (simp add: tt_inv_def thread_timer_main_def warn_def)
  with tt_run_inv [OF assms] have inv: "tt_inv s" .
  have "5 \<le> count_list (tt_out s) I_am_thread" if i: "i < length (tt_handlers s)" "tt_handlers s ! i = Some 0" for i
  proof -
    have "sum_list (map tt_left (tt_handlers s)) + 5 = sum_list (map tt_left ((tt_handlers s)[i := Some 5]))"
      using sum_list_update [OF i(1), of tt_left "Some 5"] i(2) by (simp add: tt_left_def)
    also have "\<dots> \<le> sum_list (map (\<lambda>_. 5) ((tt_handlers s)[i := Some 5]))"
      using inv i(1) by (intro sum_list_mono) (auto simp: tt_inv_def list_all_iff tt_left_def dest!: set_update_subset_insert [THEN subsetD])
    also have "\<dots> = 5 * length (tt_handlers s)" by (simp add: sum_list_triv)
    finally show ?thesis using inv by (simp add: tt_inv_def)
  qed
  with inv show ?thesis by (auto simp: tt_inv_def tt_step_def)
qed

end
