(* ===== verification/Crash_Threads.thy ===== *)
theory Crash_Threads
  imports Machine
begin

text \<open>
  \<^verbatim>\<open>linux_task/thread_crash_identificaion/main.c\<close>: three threads that print, allocate a kilobyte, fill it
  and never give it back, and a handler for SIGINT that cancels them.  How many such blocks the heap has
  is a parameter; the program does not look at the result of \<^verbatim>\<open>malloc\<close>.  \<^verbatim>\<open>sleep\<close> is a cancellation
  point, \<^verbatim>\<open>printf\<close> may be one.  The handler runs to its end in one step: Linux delivers a signal for the
  process to the main thread, which does not block it and which nobody cancels, so that the \<^verbatim>\<open>printf\<close> in
  the handler cannot end the thread that runs it.
\<close>

section \<open>The program\<close>

datatype crash_main_at = M_create nat | M_sleep nat | M_signal | M_join nat | M_returned int | M_killed

datatype routine_at = W_print | W_malloc | W_memset bool | W_sleep | W_done
  \<comment> \<open>the flag: the pointer given to \<^verbatim>\<open>common_fun\<close> is not NULL\<close>

record worker =
  w_at :: routine_at
  w_cancel :: bool

datatype crash_line = Create_failed | Thread_var nat s32 | Sigint_handler | Not_present nat

record crash_state =
  cr_main :: crash_main_at
  workers :: "worker list"
  heap_left :: nat                     \<comment> \<open>blocks \<^verbatim>\<open>malloc\<close> can still hand out\<close>
  leaked :: nat                        \<comment> \<open>blocks handed out\<close>
  crash_var :: s32                     \<comment> \<open>\<^verbatim>\<open>var\<close>, which wraps around\<close>
  handler_on :: bool
  failed_thread :: "nat option"
  crash_out :: "crash_line list"

datatype crash_mover = Cm bool | Cw nat bool | Sigint "nat \<Rightarrow> bool"
  \<comment> \<open>results of \<^verbatim>\<open>pthread_create\<close>; whether \<^verbatim>\<open>printf\<close> acts on a cancellation; results of \<^verbatim>\<open>pthread_cancel\<close>
     for threads that have been joined\<close>

definition NUMBER_OF_THREADS :: nat where
  "NUMBER_OF_THREADS = 3"

definition crash_start :: "nat \<Rightarrow> crash_state" where
  "crash_start cap =
     \<lparr>cr_main = M_create 0, workers = [], heap_left = cap, leaked = 0, crash_var = 1, handler_on = False,
      failed_thread = None, crash_out = []\<rparr>"

definition new_worker :: worker where
  "new_worker = \<lparr>w_at = W_print, w_cancel = False\<rparr>"

fun crash_main_step :: "bool \<Rightarrow> crash_state \<Rightarrow> crash_main_at \<Rightarrow> crash_state option" where
  "crash_main_step ok s (M_create i) =
     Some (if \<not> ok then s\<lparr>cr_main := M_returned (- 1), crash_out := crash_out s @ [Create_failed]\<rparr>
           else s\<lparr>cr_main := M_sleep i, workers := workers s @ [new_worker]\<rparr>)"
| "crash_main_step ok s (M_sleep i) =
     Some (s\<lparr>cr_main := if i + 1 < NUMBER_OF_THREADS then M_create (i + 1) else M_signal\<rparr>)"
| "crash_main_step ok s M_signal = Some (s\<lparr>cr_main := M_join 0, handler_on := True\<rparr>)"
| "crash_main_step ok s (M_join i) =
     (if w_at (workers s ! i) = W_done
      then Some (s\<lparr>cr_main := if i + 1 < NUMBER_OF_THREADS then M_join (i + 1) else M_returned 0\<rparr>)
      else None)"
| "crash_main_step ok s (M_returned c) = None"
| "crash_main_step ok s M_killed = None"

definition put_worker :: "nat \<Rightarrow> routine_at \<Rightarrow> crash_state \<Rightarrow> crash_state" where
  "put_worker i a s = s\<lparr>workers := (workers s)[i := (workers s ! i)\<lparr>w_at := a\<rparr>]\<rparr>"

fun common_thread_routine :: "nat \<Rightarrow> bool \<Rightarrow> crash_state \<Rightarrow> routine_at \<Rightarrow> crash_state option" where
  "common_thread_routine i act s W_print =
     Some (if act \<and> w_cancel (workers s ! i) then put_worker i W_done s
           else put_worker i W_malloc (s\<lparr>crash_out := crash_out s @ [Thread_var i (crash_var s)]\<rparr>))"
| "common_thread_routine i act s W_malloc =
     Some (if heap_left s = 0 then put_worker i (W_memset False) s
           else put_worker i (W_memset True) (s\<lparr>heap_left := heap_left s - 1, leaked := leaked s + 1\<rparr>))"
| "common_thread_routine i act s (W_memset ok) =
     Some (if ok then put_worker i W_sleep s else s\<lparr>cr_main := M_killed\<rparr>)"
| "common_thread_routine i act s W_sleep =
     Some (put_worker i (if w_cancel (workers s ! i) then W_done else W_print) s)"
| "common_thread_routine i act s W_done = None"

definition joined :: "crash_state \<Rightarrow> nat \<Rightarrow> bool" where
  "joined s i \<longleftrightarrow> (\<exists>k. cr_main s = M_join k \<and> i < k)"

definition cancel_one :: "(nat \<Rightarrow> bool) \<Rightarrow> nat \<Rightarrow> crash_state \<Rightarrow> crash_state" where
  \<comment> \<open>one round of the loop in the handler\<close>
  "cancel_one f i s =
     (let s = (if joined s i \<and> \<not> f i
               then s\<lparr>failed_thread := Some i, crash_out := crash_out s @ [Not_present i]\<rparr>
               else s\<lparr>workers := (workers s)[i := (workers s ! i)\<lparr>w_cancel := True\<rparr>]\<rparr>)
      in s\<lparr>crash_var := crash_var s + 1\<rparr>)"

definition sig_sev_signal_handler :: "(nat \<Rightarrow> bool) \<Rightarrow> crash_state \<Rightarrow> crash_state" where
  "sig_sev_signal_handler f s =
     fold (cancel_one f) [0..<NUMBER_OF_THREADS] (s\<lparr>crash_out := crash_out s @ [Sigint_handler]\<rparr>)"

definition running :: "crash_state \<Rightarrow> bool" where
  "running s \<longleftrightarrow> cr_main s \<noteq> M_killed \<and> (\<forall>c. cr_main s \<noteq> M_returned c)"

fun crash_step :: "crash_mover \<Rightarrow> crash_state \<Rightarrow> crash_state option" where
  "crash_step (Cm ok) s = crash_main_step ok s (cr_main s)"
| "crash_step (Cw i act) s =
     (if \<not> running s \<or> i \<ge> length (workers s) then None
      else common_thread_routine i act s (w_at (workers s ! i)))"
| "crash_step (Sigint f) s =
     (if \<not> running s then None
      else Some (if handler_on s then sig_sev_signal_handler f s else s\<lparr>cr_main := M_killed\<rparr>))"

fun crash_run :: "crash_mover list \<Rightarrow> crash_state \<Rightarrow> crash_state option" where
  "crash_run [] s = Some s"
| "crash_run (m # ms) s = (case crash_step m s of None \<Rightarrow> None | Some t \<Rightarrow> crash_run ms t)"

interpretation crash: machine crash_step crash_run
  by unfold_locales simp_all

fun is_sigint :: "crash_mover \<Rightarrow> bool" where
  "is_sigint (Sigint f) = True"
| "is_sigint _ = False"

section \<open>Invariant\<close>

fun main_ok :: "crash_main_at \<Rightarrow> worker list \<Rightarrow> bool \<Rightarrow> bool" where
  "main_ok (M_create i) ws h \<longleftrightarrow> i < 3 \<and> length ws = i \<and> \<not> h"
| "main_ok (M_sleep i) ws h \<longleftrightarrow> i < 3 \<and> length ws = i + 1 \<and> \<not> h"
| "main_ok M_signal ws h \<longleftrightarrow> length ws = 3 \<and> \<not> h"
| "main_ok (M_join i) ws h \<longleftrightarrow> i < 3 \<and> length ws = 3 \<and> h \<and> (\<forall>j<i. w_at (ws ! j) = W_done)"
| "main_ok (M_returned c) ws h \<longleftrightarrow> c = - 1 \<or> c = 0 \<and> length ws = 3 \<and> h \<and> (\<forall>j<3. w_at (ws ! j) = W_done)"
| "main_ok M_killed ws h \<longleftrightarrow> True"

definition worker_fits :: "nat \<Rightarrow> bool \<Rightarrow> worker \<Rightarrow> bool" where
  "worker_fits left h w \<longleftrightarrow> (w_at w = W_memset False \<longrightarrow> left = 0) \<and> (w_at w = W_done \<longrightarrow> w_cancel w) \<and> (w_cancel w \<longrightarrow> h)"

definition crash_inv :: "nat \<Rightarrow> crash_state \<Rightarrow> bool" where
  "crash_inv cap s \<longleftrightarrow> main_ok (cr_main s) (workers s) (handler_on s) \<and> leaked s + heap_left s = cap
     \<and> (\<forall>w \<in> set (workers s). worker_fits (heap_left s) (handler_on s) w)"

lemma worker_fits_less: "worker_fits n h w \<Longrightarrow> m \<le> n \<Longrightarrow> h \<longrightarrow> h' \<Longrightarrow> worker_fits m h' w"
  by (auto simp: worker_fits_def)

lemma put_worker_simps [simp]:
  "cr_main (put_worker i a s) = cr_main s" "heap_left (put_worker i a s) = heap_left s"
  "leaked (put_worker i a s) = leaked s" "handler_on (put_worker i a s) = handler_on s"
  "workers (put_worker i a s) = (workers s)[i := (workers s ! i)\<lparr>w_at := a\<rparr>]"
  by (simp_all add: put_worker_def)

lemma main_ok_update:
  "main_ok m ws h \<Longrightarrow> i < length ws \<Longrightarrow> w_at (ws ! i) \<noteq> W_done \<Longrightarrow> main_ok m (ws[i := w]) h"
  by (cases m) (auto simp: nth_list_update)

lemma fits_update:
  "\<forall>w \<in> set ws. worker_fits n h w \<Longrightarrow> worker_fits n h v \<Longrightarrow> \<forall>w \<in> set (ws[i := v]). worker_fits n h w"
  by (auto dest!: set_update_subset_insert [THEN subsetD])

lemma routine_inv:
  assumes inv: "crash_inv cap s" and i: "i < length (workers s)" and run: "running s"
    and t: "common_thread_routine i act s (w_at (workers s ! i)) = Some t"
  shows "crash_inv cap t"
proof -
  let ?w = "workers s ! i"
  have w: "worker_fits (heap_left s) (handler_on s) ?w" using inv i by (simp add: crash_inv_def)
  have nd: "w_at ?w \<noteq> W_done" using t by auto
  have m: "main_ok (cr_main s) ((workers s)[i := v]) (handler_on s)" for v
    using main_ok_update [OF _ i nd] inv by (simp add: crash_inv_def)
  have put: "crash_inv cap u" if "worker_fits (heap_left u) (handler_on s) (?w\<lparr>w_at := a\<rparr>)"
    "heap_left u \<le> heap_left s" "leaked u + heap_left u = cap" "cr_main u = cr_main s" "handler_on u = handler_on s"
    "workers u = (workers s)[i := ?w\<lparr>w_at := a\<rparr>]" for a u
  proof -
    have "worker_fits (heap_left u) (handler_on s) v" if "v \<in> set (workers s)" for v
      using inv that \<open>heap_left u \<le> heap_left s\<close> worker_fits_less [of "heap_left s" "handler_on s" v "heap_left u" "handler_on s"]
      by (simp add: crash_inv_def)
    with that(1) have "\<forall>v \<in> set (workers u). worker_fits (heap_left u) (handler_on u) v"
      unfolding that(5,6) by (intro fits_update) simp_all
    with that m show ?thesis by (simp add: crash_inv_def)
  qed
  show ?thesis
  proof (cases "w_at ?w")
    case (W_memset ok)
    show ?thesis
    proof (cases ok)
      case True
      with W_memset t w inv show ?thesis by (intro put [of _ W_sleep]) (auto simp: worker_fits_def crash_inv_def)
    next
      case False
      with W_memset t inv show ?thesis by (auto simp: crash_inv_def)
    qed
  next
    case W_print
    with t w inv show ?thesis
      by (intro put [of _ "if act \<and> w_cancel ?w then W_done else W_malloc"])
        (auto simp: worker_fits_def crash_inv_def put_worker_def)
  next
    case W_malloc
    with t w inv show ?thesis
      by (intro put [of _ "if heap_left s = 0 then W_memset False else W_memset True"])
        (auto simp: worker_fits_def crash_inv_def put_worker_def split: if_splits)
  next
    case W_sleep
    with t w inv show ?thesis
      by (intro put [of _ "if w_cancel ?w then W_done else W_print"]) (auto simp: worker_fits_def crash_inv_def)
  qed (use nd in simp)
qed

lemma cancel_one_simps [simp]:
  "cr_main (cancel_one f i s) = cr_main s" "heap_left (cancel_one f i s) = heap_left s"
  "leaked (cancel_one f i s) = leaked s" "handler_on (cancel_one f i s) = handler_on s"
  "crash_var (cancel_one f i s) = crash_var s + 1" "length (workers (cancel_one f i s)) = length (workers s)"
  by (simp_all add: cancel_one_def Let_def)

lemma cancel_one_worker:
  "j < length (workers s) \<Longrightarrow> w_at (workers (cancel_one f i s) ! j) = w_at (workers s ! j)
   \<and> (w_cancel (workers s ! j) \<longrightarrow> w_cancel (workers (cancel_one f i s) ! j))
   \<and> (i = j \<and> \<not> joined s j \<longrightarrow> w_cancel (workers (cancel_one f i s) ! j))"
  by (cases "i = j") (auto simp: cancel_one_def Let_def)

lemma cancel_fold:
  "cr_main (fold (cancel_one f) is s) = cr_main s \<and> heap_left (fold (cancel_one f) is s) = heap_left s
   \<and> leaked (fold (cancel_one f) is s) = leaked s \<and> handler_on (fold (cancel_one f) is s) = handler_on s
   \<and> crash_var (fold (cancel_one f) is s) = crash_var s + of_nat (length is)
   \<and> length (workers (fold (cancel_one f) is s)) = length (workers s)"
  by (induction "is" arbitrary: s) simp_all

lemma cancel_fold_worker:
  "j < length (workers s) \<Longrightarrow> w_at (workers (fold (cancel_one f) is s) ! j) = w_at (workers s ! j)
   \<and> (w_cancel (workers s ! j) \<or> j \<in> set is \<and> \<not> joined s j \<longrightarrow> w_cancel (workers (fold (cancel_one f) is s) ! j))"
proof (induction "is" arbitrary: s)
  case Nil
  then show ?case by simp
next
  case (Cons i "is")
  have "joined (cancel_one f i s) j = joined s j" by (simp add: joined_def)
  with Cons.IH [of "cancel_one f i s"] cancel_one_worker [OF Cons.prems, of f i] Cons.prems show ?case by auto
qed

lemma handler_worker:
  assumes "j < length (workers s)"
  shows "w_at (workers (sig_sev_signal_handler f s) ! j) = w_at (workers s ! j)
    \<and> (w_cancel (workers s ! j) \<longrightarrow> w_cancel (workers (sig_sev_signal_handler f s) ! j))
    \<and> (j < 3 \<and> \<not> joined s j \<longrightarrow> w_cancel (workers (sig_sev_signal_handler f s) ! j))"
  using cancel_fold_worker [of j "s\<lparr>crash_out := crash_out s @ [Sigint_handler]\<rparr>" f "[0..<NUMBER_OF_THREADS]"] assms
  by (auto simp: sig_sev_signal_handler_def NUMBER_OF_THREADS_def joined_def)

lemma handler_simps [simp]:
  "cr_main (sig_sev_signal_handler f s) = cr_main s" "heap_left (sig_sev_signal_handler f s) = heap_left s"
  "leaked (sig_sev_signal_handler f s) = leaked s" "handler_on (sig_sev_signal_handler f s) = handler_on s"
  "crash_var (sig_sev_signal_handler f s) = crash_var s + 3"
  "length (workers (sig_sev_signal_handler f s)) = length (workers s)"
  by (simp_all add: sig_sev_signal_handler_def cancel_fold NUMBER_OF_THREADS_def)

lemma main_ok_same:
  "main_ok m ws h \<Longrightarrow> length vs = length ws \<Longrightarrow> \<forall>j<length ws. w_at (vs ! j) = w_at (ws ! j) \<Longrightarrow> main_ok m vs h"
  by (cases m) auto

lemma handler_inv:
  assumes inv: "crash_inv cap s" and h: "handler_on s"
  shows "crash_inv cap (sig_sev_signal_handler f s)"
proof -
  let ?t = "sig_sev_signal_handler f s"
  have "worker_fits (heap_left s) True (workers ?t ! j)" if "j < length (workers s)" for j
  proof -
    have "worker_fits (heap_left s) True (workers s ! j)" using inv h that by (simp add: crash_inv_def)
    with handler_worker [OF that, of f] show ?thesis by (simp add: worker_fits_def)
  qed
  then have "\<forall>w\<in>set (workers ?t). worker_fits (heap_left s) True w"
    unfolding all_set_conv_all_nth by simp
  moreover have "main_ok (cr_main s) (workers ?t) (handler_on s)"
  proof (rule main_ok_same)
    show "main_ok (cr_main s) (workers s) (handler_on s)" using inv by (simp add: crash_inv_def)
    show "\<forall>j<length (workers s). w_at (workers ?t ! j) = w_at (workers s ! j)" using handler_worker by simp
  qed simp
  moreover have "leaked s + heap_left s = cap" using inv by (simp add: crash_inv_def)
  ultimately show ?thesis using h by (simp add: crash_inv_def)
qed

lemma crash_step_inv:
  assumes inv: "crash_inv cap s" and t: "crash_step m s = Some t"
  shows "crash_inv cap t"
proof (cases m)
  case (Cm ok)
  then show ?thesis
  proof (cases "cr_main s")
    case (M_create i)
    with inv t Cm show ?thesis
      by (auto simp: crash_inv_def new_worker_def worker_fits_def split: if_splits)
  next
    case (M_join i)
    with inv t Cm show ?thesis
      by (auto simp: crash_inv_def NUMBER_OF_THREADS_def less_Suc_eq numeral_3_eq_3 split: if_splits)
  next
    case M_signal
    with inv t Cm worker_fits_less [of "heap_left s" False _ "heap_left s" True] show ?thesis by (auto simp: crash_inv_def)
  qed (use inv t Cm in \<open>auto simp: crash_inv_def NUMBER_OF_THREADS_def split: if_splits\<close>)
next
  case (Cw i act)
  with inv t routine_inv [of cap s i act t] show ?thesis by (auto split: if_splits)
next
  case (Sigint f)
  with inv t handler_inv [OF inv, of f] show ?thesis by (auto simp: crash_inv_def split: if_splits)
qed

lemma crash_start_inv: "crash_inv cap (crash_start cap)"
  by (simp add: crash_inv_def crash_start_def)

section \<open>Without the signal the heap runs out\<close>

fun crash_main_left :: "crash_main_at \<Rightarrow> nat" where
  "crash_main_left (M_create i) = 17 - 4 * i"
| "crash_main_left (M_sleep i) = 14 - 4 * i"
| "crash_main_left M_signal = 5"
| "crash_main_left (M_join i) = 4 - i"
| "crash_main_left (M_returned c) = 0"
| "crash_main_left M_killed = 0"

fun at_left :: "routine_at \<Rightarrow> nat" where
  "at_left W_print = 2"
| "at_left W_malloc = 1"
| "at_left (W_memset ok) = (if ok then 4 else 0)"
| "at_left W_sleep = 3"
| "at_left W_done = 0"

definition crash_left :: "crash_state \<Rightarrow> nat" where
  "crash_left s = crash_main_left (cr_main s) + 4 * heap_left s + sum_list (map (\<lambda>w. at_left (w_at w)) (workers s))"

definition uncancelled :: "crash_state \<Rightarrow> bool" where
  "uncancelled s \<longleftrightarrow> (\<forall>w \<in> set (workers s). \<not> w_cancel w)"

lemma put_left:
  "i < length (workers s) \<Longrightarrow>
   sum_list (map (\<lambda>w. at_left (w_at w)) ((workers s)[i := (workers s ! i)\<lparr>w_at := a\<rparr>])) + at_left (w_at (workers s ! i))
     = sum_list (map (\<lambda>w. at_left (w_at w)) (workers s)) + at_left a"
  using sum_list_update [of i "workers s" "\<lambda>w. at_left (w_at w)" "(workers s ! i)\<lparr>w_at := a\<rparr>"] by simp

lemma crash_step_left:
  assumes inv: "crash_inv cap s" "uncancelled s" and t: "crash_step m s = Some t" "\<not> is_sigint m"
  shows "uncancelled t \<and> crash_left t < crash_left s"
proof (cases m)
  case (Cm ok)
  then show ?thesis
  proof (cases "cr_main s")
    case (M_join i)
    with inv t Cm have "w_at (workers s ! i) = W_done" "i < length (workers s)"
      by (auto simp: crash_inv_def split: if_splits)
    then have "w_cancel (workers s ! i)" "workers s ! i \<in> set (workers s)" using inv(1) by (auto simp: crash_inv_def worker_fits_def)
    with inv(2) show ?thesis by (auto simp: uncancelled_def)
  qed (use inv t Cm in \<open>auto simp: crash_inv_def uncancelled_def crash_left_def new_worker_def NUMBER_OF_THREADS_def
        split: if_splits\<close>)
next
  case (Cw i act)
  then have i: "i < length (workers s)" "running s" "common_thread_routine i act s (w_at (workers s ! i)) = Some t"
    using t by (auto split: if_splits)
  have nc: "\<not> w_cancel (workers s ! i)" using inv(2) i(1) by (simp add: uncancelled_def)
  have un: "uncancelled t"
    using inv(2) i nc by (cases "w_at (workers s ! i)")
      (auto simp: uncancelled_def split: if_splits dest!: set_update_subset_insert [THEN subsetD])
  have "0 < crash_main_left (cr_main s)" using i(2) inv(1) by (cases "cr_main s") (auto simp: running_def crash_inv_def)
  with i un nc put_left [OF i(1), of W_malloc] put_left [OF i(1), of "W_memset False"] put_left [OF i(1), of "W_memset True"]
    put_left [OF i(1), of W_sleep] put_left [OF i(1), of W_print]
  show ?thesis
    by (cases "w_at (workers s ! i)") (auto simp: crash_left_def split: if_splits)
qed (use t in simp)

lemma crash_moves:
  assumes inv: "crash_inv cap s" and run: "running s"
  shows "\<exists>m t. \<not> is_sigint m \<and> crash_step m s = Some t"
proof (cases "crash_step (Cm True) s")
  case None
  then obtain i where i: "cr_main s = M_join i" "w_at (workers s ! i) \<noteq> W_done"
    using run by (cases "cr_main s") (auto simp: running_def split: if_splits)
  then have "i < length (workers s)" using inv by (auto simp: crash_inv_def)
  with i run have "crash_step (Cw i False) s \<noteq> None" by (cases "w_at (workers s ! i)") auto
  then show ?thesis by (intro exI [of _ "Cw i False"]) auto
next
  case (Some t)
  then show ?thesis by (intro exI [of _ "Cm True"]) auto
qed

lemma crash_stopped: "\<not> running s \<Longrightarrow> crash_step m s = None"
  by (cases m; cases "cr_main s") (auto simp: running_def)

lemma killed_heap:
  assumes inv: "crash_inv cap u" and v: "crash_step m u = Some v" "\<not> is_sigint m" and k: "cr_main v = M_killed"
  shows "heap_left v = 0"
proof -
  from v have "running u" using crash_stopped [of u m] by auto
  with k v obtain i act where "m = Cw i act" "i < length (workers u)" "w_at (workers u ! i) = W_memset False" "v = u\<lparr>cr_main := M_killed\<rparr>"
    by (cases m; cases "cr_main u"; cases "w_at (workers u ! (case m of Cw i act \<Rightarrow> i))") (auto simp: running_def split: if_splits)
  with inv show "heap_left v = 0" by (auto simp: crash_inv_def worker_fits_def)
qed

text \<open>
  C38. Left alone the program runs out of memory and crashes: with \<open>cap\<close> kilobytes on the heap and no SIGINT
  no run has more than \<open>4 * cap + 17\<close> steps, some thread can move until the process is gone, and it goes
  either because a thread could not be created or by writing through the null pointer that \<^verbatim>\<open>malloc\<close>
  returned after it had handed out all \<open>cap\<close> blocks, none of which was ever freed.
\<close>

theorem leak_ends_in_crash:
  assumes "crash_run ms (crash_start cap) = Some s" and "\<not> list_ex is_sigint ms"
  shows "length ms \<le> 4 * cap + 17 \<and> leaked s + heap_left s = cap
    \<and> ((\<forall>m. \<not> is_sigint m \<longrightarrow> crash_step m s = None) \<longleftrightarrow> cr_main s \<in> {M_killed, M_returned (- 1)})
    \<and> (cr_main s = M_killed \<longrightarrow> leaked s = cap)"
proof -
  let ?I = "\<lambda>s. crash_inv cap s \<and> uncancelled s \<and> (cr_main s = M_killed \<longrightarrow> heap_left s = 0) \<and> cr_main s \<noteq> M_returned 0"
  have start: "?I (crash_start cap)" using crash_start_inv by (simp add: uncancelled_def crash_start_def)
  have step: "?I v \<and> crash_left v < crash_left u" if "m \<in> set ms" "?I u" "crash_step m u = Some v" for m u v
  proof -
    have ns: "\<not> is_sigint m" using that(1) assms(2) by (auto simp: list_ex_iff)
    from that(2) have inv: "crash_inv cap u" "uncancelled u" by simp_all
    note v = crash_step_left [OF inv that(3) ns] crash_step_inv [OF inv(1) that(3)]
    have "cr_main v = M_killed \<longrightarrow> heap_left v = 0" using killed_heap [OF inv(1) that(3) ns] by blast
    moreover have "cr_main v \<noteq> M_returned 0"
    proof
      assume "cr_main v = M_returned 0"
      with v have "workers v ! 0 \<in> set (workers v)" "w_cancel (workers v ! 0)" by (auto simp: crash_inv_def worker_fits_def)
      with v(1) show False by (auto simp: uncancelled_def)
    qed
    ultimately show ?thesis using v by simp
  qed
  have s: "?I s" using assms(1) start by (rule crash.run_inv) (use step in blast)
  have "length ms + crash_left s \<le> crash_left (crash_start cap)"
    using assms(1) start by (rule crash.run_bound [where I = ?I]) (use step in blast)
  moreover have "(\<forall>m. \<not> is_sigint m \<longrightarrow> crash_step m s = None) \<longleftrightarrow> \<not> running s"
    using crash_moves [of cap s] crash_stopped [of s] s by fastforce
  moreover have "\<not> running s \<longleftrightarrow> cr_main s \<in> {M_killed, M_returned (- 1)}"
    using s by (cases "cr_main s") (auto simp: running_def crash_inv_def)
  ultimately show ?thesis using s by (auto simp: crash_left_def crash_start_def crash_inv_def)
qed

theorem leak_ends_in_crash_witness:
  "\<exists>s. crash_run [Cm True, Cw 0 False, Cw 0 False, Cw 0 False, Cw 0 False, Cw 0 False, Cw 0 False, Cw 0 False] (crash_start 1) = Some s
     \<and> cr_main s = M_killed \<and> leaked s = 1"
proof -
  let ?ms = "[Cm True, Cw 0 False, Cw 0 False, Cw 0 False, Cw 0 False, Cw 0 False, Cw 0 False, Cw 0 False]"
  obtain s where s: "crash_run ?ms (crash_start 1) = Some s" "cr_main s = M_killed"
    by (simp add: crash_start_def new_worker_def put_worker_def running_def)
  with leak_ends_in_crash [OF s(1)] show ?thesis by auto
qed

section \<open>The signal ends the program\<close>

fun cancel_left :: "routine_at \<Rightarrow> nat" where
  "cancel_left W_print = 4"
| "cancel_left W_malloc = 3"
| "cancel_left (W_memset ok) = (if ok then 2 else 0)"
| "cancel_left W_sleep = 1"
| "cancel_left W_done = 0"

definition ending_left :: "crash_state \<Rightarrow> nat" where
  "ending_left s = crash_main_left (cr_main s) + sum_list (map (\<lambda>w. cancel_left (w_at w)) (workers s))"

definition ending :: "nat \<Rightarrow> crash_state \<Rightarrow> bool" where
  \<comment> \<open>all three threads have been cancelled\<close>
  "ending cap s \<longleftrightarrow> crash_inv cap s \<and> handler_on s \<and> (\<forall>w \<in> set (workers s). w_cancel w)
     \<and> (cr_main s = M_killed \<longrightarrow> heap_left s = 0) \<and> cr_main s \<noteq> M_returned (- 1)"

lemma put_cancel_left:
  "i < length (workers s) \<Longrightarrow>
   sum_list (map (\<lambda>w. cancel_left (w_at w)) ((workers s)[i := (workers s ! i)\<lparr>w_at := a\<rparr>])) + cancel_left (w_at (workers s ! i))
     = sum_list (map (\<lambda>w. cancel_left (w_at w)) (workers s)) + cancel_left a"
  using sum_list_update [of i "workers s" "\<lambda>w. cancel_left (w_at w)" "(workers s ! i)\<lparr>w_at := a\<rparr>"] by simp

lemma ending_step:
  assumes e: "ending cap s" and t: "crash_step m s = Some t" "\<not> is_sigint m"
  shows "ending cap t \<and> ending_left t < ending_left s"
proof -
  have inv: "crash_inv cap s" "handler_on s" "\<forall>w \<in> set (workers s). w_cancel w" using e by (simp_all add: ending_def)
  have killed: "cr_main t = M_killed \<longrightarrow> heap_left t = 0" using killed_heap [OF inv(1) t] by blast
  note it = crash_step_inv [OF inv(1) t(1)]
  show ?thesis
  proof (cases m)
    case (Cm ok)
    with inv t obtain i where i: "cr_main s = M_join i" "i < 3" "t = s\<lparr>cr_main := if i + 1 < 3 then M_join (i + 1) else M_returned 0\<rparr>"
      by (cases "cr_main s") (auto simp: crash_inv_def NUMBER_OF_THREADS_def split: if_splits)
    with inv it show ?thesis by (auto simp: ending_def ending_left_def)
  next
    case (Cw i act)
    then have i: "i < length (workers s)" "running s" "common_thread_routine i act s (w_at (workers s ! i)) = Some t"
      using t by (auto split: if_splits)
    have c: "w_cancel (workers s ! i)" using inv(3) i(1) by simp
    have "(\<forall>w \<in> set (workers t). w_cancel w) \<and> handler_on t \<and> cr_main t \<noteq> M_returned (- 1)"
      using inv(2,3) i c by (cases "w_at (workers s ! i)")
        (auto simp: running_def split: if_splits dest!: set_update_subset_insert [THEN subsetD])
    with it killed have "ending cap t" by (simp add: ending_def)
    moreover have "0 < crash_main_left (cr_main s)" using i(2) inv(1) by (cases "cr_main s") (auto simp: running_def crash_inv_def)
    with i c put_cancel_left [OF i(1), of W_malloc] put_cancel_left [OF i(1), of "W_memset False"]
      put_cancel_left [OF i(1), of "W_memset True"] put_cancel_left [OF i(1), of W_sleep] put_cancel_left [OF i(1), of W_done]
    have "ending_left t < ending_left s"
      by (cases "w_at (workers s ! i)") (auto simp: ending_left_def split: if_splits)
    ultimately show ?thesis by simp
  qed (use t in simp)
qed

lemma handler_ending:
  assumes inv: "crash_inv cap s" "handler_on s" "running s"
  shows "ending cap (sig_sev_signal_handler f s) \<and> ending_left (sig_sev_signal_handler f s) \<le> 16"
proof -
  let ?t = "sig_sev_signal_handler f s"
  obtain i where i: "cr_main s = M_join i" "i < 3" "length (workers s) = 3" "\<forall>j<i. w_at (workers s ! j) = W_done"
    using inv by (cases "cr_main s") (auto simp: crash_inv_def running_def)
  have "w_cancel (workers ?t ! j)" if "j < 3" for j
  proof (cases "j < i")
    case True
    with i inv(1) that have "w_cancel (workers s ! j)" by (auto simp: crash_inv_def worker_fits_def)
    with handler_worker [of j s f] i(3) that show ?thesis by simp
  next
    case False
    with handler_worker [of j s f] i(1,3) that show ?thesis by (simp add: joined_def)
  qed
  then have "\<forall>w\<in>set (workers ?t). w_cancel w" unfolding all_set_conv_all_nth using i(3) by simp
  then have "ending cap ?t" using handler_inv [OF inv(1,2), of f] inv(2) i(1) by (simp add: ending_def)
  moreover have "cancel_left a \<le> 4" for a by (cases a) auto
  then have "sum_list (map (\<lambda>w. cancel_left (w_at w)) (workers ?t)) \<le> sum_list (map (\<lambda>_. 4) (workers ?t))"
    by (intro sum_list_mono)
  then have "ending_left ?t \<le> 16" using i by (simp add: ending_left_def sum_list_triv)
  ultimately show ?thesis ..
qed

lemma not_running_ending: "ending cap s \<Longrightarrow> \<not> running s \<longleftrightarrow> cr_main s \<in> {M_returned 0, M_killed}"
  by (cases "cr_main s") (auto simp: ending_def running_def crash_inv_def)

text \<open>
  C39. SIGINT ends the program once its handler is installed: the handler raises \<^verbatim>\<open>var\<close> by three and cancels
  all threads, whatever they are doing and however many have been joined; then at most 16 more steps
  run, something can move until the process is gone, and \<^verbatim>\<open>main\<close> returns 0, unless \<^verbatim>\<open>malloc\<close> has handed
  out all its blocks and a thread writes through the null pointer first.
\<close>

theorem interrupt_ends_program:
  assumes "crash_run ms (crash_start cap) = Some s" "handler_on s" "crash_step (Sigint f) s = Some t"
    and "crash_run ns t = Some u" "\<not> list_ex is_sigint ns"
  shows "crash_var t = crash_var s + 3 \<and> length ns \<le> 16
    \<and> ((\<forall>m. \<not> is_sigint m \<longrightarrow> crash_step m u = None) \<longleftrightarrow> cr_main u \<in> {M_returned 0, M_killed})
    \<and> (cr_main u = M_killed \<longrightarrow> leaked u = cap)"
proof -
  have inv: "crash_inv cap s" using assms(1) crash_start_inv by (rule crash.run_inv) (rule crash_step_inv)
  have t: "running s" "t = sig_sev_signal_handler f s" using assms(2,3) by (auto split: if_splits)
  from handler_ending [OF inv assms(2) t(1)] have e: "ending cap t" "ending_left t \<le> 16" by (simp_all add: t(2))
  have step: "ending cap w \<and> ending_left w < ending_left v"
    if "m \<in> set ns" "ending cap v" "crash_step m v = Some w" for m v w
    using that assms(5) ending_step [OF that(2,3)] by (auto simp: list_ex_iff)
  have u: "ending cap u" using assms(4) e(1) by (rule crash.run_inv) (use step in blast)
  have "length ns + ending_left u \<le> ending_left t" using assms(4) e(1) by (rule crash.run_bound) (use step in blast)
  moreover have "(\<forall>m. \<not> is_sigint m \<longrightarrow> crash_step m u = None) \<longleftrightarrow> \<not> running u"
    using crash_moves [of cap u] crash_stopped [of u] u by (fastforce simp: ending_def)
  moreover have "cr_main u = M_killed \<longrightarrow> leaked u = cap" using u by (auto simp: ending_def crash_inv_def)
  ultimately show ?thesis using not_running_ending [OF u] e(2) t(2) by simp
qed

theorem interrupt_ends_program_witness:
  "\<exists>s t u. crash_run [Cm True, Cm True, Cm True, Cm True, Cm True, Cm True, Cm True] (crash_start 1) = Some s
     \<and> crash_step (Sigint (\<lambda>_. True)) s = Some t \<and> crash_var t = 4
     \<and> crash_run [Cw 0 True, Cw 1 True, Cm True, Cw 2 True, Cm True, Cm True] t = Some u
     \<and> cr_main u = M_returned 0 \<and> crash_step (Cm True) u = None"
proof -
  let ?ms = "[Cm True, Cm True, Cm True, Cm True, Cm True, Cm True, Cm True]"
  let ?ns = "[Cw 0 True, Cw 1 True, Cm True, Cw 2 True, Cm True, Cm True]"
  obtain s where s: "crash_run ?ms (crash_start 1) = Some s" "handler_on s" "crash_var s = 1" "running s"
    "cr_main s = M_join 0" "workers s = [new_worker, new_worker, new_worker]"
    by (simp add: crash_start_def NUMBER_OF_THREADS_def running_def)
  then obtain t where t: "crash_step (Sigint (\<lambda>_. True)) s = Some t" "cr_main t = M_join 0"
    "workers t = [new_worker\<lparr>w_cancel := True\<rparr>, new_worker\<lparr>w_cancel := True\<rparr>, new_worker\<lparr>w_cancel := True\<rparr>]"
    by (simp add: sig_sev_signal_handler_def cancel_one_def NUMBER_OF_THREADS_def upt_rec joined_def)
  then obtain u where u: "crash_run ?ns t = Some u" "cr_main u = M_returned 0"
    by (simp add: new_worker_def put_worker_def running_def NUMBER_OF_THREADS_def)
  from interrupt_ends_program [OF s(1,2) t(1) u(1)] s t u show ?thesis by auto
qed

end
