(* ===== verification/Reboot_Program.thy ===== *)
theory Reboot_Program
  imports Machine
begin

text \<open>
  \<^verbatim>\<open>process_rebooting/process_reboot.c\<close>: a process that replaces itself.  Two threads print ten lines each;
  a third one waits four seconds, cancels them and executes the program again.  The threads are taken to
  be created (the program does not look at the results); how long \<^verbatim>\<open>sleep\<close> takes is left open, so the
  reboot may come at any time.  A detached thread that has ended may no longer be cancelled; the result
  of \<^verbatim>\<open>pthread_cancel\<close> is then an argument.
\<close>

datatype rb_main_at = B_create nat | B_print | B_loop

datatype demo_at = D_detach | D_print nat | D_sleep nat | D_gone

datatype rebooter_at = R_not_created | R_detach | R_sleep | R_cancel nat | R_exec

datatype rb_line = My_pid | Ids | Detach_failed nat | Active nat nat | Cancel_failed | Excel_failed

record rb_state =
  rb_main :: rb_main_at
  demos :: "(demo_at \<times> bool) list"       \<comment> \<open>where the thread is; whether it has been cancelled\<close>
  rebooter :: rebooter_at
  rb_exit :: "int option"
  rb_out :: "rb_line list"                 \<comment> \<open>what the current image has printed\<close>
  rb_past :: "rb_line list list"           \<comment> \<open>what its predecessors had printed\<close>

datatype rb_mover = Rm | Rd nat bool | Rb bool
  \<comment> \<open>whose step; the flags are the results of the system call it makes\<close>

definition rb_image :: "rb_line list list \<Rightarrow> rb_state" where
  \<comment> \<open>a fresh process image\<close>
  "rb_image past =
     \<lparr>rb_main = B_create 0, demos = [], rebooter = R_not_created, rb_exit = None, rb_out = [My_pid], rb_past = past\<rparr>"

definition rb_say :: "rb_line list \<Rightarrow> rb_state \<Rightarrow> rb_state" where
  "rb_say ls s = s\<lparr>rb_out := rb_out s @ ls\<rparr>"

definition put_demo :: "nat \<Rightarrow> demo_at \<Rightarrow> rb_state \<Rightarrow> rb_state" where
  "put_demo i d s = s\<lparr>demos := (demos s)[i := (d, snd (demos s ! i))]\<rparr>"

fun reboot_main :: "rb_state \<Rightarrow> rb_main_at \<Rightarrow> rb_state" where
  "reboot_main s (B_create i) =
     (if i < 2 then s\<lparr>demos := demos s @ [(D_detach, False)], rb_main := B_create (i + 1)\<rparr>
      else s\<lparr>rebooter := R_detach, rb_main := B_print\<rparr>)"
| "reboot_main s B_print = rb_say [Ids] (s\<lparr>rb_main := B_loop\<rparr>)"
| "reboot_main s B_loop = s"

fun thread_routine :: "nat \<Rightarrow> bool \<Rightarrow> rb_state \<Rightarrow> demo_at \<times> bool \<Rightarrow> rb_state option" where
  "thread_routine i ok s (D_detach, c) =
     Some (put_demo i (D_print 0) (if ok then s else rb_say [Detach_failed i] s))"
| "thread_routine i ok s (D_print n, c) =
     Some (if n < 10 then put_demo i (D_sleep n) (rb_say [Active i n] s) else put_demo i D_gone s)"
| "thread_routine i ok s (D_sleep n, c) = Some (put_demo i (if c then D_gone else D_print (n + 1)) s)"
| "thread_routine i ok s (D_gone, c) = None"

definition cancel_demo :: "nat \<Rightarrow> bool \<Rightarrow> rb_state \<Rightarrow> rb_state" where
  "cancel_demo i ok s =
     (if fst (demos s ! i) = D_gone then (if ok then s else rb_say [Cancel_failed] s)
      else s\<lparr>demos := (demos s)[i := (fst (demos s ! i), True)]\<rparr>)"

fun reboot_thread :: "bool \<Rightarrow> rb_state \<Rightarrow> rebooter_at \<Rightarrow> rb_state option" where
  "reboot_thread ok s R_not_created = None"
| "reboot_thread ok s R_detach = Some ((if ok then s else rb_say [Detach_failed 2] s)\<lparr>rebooter := R_sleep\<rparr>)"
| "reboot_thread ok s R_sleep = Some (s\<lparr>rebooter := R_cancel 0\<rparr>)"
| "reboot_thread ok s (R_cancel i) =
     Some ((cancel_demo i ok s)\<lparr>rebooter := if i = 0 then R_cancel 1 else R_exec\<rparr>)"
| "reboot_thread ok s R_exec =
     Some (if ok then rb_image (rb_past s @ [rb_out s]) else rb_say [Excel_failed] (s\<lparr>rb_exit := Some 0\<rparr>))"

definition rb_step :: "rb_mover \<Rightarrow> rb_state \<Rightarrow> rb_state option" where
  "rb_step m s =
     (if rb_exit s \<noteq> None then None
      else case m of
        Rm \<Rightarrow> Some (reboot_main s (rb_main s))
      | Rd i ok \<Rightarrow> if i < length (demos s) then thread_routine i ok s (demos s ! i) else None
      | Rb ok \<Rightarrow> reboot_thread ok s (rebooter s))"

fun rb_run :: "rb_mover list \<Rightarrow> rb_state \<Rightarrow> rb_state option" where
  "rb_run [] s = Some s"
| "rb_run (m # ms) s = (case rb_step m s of None \<Rightarrow> None | Some t \<Rightarrow> rb_run ms t)"

interpretation rb: machine rb_step rb_run
  by unfold_locales simp_all

section \<open>What one image prints\<close>

definition lines_of :: "nat \<Rightarrow> rb_line list \<Rightarrow> nat list" where
  "lines_of i ls = concat (map (\<lambda>l. case l of Active j n \<Rightarrow> if i = j then [n] else [] | _ \<Rightarrow> []) ls)"

lemma lines_of_simps [simp]:
  "lines_of i [] = []" "lines_of i (xs @ ys) = lines_of i xs @ lines_of i ys"
  "lines_of i [Active j n] = (if i = j then [n] else [])" "lines_of i [My_pid] = []" "lines_of i [Ids] = []"
  "lines_of i [Detach_failed j] = []" "lines_of i [Cancel_failed] = []" "lines_of i [Excel_failed] = []"
  by (simp_all add: lines_of_def)

fun printed_by :: "demo_at \<Rightarrow> nat list \<Rightarrow> bool" where
  "printed_by D_detach ns \<longleftrightarrow> ns = []"
| "printed_by (D_print n) ns \<longleftrightarrow> n \<le> 10 \<and> ns = [0..<n]"
| "printed_by (D_sleep n) ns \<longleftrightarrow> n < 10 \<and> ns = [0..<Suc n]"
| "printed_by D_gone ns \<longleftrightarrow> (\<exists>k\<le>10. ns = [0..<k])"

definition counts_up :: "rb_line list \<Rightarrow> bool" where
  "counts_up ls \<longleftrightarrow> (\<forall>i. \<exists>k\<le>10. lines_of i ls = [0..<k])"

fun rb_main_ok :: "rb_main_at \<Rightarrow> nat \<Rightarrow> rebooter_at \<Rightarrow> bool" where
  "rb_main_ok (B_create i) n r \<longleftrightarrow> i \<le> 2 \<and> n = i \<and> r = R_not_created"
| "rb_main_ok _ n r \<longleftrightarrow> n = 2 \<and> r \<noteq> R_not_created"

definition demo_of :: "nat \<Rightarrow> (demo_at \<times> bool) list \<Rightarrow> demo_at" where
  "demo_of i ds = (if i < length ds then fst (ds ! i) else D_detach)"

lemma demo_of_append [simp]: "demo_of i (ds @ [(D_detach, c)]) = demo_of i ds"
  by (auto simp: demo_of_def nth_append less_Suc_eq)

lemma demo_of_update: "k < length ds \<Longrightarrow> demo_of i (ds[k := (d, c)]) = (if i = k then d else demo_of i ds)"
  by (auto simp: demo_of_def)

lemma demo_of_cancel: "demo_of i (ds[k := (fst (ds ! k), c)]) = demo_of i ds"
  by (cases "i = k") (auto simp: demo_of_def)

definition rb_inv :: "rb_state \<Rightarrow> bool" where
  "rb_inv s \<longleftrightarrow> rb_main_ok (rb_main s) (length (demos s)) (rebooter s)
     \<and> (\<forall>i. printed_by (demo_of i (demos s)) (lines_of i (rb_out s)))
     \<and> (\<forall>k. rebooter s = R_cancel k \<longrightarrow> k < 2) \<and> (\<forall>ls \<in> set (rb_past s). counts_up ls)
     \<and> (rb_exit s \<noteq> None \<longrightarrow> rb_exit s = Some 0 \<and> last (rb_out s) = Excel_failed)"

lemma printed_counts: "printed_by d ns \<Longrightarrow> \<exists>k\<le>10. ns = [0..<k]"
proof -
  assume p: "printed_by d ns"
  show ?thesis
  proof (cases d)
    case (D_sleep n)
    with p show ?thesis by (intro exI [of _ "Suc n"]) auto
  qed (use p in auto)
qed

lemma rb_inv_counts: "rb_inv s \<Longrightarrow> counts_up (rb_out s)"
  unfolding counts_up_def rb_inv_def using printed_counts by blast

lemma rb_image_inv: "\<forall>ls \<in> set past. counts_up ls \<Longrightarrow> rb_inv (rb_image past)"
  by (simp add: rb_inv_def rb_image_def demo_of_def)

lemma rb_step_inv:
  assumes inv: "rb_inv s" and t: "rb_step m s = Some t"
  shows "rb_inv t"
proof (cases m)
  case Rm
  with inv t show ?thesis
    by (cases "rb_main s") (auto simp: rb_inv_def rb_step_def rb_say_def split: if_splits)
next
  case (Rd i ok)
  then have i: "i < length (demos s)" "thread_routine i ok s (demos s ! i) = Some t" "rb_exit s = None"
    using t by (auto simp: rb_step_def split: if_splits)
  obtain d c where d: "demos s ! i = (d, c)" by fastforce
  have p: "printed_by d (lines_of i (rb_out s))" using inv i(1) d by (auto simp: rb_inv_def demo_of_def dest: spec [of _ i])
  have put: "rb_inv u" if "rb_main u = rb_main s" "rebooter u = rebooter s" "rb_past u = rb_past s" "rb_exit u = None"
    "demos u = (demos s)[i := (d', c)]" "printed_by d' (lines_of i (rb_out u))"
    "\<And>j. j \<noteq> i \<Longrightarrow> lines_of j (rb_out u) = lines_of j (rb_out s)" for u d'
    using inv that i(1) by (auto simp: rb_inv_def demo_of_update)
  show ?thesis
  proof (cases d)
    case D_detach
    with i d p show ?thesis by (intro put [of _ "D_print 0"]) (auto simp: rb_say_def put_demo_def split: if_splits)
  next
    case (D_print n)
    with i d p show ?thesis
      by (intro put [of _ "if n < 10 then D_sleep n else D_gone"]) (auto simp: rb_say_def put_demo_def split: if_splits)
  next
    case (D_sleep n)
    with i d p show ?thesis
      by (intro put [of _ "if c then D_gone else D_print (n + 1)"])
        (auto simp: rb_say_def put_demo_def split: if_splits intro: exI [of _ "Suc n"])
  qed (use i d in simp)
next
  case (Rb ok)
  then have r: "reboot_thread ok s (rebooter s) = Some t" "rb_exit s = None" using t by (auto simp: rb_step_def split: if_splits)
  show ?thesis
  proof (cases "rebooter s = R_exec \<and> ok")
    case True
    with r have "t = rb_image (rb_past s @ [rb_out s])" by simp
    moreover have "\<forall>ls \<in> set (rb_past s @ [rb_out s]). counts_up ls" using inv rb_inv_counts [OF inv] by (auto simp: rb_inv_def)
    ultimately show ?thesis using rb_image_inv by simp
  next
    case False
    with inv r show ?thesis
      by (cases "rebooter s"; cases "rb_main s") (auto simp: rb_inv_def rb_say_def cancel_demo_def demo_of_cancel split: if_splits)
  qed
qed

section \<open>The next image can always be reached\<close>

fun reboot_left :: "rb_main_at \<Rightarrow> rebooter_at \<Rightarrow> nat" where
  "reboot_left (B_create i) R_not_created = 8 - i"
| "reboot_left _ R_detach = 5"
| "reboot_left _ R_sleep = 4"
| "reboot_left _ (R_cancel i) = (if i = 0 then 3 else 2)"
| "reboot_left _ R_exec = 1"
| "reboot_left _ R_not_created = 0"

lemma reboot_progress:
  assumes inv: "rb_inv s" and live: "rb_exit s = None"
  shows "\<exists>m t. rb_step m s = Some t \<and> rb_exit t = None
    \<and> (t = rb_image (rb_past s @ [rb_out s])
       \<or> rb_past t = rb_past s \<and> reboot_left (rb_main t) (rebooter t) < reboot_left (rb_main s) (rebooter s))"
proof (cases "rebooter s = R_not_created")
  case True
  with inv obtain i where "rb_main s = B_create i" "i \<le> 2" by (cases "rb_main s") (auto simp: rb_inv_def)
  with True live show ?thesis by (intro exI [of _ Rm]) (auto simp: rb_step_def)
next
  case False
  have "\<exists>t. reboot_thread True s (rebooter s) = Some t \<and> rb_exit t = None
    \<and> (t = rb_image (rb_past s @ [rb_out s])
       \<or> rb_past t = rb_past s \<and> reboot_left (rb_main t) (rebooter t) < reboot_left (rb_main s) (rebooter s))"
    using inv live False
    by (cases "rebooter s"; cases "rb_main s") (auto simp: rb_inv_def rb_image_def cancel_demo_def rb_say_def)
  with live show ?thesis by (intro exI [of _ "Rb True"]) (simp add: rb_step_def)
qed

lemma reboot_reached:
  "rb_inv s \<Longrightarrow> rb_exit s = None \<Longrightarrow> \<exists>ms ls. rb_run ms s = Some (rb_image (rb_past s @ [ls]))"
proof (induction "reboot_left (rb_main s) (rebooter s)" arbitrary: s rule: less_induct)
  case less
  from reboot_progress [OF less.prems] obtain m t where t: "rb_step m s = Some t" "rb_exit t = None"
    "t = rb_image (rb_past s @ [rb_out s])
       \<or> rb_past t = rb_past s \<and> reboot_left (rb_main t) (rebooter t) < reboot_left (rb_main s) (rebooter s)" by blast
  from t(3) show ?case
  proof
    assume "t = rb_image (rb_past s @ [rb_out s])"
    with t(1) show ?thesis by (intro exI [of _ "[m]"]) auto
  next
    assume u: "rb_past t = rb_past s \<and> reboot_left (rb_main t) (rebooter t) < reboot_left (rb_main s) (rebooter s)"
    with less.hyps [of t] rb_step_inv [OF less.prems(1) t(1)] t(2) obtain ms ls where
      "rb_run ms t = Some (rb_image (rb_past s @ [ls]))" by auto
    with t(1) show ?thesis by (intro exI [of _ "m # ms"]) auto
  qed
qed

text \<open>
  The rebooting process can always reboot: in every run, however its threads are scheduled, each
  image of the program has printed of each thread a beginning of the lines 0 to 9, in order; the process
  ends only with status 0 after \<^verbatim>\<open>execl\<close> failed; and as long as it lives, some continuation leads to a
  fresh image, with everything back at its initial values.
\<close>

lemma reboot_always_possible:
  assumes "rb_run ms (rb_image []) = Some s"
  shows "(\<forall>ls \<in> set (rb_past s @ [rb_out s]). counts_up ls)
    \<and> (rb_exit s \<noteq> None \<longrightarrow> rb_exit s = Some 0 \<and> last (rb_out s) = Excel_failed)
    \<and> (rb_exit s = None \<longrightarrow> (\<exists>ns ls. rb_run ns s = Some (rb_image (rb_past s @ [ls]))))"
proof -
  have "rb_inv (rb_image [])" by (rule rb_image_inv) simp
  with assms have inv: "rb_inv s" by (rule rb.run_inv) (rule rb_step_inv)
  with rb_inv_counts [OF inv] reboot_reached [OF inv] show ?thesis by (auto simp: rb_inv_def)
qed

end
