(* ===== verification/Small_Programs.thy ===== *)
theory Small_Programs
  imports Machine
begin

text \<open>
  Programs of a few lines: the threads that never end of \<^verbatim>\<open>other/simple_thread.c\<close> and
  \<^verbatim>\<open>linux_task/thread_demo_stack/main.c\<close>, the handler of \<^verbatim>\<open>linux_signal_reg_sigsev_handling/signal_reg.c\<close>,
  the loader of a shared library \<^verbatim>\<open>dynamic_loading/me_main_loader.c\<close> with its library \<^verbatim>\<open>me_main.c\<close>, the
  clock \<^verbatim>\<open>software_timer/sample_time.c\<close> and the module \<^verbatim>\<open>driver/hello_word/hello.c\<close>.  The dynamic linker
  and \<^verbatim>\<open>localtime\<close> are parameters.
\<close>

section \<open>Threads that never end\<close>

datatype spin_at = Sp_unset | Sp_begin | Sp_spin | Sp_count nat | Sp_print | Sp_exited
  \<comment> \<open>\<^verbatim>\<open>Sp_unset\<close>: never created; \<^verbatim>\<open>Sp_count\<close>: in the counting loop, with the rounds left\<close>

datatype spin_end = Sp_returned | Sp_failure | Sp_joined_unset

record spin_thread =
  sp_at :: spin_at
  sp_code :: "spin_at \<Rightarrow> spin_at"       \<comment> \<open>what comes next\<close>
  sp_arg :: "string option"
  sp_step :: int                         \<comment> \<open>what one round of the counting loop adds\<close>

record spin_state =
  sp_threads :: "spin_thread list"
  sp_todo :: "spin_thread list"          \<comment> \<open>to be created\<close>
  sp_checked :: bool                     \<comment> \<open>\<^verbatim>\<open>main\<close> looks at the result of \<^verbatim>\<open>pthread_create\<close>\<close>
  sp_joined :: nat
  sp_exit :: "spin_end option"
  sp_globals :: int                      \<comment> \<open>\<^verbatim>\<open>global_var1\<close>, which the other two equal\<close>
  sp_out :: "string list"                \<comment> \<open>the arguments printed by the threads\<close>

datatype spin_mover = Sm bool | St nat

definition while_1 :: bool where
  \<comment> \<open>the condition of \<^verbatim>\<open>while(1)\<close>\<close>
  "while_1 \<longleftrightarrow> (1 :: int) \<noteq> 0"

fun stack_next :: "spin_at \<Rightarrow> spin_at" where
  \<comment> \<open>\<^verbatim>\<open>thread_increment\<close> and \<^verbatim>\<open>thread_decrement\<close> of \<^verbatim>\<open>thread_demo_stack\<close>\<close>
  "stack_next Sp_begin = Sp_spin"
| "stack_next Sp_spin = (if while_1 then Sp_spin else Sp_count 65500)"
| "stack_next (Sp_count n) = (if n = 0 then Sp_print else Sp_count (n - 1))"
| "stack_next Sp_print = Sp_exited"
| "stack_next _ = Sp_exited"

fun spin_next :: "spin_at \<Rightarrow> spin_at" where
  \<comment> \<open>\<^verbatim>\<open>f1\<close> and \<^verbatim>\<open>f2\<close> of \<^verbatim>\<open>simple_thread.c\<close>\<close>
  "spin_next Sp_begin = Sp_spin"
| "spin_next Sp_spin = (if while_1 then Sp_spin else Sp_exited)"
| "spin_next _ = Sp_exited"

definition spin_pass :: "nat \<Rightarrow> spin_state \<Rightarrow> spin_state option" where
  "spin_pass i s =
     (let t = sp_threads s ! i
      in if sp_at t \<in> {Sp_unset, Sp_exited} then None
         else Some (s\<lparr>sp_threads := (sp_threads s)[i := t\<lparr>sp_at := sp_code t (sp_at t)\<rparr>],
                      sp_out := sp_out s @ (case (sp_at t, sp_arg t) of (Sp_begin, Some w) \<Rightarrow> [w] | _ \<Rightarrow> []),
                      sp_globals := (case sp_at t of Sp_count (Suc n) \<Rightarrow> sp_globals s + sp_step t | _ \<Rightarrow> sp_globals s)\<rparr>))"

definition spin_create :: "bool \<Rightarrow> spin_thread \<Rightarrow> spin_state \<Rightarrow> spin_state" where
  \<comment> \<open>the flag: \<^verbatim>\<open>pthread_create\<close> succeeds\<close>
  "spin_create ok t s =
     (if \<not> ok \<and> sp_checked s then s\<lparr>sp_exit := Some Sp_failure\<rparr>
      else s\<lparr>sp_threads := sp_threads s @ [if ok then t else t\<lparr>sp_at := Sp_unset\<rparr>], sp_todo := tl (sp_todo s)\<rparr>)"

definition spin_join :: "spin_state \<Rightarrow> spin_state option" where
  "spin_join s =
     (if sp_joined s = length (sp_threads s) then Some (s\<lparr>sp_exit := Some Sp_returned\<rparr>)
      else case sp_at (sp_threads s ! sp_joined s) of
        Sp_unset \<Rightarrow> Some (s\<lparr>sp_exit := Some Sp_joined_unset\<rparr>)
      | Sp_exited \<Rightarrow> Some (s\<lparr>sp_joined := sp_joined s + 1\<rparr>)
      | _ \<Rightarrow> None)"

definition spin_step :: "spin_mover \<Rightarrow> spin_state \<Rightarrow> spin_state option" where
  \<comment> \<open>\<^verbatim>\<open>main\<close> creates its threads and joins them in turn\<close>
  "spin_step m s =
     (if sp_exit s \<noteq> None then None
      else case m of
        Sm ok \<Rightarrow> (case sp_todo s of t # _ \<Rightarrow> Some (spin_create ok t s) | [] \<Rightarrow> spin_join s)
      | St i \<Rightarrow> if i < length (sp_threads s) then spin_pass i s else None)"

fun spin_run :: "spin_mover list \<Rightarrow> spin_state \<Rightarrow> spin_state option" where
  "spin_run [] s = Some s"
| "spin_run (m # ms) s = (case spin_step m s of None \<Rightarrow> None | Some t \<Rightarrow> spin_run ms t)"

interpretation spin: machine spin_step spin_run
  by unfold_locales simp_all

definition spin_start :: "bool \<Rightarrow> spin_thread list \<Rightarrow> spin_state" where
  "spin_start c ts =
     \<lparr>sp_threads = [], sp_todo = ts, sp_checked = c, sp_joined = 0, sp_exit = None, sp_globals = 0, sp_out = []\<rparr>"

definition simple_thread_main :: spin_state where
  "simple_thread_main = spin_start False
     (map (\<lambda>w. \<lparr>sp_at = Sp_begin, sp_code = spin_next, sp_arg = Some w, sp_step = 0\<rparr>) [''Vinit'', ''Thread1''])"

definition stack_main :: spin_state where
  "stack_main = spin_start True
     (map (\<lambda>i. \<lparr>sp_at = Sp_begin, sp_code = stack_next, sp_arg = None, sp_step = if i > 1 then - 1 else 1\<rparr>) [0..<4])"

definition spinning :: "spin_thread \<Rightarrow> bool" where
  "spinning t \<longleftrightarrow> sp_at t \<in> {Sp_unset, Sp_begin, Sp_spin} \<and> sp_code t \<in> {stack_next, spin_next}"

definition spin_inv :: "spin_state \<Rightarrow> bool" where
  "spin_inv s \<longleftrightarrow> list_all spinning (sp_threads s) \<and> list_all spinning (sp_todo s) \<and> sp_joined s = 0
     \<and> sp_threads s @ sp_todo s \<noteq> [] \<and> sp_globals s = 0 \<and> sp_exit s \<noteq> Some Sp_returned"

lemma spin_create_inv:
  "spin_inv s \<Longrightarrow> sp_todo s = t # ts \<Longrightarrow> spin_inv (spin_create ok t s)"
  by (auto simp: spin_inv_def spin_create_def spinning_def)

lemma spin_join_inv:
  assumes inv: "spin_inv s" and todo: "sp_todo s = []" and t: "spin_join s = Some t"
  shows "spin_inv t"
proof -
  have "sp_threads s \<noteq> []" "sp_at (sp_threads s ! 0) \<in> {Sp_unset, Sp_begin, Sp_spin}"
    using inv todo by (auto simp: spin_inv_def spinning_def list_all_length)
  with inv t show ?thesis by (auto simp: spin_join_def spin_inv_def)
qed

lemma spin_pass_inv:
  assumes inv: "spin_inv s" and i: "i < length (sp_threads s)" and t: "spin_pass i s = Some t"
  shows "spin_inv t"
proof -
  let ?t = "sp_threads s ! i"
  have sp: "spinning ?t" using inv i by (simp add: spin_inv_def list_all_length)
  moreover have "sp_at ?t \<noteq> Sp_unset" using t by (auto simp: spin_pass_def)
  ultimately have u: "spinning (?t\<lparr>sp_at := sp_code ?t (sp_at ?t)\<rparr>)" and g: "\<forall>n. sp_at ?t \<noteq> Sp_count n"
    by (auto simp: spinning_def while_1_def)
  have "list_all spinning ((sp_threads s)[i := ?t\<lparr>sp_at := sp_code ?t (sp_at ?t)\<rparr>])"
    using inv u i by (simp add: spin_inv_def list_all_length nth_list_update)
  with inv i t g show ?thesis
    by (auto simp: spin_inv_def spin_pass_def Let_def split: if_splits spin_at.splits)
qed

lemma spin_inv_step: "spin_inv s \<Longrightarrow> spin_step m s = Some t \<Longrightarrow> spin_inv t"
  by (auto simp: spin_step_def intro: spin_create_inv spin_join_inv spin_pass_inv
      split: if_splits spin_mover.splits list.splits)

text \<open>
  The threads of both programs spin for ever: in every run \<^verbatim>\<open>main\<close> is never past its first
  \<^verbatim>\<open>pthread_join\<close>, the loops behind \<^verbatim>\<open>while(1)\<close> are never entered, so the counters stay 0, and the process
  can only end because a thread was not created.
\<close>

lemma spinning_threads_never_joined:
  assumes "spin_run ms s0 = Some s" "s0 \<in> {simple_thread_main, stack_main}"
  shows "sp_joined s = 0 \<and> sp_globals s = 0 \<and> sp_exit s \<noteq> Some Sp_returned
    \<and> (sp_exit s = None \<longrightarrow> (\<exists>m t. spin_step m s = Some t))"
proof -
  have "spin_inv s0" using assms(2)
    by (auto simp: simple_thread_main_def stack_main_def spin_start_def spin_inv_def spinning_def list_all_iff)
  with assms(1) have inv: "spin_inv s" by (rule spin.run_inv) (rule spin_inv_step)
  have "\<exists>m t. spin_step m s = Some t" if live: "sp_exit s = None"
  proof (cases "sp_todo s")
    case Nil
    with inv have "0 < length (sp_threads s)" "sp_joined s = 0" "sp_at (sp_threads s ! 0) \<in> {Sp_unset, Sp_begin, Sp_spin}"
      by (auto simp: spin_inv_def list_all_length spinning_def)
    with live Nil show ?thesis
      by (intro exI [of _ "if sp_at (sp_threads s ! 0) = Sp_unset then Sm True else St 0"])
        (auto simp: spin_step_def spin_pass_def spin_join_def Let_def)
  next
    case (Cons t ts)
    with live show ?thesis by (intro exI [of _ "Sm True"]) (simp add: spin_step_def)
  qed
  with inv show ?thesis by (simp add: spin_inv_def)
qed

section \<open>A handler for CTRL+C\<close>

datatype reg_line = Reg_pid | Hello_world | Ctrl_c

record reg_state =
  reg_main :: nat              \<comment> \<open>0: before \<^verbatim>\<open>printf\<close>, 1: before \<^verbatim>\<open>signal\<close>, 2: in the loop\<close>
  reg_killed :: bool
  reg_out :: "reg_line list"

datatype reg_mover = Reg_main | Reg_sigint

definition reg_start :: reg_state where
  "reg_start = \<lparr>reg_main = 0, reg_killed = False, reg_out = []\<rparr>"

definition reg_ctrl_c_handler :: "reg_state \<Rightarrow> reg_state" where
  "reg_ctrl_c_handler s = s\<lparr>reg_out := reg_out s @ [Ctrl_c]\<rparr>"

definition reg_step :: "reg_mover \<Rightarrow> reg_state \<Rightarrow> reg_state option" where
  "reg_step m s =
     (if reg_killed s then None
      else Some (case m of
        Reg_main \<Rightarrow>
          if reg_main s = 0 then s\<lparr>reg_main := 1, reg_out := reg_out s @ [Reg_pid]\<rparr>
          else if reg_main s = 1 then s\<lparr>reg_main := 2\<rparr>
          else s\<lparr>reg_out := reg_out s @ [Hello_world]\<rparr>
      | Reg_sigint \<Rightarrow> if reg_main s < 2 then s\<lparr>reg_killed := True\<rparr> else reg_ctrl_c_handler s))"

fun reg_run :: "reg_mover list \<Rightarrow> reg_state \<Rightarrow> reg_state option" where
  "reg_run [] s = Some s"
| "reg_run (m # ms) s = (case reg_step m s of None \<Rightarrow> None | Some t \<Rightarrow> reg_run ms t)"

interpretation reg: machine reg_step reg_run
  by unfold_locales simp_all

lemma reg_loop: "reg_main s = 2 \<Longrightarrow> \<not> reg_killed s \<Longrightarrow>
   reg_run ms s = Some (s\<lparr>reg_out := reg_out s @ map (\<lambda>m. case m of Reg_main \<Rightarrow> Hello_world | Reg_sigint \<Rightarrow> Ctrl_c) ms\<rparr>)"
  by (induction ms arbitrary: s) (auto simp: reg_step_def reg_ctrl_c_handler_def split: reg_mover.splits)

text \<open>
  CTRL+C ends the program only before the handler is registered; afterwards every signal prints its line,
  in the order of the events, and the loop goes on.
\<close>

lemma ctrl_c_survived:
  "reg_run (Reg_main # Reg_main # ms) reg_start
     = Some \<lparr>reg_main = 2, reg_killed = False,
             reg_out = Reg_pid # map (\<lambda>m. case m of Reg_main \<Rightarrow> Hello_world | Reg_sigint \<Rightarrow> Ctrl_c) ms\<rparr>
   \<and> (\<forall>s. reg_run [Reg_sigint] reg_start = Some s \<or> reg_run [Reg_main, Reg_sigint] reg_start = Some s \<longrightarrow> reg_killed s)"
  using reg_loop [of "\<lparr>reg_main = 2, reg_killed = False, reg_out = [Reg_pid]\<rparr>" ms]
  by (auto simp: reg_step_def reg_start_def)

section \<open>Loading a library\<close>

datatype loader_line = File_name "string option" | Dlopen_error | Dlsym_error | Dlclose_error | Me_main_loaded

definition me_main :: "loader_line list" where
  \<comment> \<open>the function of the library\<close>
  "me_main = [Me_main_loaded]"

definition loader_main ::
  "(string option \<Rightarrow> 'h option) \<Rightarrow> ('h \<Rightarrow> string \<Rightarrow> loader_line list option) \<Rightarrow> ('h \<Rightarrow> bool) \<Rightarrow> string option
     \<Rightarrow> loader_line list \<times> int"
where
  \<comment> \<open>\<^verbatim>\<open>dlopen\<close>, \<^verbatim>\<open>dlsym\<close> (a function is what it prints) and \<^verbatim>\<open>dlclose\<close> (whether it succeeds); \<^verbatim>\<open>argv[1]\<close>.
     What is printed and the exit status\<close>
  "loader_main dlopen dlsym dlclose arg =
     (case dlopen arg of
        None \<Rightarrow> ([File_name arg, Dlopen_error], 0)
      | Some h \<Rightarrow>
          (case dlsym h ''me_main'' of
             None \<Rightarrow> ([File_name arg, Dlsym_error], 0)
           | Some f \<Rightarrow> if \<not> dlclose h then (File_name arg # f @ [Dlclose_error], 0) else (File_name arg # f, 0)))"

text \<open>The library's function runs exactly if it is found, and every error ends with status 0 as well.\<close>

lemma loader_runs_me_main:
  "snd (loader_main dlopen dlsym dlclose arg) = 0
   \<and> (dlopen arg = Some h \<and> dlsym h ''me_main'' = Some me_main \<longrightarrow>
        take 2 (fst (loader_main dlopen dlsym dlclose arg)) = [File_name arg, Me_main_loaded])
   \<and> (dlopen arg = None \<or> dlopen arg = Some h \<and> dlsym h ''me_main'' = None \<longrightarrow>
        Me_main_loaded \<notin> set (fst (loader_main dlopen dlsym dlclose arg)))"
  by (auto simp: loader_main_def me_main_def split: option.splits)

section \<open>The clock\<close>

record tm =
  tm_mday :: int
  tm_mon :: int
  tm_year :: int
  tm_hour :: int
  tm_min :: int
  tm_sec :: int

datatype clock_line = My_time int | Date int int int | Time int int int

definition clock_round :: "(int \<Rightarrow> tm) \<Rightarrow> int \<Rightarrow> clock_line list" where
  "clock_round localtime now =
     (let t = localtime now
      in [My_time now, Date (tm_mday t) (tm_mon t + 1) (tm_year t + 1900), Time (tm_hour t) (tm_min t) (tm_sec t)])"

fun clock_main :: "(int \<Rightarrow> tm) \<Rightarrow> int list \<Rightarrow> clock_line list" where
  \<comment> \<open>the results of \<^verbatim>\<open>time\<close> in the rounds so far\<close>
  "clock_main localtime [] = []"
| "clock_main localtime (n # ns) = clock_round localtime n @ clock_main localtime ns"

lemma clock_months:
  assumes "\<And>n. 0 \<le> tm_mon (localtime n) \<and> tm_mon (localtime n) \<le> 11" "Date d m y \<in> set (clock_main localtime ns)"
  shows "1 \<le> m \<and> m \<le> 12"
  using assms(2) by (induction ns) (auto simp: clock_round_def Let_def assms(1) add_increasing2 dest: sym)

section \<open>The module that says hello\<close>

definition hello_world_init :: "string \<times> int" where
  "hello_world_init = (''Hello, World'', 0)"

definition hello_world_exit :: string where
  "hello_world_exit = ''Good bye''"

end
