(* ===== verification/Spec2Isabelle.thy ===== *)
theory Spec2Isabelle
  imports Door_Properties Scull_Driver Seq_Files Online_Driver Race_Programs Semaphore_Reset Sema_Programs Sem_Ring
    Cond_Programs Cpp_Semaphore Segment_Lifetime Reaping Socket_Server Single_Sockets Ipc_Programs Pipe_Race
    Shm_Programs Process_Programs Timer_Programs Crash_Threads Reboot_Program Small_Programs
begin

text \<open>
  A model of the C programs of the repository (\<^verbatim>\<open>src/\<close>) and of what makes them correct.  The
  repository is a collection of Linux programs; its own logic is in five groups, which share no
  code and are modelled separately over a common prelude.

  \<^bold>\<open>The door bell\<close> (\<^verbatim>\<open>linux_task/door_bell_system_sw_design\<close>).  Four threads (monitor, motion
  detector, distance calculator, door bell) and three one-shot timers in one process.  The threads
  read sensor files, send events to the monitor over a message queue and get commands from it over
  three pipes.
  \<^item> \<open>Door_Types\<close>: the enumerations and records of \<^verbatim>\<open>door_bell.h\<close> and \<^verbatim>\<open>str_enum\<close>.
  \<^item> \<open>Door_Channels\<close>: \<^verbatim>\<open>post_event\<close>, \<^verbatim>\<open>read_event\<close> (pipes, byte streams of 20-byte frames),
    \<^verbatim>\<open>post_messageToQ\<close>, \<^verbatim>\<open>get_messageFromQ\<close>; both channels interpret the locale \<open>mailbox\<close> of
    \<open>Channel_Contract\<close>, which gives FIFO delivery.
  \<^item> \<open>Door_Sensors\<close>: \<^verbatim>\<open>get_value\<close> and the dead-thread test \<^verbatim>\<open>check_thread_dead\<close>.
  \<^item> \<open>Door_Timers\<close>: \<^verbatim>\<open>door_timer.h\<close>; a timer table maps existing timers to the delay they are
    armed with, 0 when disarmed.
  \<^item> \<open>Door_Threads\<close>: the record \<open>door_state\<close> holds the globals, channels, timers and the loop
    position of every thread; one function per thread pass (from one blocking call to the next),
    per timer handler, and for \<^verbatim>\<open>main\<close>, \<^verbatim>\<open>process_reboot\<close> and \<^verbatim>\<open>shutdown\<close>.  The outcomes of the
    system calls of a pass are the record \<open>sys_env\<close>.
  \<^item> \<open>Door_System\<close>: all interleavings of the passes (\<open>door_run\<close>, \<open>door_reach\<close>) and the abstract
    specification: a sequential controller \<open>ctl_step\<close> over a phase and the retry count.
    \<open>door_refines_controller\<close> and \<open>door_realises_controller\<close> are the two halves of the simulation.
    It rests on the invariant that at most one command, message, polling loop or timer is
    outstanding (\<open>single_token\<close>), so that the concurrent program is deterministic up to the sensors.
  \<^item> \<open>Door_Properties\<close>: what must precede the bell, what makes it ring, the retry counter (32 bits, it
    wraps around: the theorems that need it to be small say so, and \<open>overflow_revives_retries\<close> what happens
    otherwise), the way back to the motion sensor (\<open>rank\<close> bounds the passes until it is polled again), and
    the two ways out of the discipline (an unknown door status, a failed receive).

  Assumptions: a pass runs without interleaving between its blocking calls (the threads share only
  the channels and timers); \<^verbatim>\<open>main\<close> has set the running flags before the threads end their first
  second of sleep; in reachable states the channel calls succeed (\<open>env_ok\<close>), while their failures
  are branches of every function and have properties of their own.  The runs do not contain the rounds of the
  loop at the end of \<^verbatim>\<open>main\<close> (\<open>main_wait\<close>, \<open>check_thread_dead\<close>): each writes behind its 20-byte command
  buffer, and none closes the file it opens, so that after about a thousand rounds \<^verbatim>\<open>fopen\<close> fails and the
  process exits.

  \<^bold>\<open>The character drivers\<close> (\<^verbatim>\<open>driver/\<close>).  \<open>Kernel_IO\<close> holds what they use of the kernel: the
  copies to and from user space, with the number of bytes left uncopied as an argument, and the
  locale \<open>char_device\<close>, whose lemma says that reading in chunks to the end yields the content.
  An operation ends in \<open>Done\<close>, \<open>Blocked\<close> (asleep on the semaphore) or \<open>Fault\<close> (an access outside a
  buffer).  \<open>Device_Files\<close> is the abstract specification of a driver: a \<open>store\<close> that holds the content
  of the device and the position of the open file, if there is one, and \<open>store_exec\<close>, what every call
  replies and leaves.  The locale \<open>stored_device\<close> is the contract that a driver's operations
  implement it; all three drivers with data interpret it (\<open>online_refines_file\<close>, \<open>scull_refines_file\<close>,
  \<open>seq_refines_file\<close>), and what the contract promises between two sessions is proved in it once
  (\<open>sessions_roundtrip\<close>) and used below for the drivers (\<open>stored_between_sessions\<close>).
  \<^item> \<open>Scull_Driver\<close>: \<^verbatim>\<open>char_driver_sample.c\<close> and its user program, with x86-64 widths (32-bit
    \<^verbatim>\<open>int\<close>, 64-bit \<^verbatim>\<open>size_t\<close> and \<^verbatim>\<open>loff_t\<close>) and the truncations and unsigned comparisons of the code.
  \<^item> \<open>Seq_Driver\<close>: the seq_file variant (its state extends that of the first driver by the node
    list) and the proc variant, whose file operations have the text of the first driver's.
    \<open>Seq_Files\<close> runs its file operations against the abstract file, together with the note of the
    size that \<^verbatim>\<open>/proc\<close> shows.
  \<^item> \<open>Online_Driver\<close>: \<^verbatim>\<open>online_char_driver.c\<close> with 32-bit \<^verbatim>\<open>size_t\<close>; \<open>online_reach\<close> are the states
    and file positions reachable by any operations.

  \<^bold>\<open>Counting threads and processes\<close>.  \<open>Shared_Memory\<close>: a thread is the list of its loads,
  additions, stores and lock operations; \<open>shared_run\<close> executes a schedule.  The locale
  \<open>mutual_exclusion\<close> states what a lock promises; its lemma \<open>counters_exact\<close> says that counting in
  critical sections is exact in every interleaving, never blocks for ever and takes a fixed number
  of steps.  Behind it is a refinement: \<open>atomic_run\<close> executes whole sections one after the other, and the
  relation \<open>serial\<close> ties every interleaving to such a serial run (\<open>serial_sim\<close>), so that states in which
  the lock is free are states of the serial machine.
  \<^item> \<open>Lock_Programs\<close>: the POSIX mutex and the System V semaphore as interpretations, the programs that
    count under them, and the interpretation of \<open>refinement\<close> (see below) behind \<open>counters_agree\<close>.
  \<^item> \<open>Race_Programs\<close>: the programs that count without a lock.  Their threads update the same variables in
    the same order, so that they can be run in lockstep (\<open>lockstep_run\<close> of \<open>Shared_Memory\<close>): then the updates
    of one thread survive in all variables and those of all others are lost.
  \<^item> \<open>Semaphore_Reset\<close>: what happens when \<^verbatim>\<open>sema_proc1.c\<close> sets the semaphore while \<^verbatim>\<open>sema_proc2.c\<close>
    holds it; the same lockstep loses all updates of the first process.
  \<^item> \<open>Sema_Programs\<close>: the two programs of \<^verbatim>\<open>ipc_mechanisms/semaphore\<close> from start to end, their calls,
    sections and every line they print in every interleaving (\<open>sema_inv\<close>, \<open>sema_seg\<close>, \<open>sema_lines\<close>, \<open>sema_left\<close>):
    started on a fresh system, the order does not matter.
  \<^item> \<open>Cpp_Semaphore\<close>: the C++ program \<^verbatim>\<open>semaphore_linux.cpp\<close>, two levels of locking.  Inside a child
    the two threads are a machine of \<open>Shared_Memory\<close> under the child's mutex; around it are the
    processes, their stages, the semaphore and the kernel's undo.  The invariant \<open>cpp_inv\<close> says that
    only the child holding the semaphore has a running machine, and that this machine is
    \<open>protected\<close> in the sense of \<open>mutual_exclusion\<close>; \<open>cpp_left\<close> bounds the steps left.  The shared segment
    is that of \<open>Segments\<close>: \<open>seg_inv\<close> counts who is attached to it.
  \<^item> \<open>Sem_Ring\<close>: three threads that hand the turn around with three semaphores.
  \<^item> \<open>Cond_Programs\<close>: two and three threads that do so with condition variables.
  \<^item> \<open>Segment_Lifetime\<close>, \<open>Reaping\<close>: how long the shared segment of \<^verbatim>\<open>process1.c\<close> and \<^verbatim>\<open>process2.c\<close>
    lives, and the reports on terminated children.

  \<^bold>\<open>Messages between processes\<close>.
  \<^item> \<open>Socket_Server\<close>: the chat server for several clients (\<^verbatim>\<open>socket/multi_client_rec\<close>) and its
    client.  One function per piece between two blocking calls; a schedule is a list of actions.
    \<open>served\<close> are the states of orderly runs, in which a reader thread copies the shared descriptor
    variable before the next connection arrives; there nothing is lost, and \<open>weight\<close> bounds the
    actions left.  Disorderly runs, the twenty-first client and clients that hang up have their own
    theorems.
  \<^item> \<open>Single_Sockets\<close>: the servers for one client at a time and their clients, on the bytes of the
    payload, as functions of what their reads return; the specification of the servers (\<open>shown_session\<close>) is
    about messages and has neither bytes nor reads.
  \<^item> \<open>Ipc_Programs\<close>: the pipe, FIFO and message queue programs; the queue programs are a second
    interpretation of \<open>mailbox\<close>.
  \<^item> \<open>Pipe_Race\<close>: two processes that write into one pipe of bounded size.
  \<^item> \<open>Segments\<close>: System V shared memory segments with their attach count and deferred removal;
    \<open>Shm_Programs\<close>: the pair that hands a message over in one.

  \<^bold>\<open>Processes and timers\<close>.  \<open>Process_Programs\<close>: two children that execute other programs and are
  awaited, or kill the group when that fails, and a child reaped in a signal handler; \<open>Timer_Programs\<close>: the demonstrations of timers
  that expire by a signal or in a thread; \<open>Reboot_Program\<close>: \<^verbatim>\<open>process_reboot.c\<close>, whose images follow one
  another; \<open>Crash_Threads\<close>: \<^verbatim>\<open>thread_crash_identificaion\<close>, three threads that leak the heap, with the size
  of the heap as a parameter, and the handler that cancels them; \<open>Small_Programs\<close>: programs of a few
  lines (threads that spin for ever, a handler for CTRL+C, the loader of a library, a clock, the hello
  module).

  \<^bold>\<open>Interfaces\<close>.  \<open>Machine\<close> states what the step functions of all programs share.  A \<open>machine\<close> is a partial
  step function with the execution of a list of labels; its lemmas are the induction over runs, the
  preservation of invariants and the bounds on the length of runs by a measure (\<open>run_inv\<close>, \<open>run_weight\<close>,
  \<open>run_bound\<close>, \<open>run_completes\<close>).  \<open>exploration\<close> extends it by a list of successors: a finite program is
  explored by evaluation, and the result holds for every run.  \<open>refinement\<close> relates the runs of two
  machines.  Every program with a step function interprets \<open>machine\<close>.

  \<open>Prelude\<close> holds C strings and buffers (a C object of n bytes is a list of n characters, a copy
  that does not fit is \<open>None\<close>), decimal output and lemmas on machine words.

  Bounds and fuel.  Fuel occurs in \<open>seq_iterate\<close> (the number of nodes plus two, proved enough by
  \<open>seq_dump_shows_all\<close>), in the traversal of the node list and in \<open>read_all\<close> (one step per byte plus
  one, \<open>scull_read_to_end\<close>).  The depth of an exploration (123 and 10 steps) is the length of the
  longest run, which \<open>explored\<close> checks.  All other loops are recursions over the data or actions of a
  schedule, whose length the liveness and termination theorems bound.

  Assumptions of the step functions: a mutex, semaphore or condition variable operation, a read or
  write of at most 20 bytes on a pipe and a line of output are atomic; the scheduler may choose any
  enabled step.  A condition variable wait ends by a signal, apart from the lemma on spurious
  wake-ups.

  Not modelled: output text apart from what a theorem is about, delays, signals other than those of
  the programs named above, scheduling policies, udev attributes, socket addresses, the generated
  module descriptors, a failure of \<^verbatim>\<open>pipe\<close> in the chat server (which goes on with descriptor 0) and its
  unused \<^verbatim>\<open>get_message\<close>, the accessor methods of the C++ classes, the files that are copies of modelled
  ones (the backup of the door bell, the second C++ file, \<^verbatim>\<open>online_driver.c\<close>, \<^verbatim>\<open>test_pipe.c\<close>,
  \<^verbatim>\<open>thread_mutex.c\<close>, the second software timers), the empty \<^verbatim>\<open>other/mutex_demo.c\<close> and \<^verbatim>\<open>dum.c\<close>, which does
  not compile.
\<close>

section \<open>One session stores, the next one reads\<close>

lemma session_bytes:
  assumes "take n b = take n buff"
  shows "take (min n len) (take len b) = take (min n len) buff"
  using assms by (metis min.commute min.idem min.left_commute take_take)

text \<open>
  C19. Both character drivers keep data between sessions: what one user writes after opening the device
  is, cut at 1024 bytes or at a partial copy, what the next user reads from its beginning, and the
  replies say how much was stored and delivered.
\<close>

theorem stored_between_sessions:
  assumes "online_reach (s, [])" and "scull_wf t" and "length buff \<le> MAX_RW_COUNT" and "len \<le> MAX_RW_COUNT"
    and "n = min lim (min (length buff) 1024)"
  shows "(\<exists>e data. dev_calls online_exec SIZE_MAX (two_sessions lim buff len len) (s, [])
        = Some ([Re_open, Re_count n, Re_closed 0, Re_open, Re_data (min len 1024) data], e)
      \<and> take (min n len) data = take (min n len) buff)
    \<and> (\<exists>e data. dev_calls scull_exec MAX_RW_COUNT (two_sessions lim buff len len) (t, [])
        = Some ([Re_open, Re_count n, Re_closed 0, Re_open, Re_data (min len 1024) data], e)
      \<and> take (min n len) data = take (min n len) buff)"
proof
  have o: "online_inv (s, [])" "length (bytes (online_file (s, []))) = 1024"
    using online_reach_inv [OF assms(1)] by (simp_all add: online_inv_def online_file_def)
  have "length buff \<le> SIZE_MAX" "len \<le> SIZE_MAX" using assms(3,4) by (simp_all add: MAX_RW_COUNT_def SIZE_MAX_def)
  with online_dev.sessions_roundtrip [OF o(1), of buff len len n lim] o(2) assms(5)
  show "\<exists>e data. dev_calls online_exec SIZE_MAX (two_sessions lim buff len len) (s, [])
        = Some ([Re_open, Re_count n, Re_closed 0, Re_open, Re_data (min len 1024) data], e)
      \<and> take (min n len) data = take (min n len) buff"
    using session_bytes by (fastforce simp: online_kind_def)
  have u: "scull_inv (t, [])" "length (bytes (scull_file (t, []))) = 1024"
    using assms(2) by (simp_all add: scull_inv_def scull_file_def scull_wf_def MAX_BUFF_SIZE_def)
  with scull_dev.sessions_roundtrip [OF u(1), of buff len len n lim] assms(3-5)
  show "\<exists>e data. dev_calls scull_exec MAX_RW_COUNT (two_sessions lim buff len len) (t, [])
        = Some ([Re_open, Re_count n, Re_closed 0, Re_open, Re_data (min len 1024) data], e)
      \<and> take (min n len) data = take (min n len) buff"
    using session_bytes by (fastforce simp: scull_kind_def)
qed

theorem stored_between_sessions_witness:
  "\<exists>e data. dev_calls scull_exec MAX_RW_COUNT (two_sessions 9 ''data'' 4 4) (scull_loaded, [])
     = Some ([Re_open, Re_count 4, Re_closed 0, Re_open, Re_data 4 data], e) \<and> take 4 data = ''data''"
  using stored_between_sessions [OF online_sample_reach scull_wf_loaded, of "''data''" 4 4 9]
  by (simp add: MAX_RW_COUNT_def)

end
